(* ===== verification/Prelude.thy ===== *)
theory Prelude
  imports Main "HOL-Library.Word"
begin

unbundle bit_operations_syntax

text \<open>
  What every component of the development shares: the machine integers of the code,
  the ways a Rust computation can fail (a panic, undefined behaviour of an
  \<open>unsafe\<close> block), sequencing of fallible computations, checked arithmetic as a
  debug build performs it, the reachable states of a step relation, the locale that turns a
  one-step invariant into an invariant of every reachable state, and the locale of the
  simulations.
\<close>

section \<open>Shared vocabulary\<close>

named_theorems fault_simps \<open>rewriting of fallible computations\<close>
named_theorems inv_intros \<open>introduction rules for the components' invariants\<close>

type_synonym u8 = "8 word"
type_synonym u16 = "16 word"
type_synonym u32 = "32 word"
type_synonym u64 = "64 word"
type_synonym i32 = "32 word"
type_synonym isize = "64 word"

text \<open>
  A panic unwinds with a message; \<open>UB\<close> marks a point at which the execution of the
  source has undefined behaviour (an access outside an allocation, a read of
  uninitialised memory, a use after free). Nothing is modelled after either.
\<close>

datatype fault = Panic string | UB string

type_synonym 'a outcome = "fault + 'a"

definition obind :: "'a outcome \<Rightarrow> ('a \<Rightarrow> 'b outcome) \<Rightarrow> 'b outcome" where
  "obind x f = (case x of Inl e \<Rightarrow> Inl e | Inr a \<Rightarrow> f a)"

lemma obind_Inl [simp, fault_simps]: "obind (Inl e) f = Inl e"
  by (simp add: obind_def)

lemma obind_Inr [simp, fault_simps]: "obind (Inr a) f = f a"
  by (simp add: obind_def)

lemma obind_eq_Inr [fault_simps]: "obind x f = Inr b \<longleftrightarrow> (\<exists>a. x = Inr a \<and> f a = Inr b)"
  by (cases x) auto

lemma obind_eq_Inl [fault_simps]:
  "obind x f = Inl e \<longleftrightarrow> x = Inl e \<or> (\<exists>a. x = Inr a \<and> f a = Inl e)"
  by (cases x) auto

lemma obind_assoc: "obind (obind x f) g = obind x (\<lambda>a. obind (f a) g)"
  by (cases x) auto

lemma obind_cong [fundef_cong]:
  "x = y \<Longrightarrow> (\<And>a. y = Inr a \<Longrightarrow> f a = g a) \<Longrightarrow> obind x f = obind y g"
  by (cases y) auto

text \<open>Running an operation over a list, stopping at the first fault.\<close>

fun ofold :: "('a \<Rightarrow> 's \<Rightarrow> 's outcome) \<Rightarrow> 'a list \<Rightarrow> 's \<Rightarrow> 's outcome" where
  "ofold f [] s = Inr s"
| "ofold f (x # xs) s = obind (f x s) (ofold f xs)"

lemma ofold_append: "ofold f (xs @ ys) s = obind (ofold f xs s) (ofold f ys)"
proof (induction xs arbitrary: s)
  case Nil
  then show ?case by simp
next
  case (Cons x xs)
  then have "ofold f (xs @ ys) = (\<lambda>s. obind (ofold f xs s) (ofold f ys))" by auto
  then show ?case by (simp add: obind_assoc)
qed

lemma ofold_invariant:
  assumes "\<And>x s s'. x \<in> set xs \<Longrightarrow> P s \<Longrightarrow> f x s = Inr s' \<Longrightarrow> P s'"
    and "ofold f xs s = Inr s'" and "P s"
  shows "P s'"
  using assms by (induction xs arbitrary: s) (auto simp: obind_eq_Inr)

lemma mod_length_less: "k < length xs \<Longrightarrow> m mod length xs < length xs"
  by (rule mod_less_divisor) linarith

section \<open>Checked arithmetic\<close>

text \<open>
  The crates are built in Cargo's default development profile, in which an arithmetic
  overflow panics. The value computed before the check is the wrapped one.
\<close>

definition checked_add :: "'a::len word \<Rightarrow> 'a word \<Rightarrow> 'a word outcome" where
  "checked_add a b =
     (if unat a + unat b < 2 ^ LENGTH('a) then Inr (a + b)
      else Inl (Panic ''attempt to add with overflow''))"

definition checked_mul :: "'a::len word \<Rightarrow> 'a word \<Rightarrow> 'a word outcome" where
  "checked_mul a b =
     (if unat a * unat b < 2 ^ LENGTH('a) then Inr (a * b)
      else Inl (Panic ''attempt to multiply with overflow''))"

definition checked_sadd :: "'a::len word \<Rightarrow> 'a word \<Rightarrow> 'a word outcome" where
  "checked_sadd a b =
     (if - (2 ^ (LENGTH('a) - 1)) \<le> sint a + sint b \<and> sint a + sint b < 2 ^ (LENGTH('a) - 1)
      then Inr (a + b)
      else Inl (Panic ''attempt to add with overflow''))"

lemma unat_checked_add:
  fixes a b :: "'a::len word"
  assumes "checked_add a b = Inr c"
  shows "unat c = unat a + unat b"
  using assms by (auto simp: checked_add_def unat_word_ariths split: if_splits)

lemma unat_checked_mul:
  fixes a b :: "'a::len word"
  assumes "checked_mul a b = Inr c"
  shows "unat c = unat a * unat b"
  using assms by (auto simp: checked_mul_def unat_word_ariths split: if_splits)

lemma sint_checked_sadd:
  fixes a b :: "'a::len word"
  assumes "checked_sadd a b = Inr c"
  shows "sint c = sint a + sint b"
proof -
  from assms have c: "c = a + b"
    and r: "- (2 ^ (LENGTH('a) - 1)) \<le> sint a + sint b" "sint a + sint b < 2 ^ (LENGTH('a) - 1)"
    by (auto simp: checked_sadd_def split: if_splits)
  have "sint (a + b) = signed_take_bit (LENGTH('a) - Suc 0) (sint a + sint b)"
    by (simp add: sint_word_ariths)
  also have "\<dots> = sint a + sint b"
    using r by (intro signed_take_bit_int_eq_self) auto
  finally show ?thesis using c by simp
qed

section \<open>Reachable states and invariants\<close>

text \<open>
  A concurrent component is a start state and a step relation. A state is reachable when
  a finite number of steps leads to it.
\<close>

inductive reach :: "'s \<Rightarrow> ('s \<Rightarrow> 's \<Rightarrow> bool) \<Rightarrow> 's \<Rightarrow> bool"
  for s0 :: 's and stp :: "'s \<Rightarrow> 's \<Rightarrow> bool" where
  reach_start: "reach s0 stp s0"
| reach_step: "reach s0 stp s \<Longrightarrow> stp s t \<Longrightarrow> reach s0 stp t"

lemma reach_steps:
  assumes "reach s0 stp s" and "rtranclp stp s t"
  shows "reach s0 stp t"
  using assms(2,1) by (induction rule: rtranclp_induct) (auto intro: reach_step)

lemma rtranclp_reach:
  assumes "rtranclp stp s0 t"
  shows "reach s0 stp t"
  using reach_steps [OF reach_start assms] .

locale step_invariant =
  fixes s0 :: 's
    and stp :: "'s \<Rightarrow> 's \<Rightarrow> bool"
    and Inv :: "'s \<Rightarrow> bool"
  assumes inv_start: "Inv s0"
    and inv_step: "Inv s \<Longrightarrow> stp s t \<Longrightarrow> Inv t"
begin

lemma inv_reach: "reach s0 stp s \<Longrightarrow> Inv s"
  by (induction rule: reach.induct) (auto intro: inv_start inv_step)

lemma inv_steps: "Inv s \<Longrightarrow> rtranclp stp s t \<Longrightarrow> Inv t"
  by (rotate_tac 1, induction rule: rtranclp_induct) (auto intro: inv_step)

end

text \<open>
  A measure that every step lowers bounds the length of every run: the contract behind
  each termination statement about a concurrent component.
\<close>

locale step_measure = step_invariant s0 stp Inv
  for s0 :: 's and stp Inv +
  fixes work :: "'s \<Rightarrow> nat"
  assumes work_step: "Inv s \<Longrightarrow> stp s t \<Longrightarrow> work t < work s"
begin

lemma run_bounded: "Inv s \<Longrightarrow> (stp ^^ n) s t \<Longrightarrow> n + work t \<le> work s"
proof (induction n arbitrary: s)
  case 0
  then show ?case by simp
next
  case (Suc n)
  from Suc.prems(2) obtain u where u: "stp s u" "(stp ^^ n) u t"
    by (blast elim: relpowp_Suc_E2)
  with Suc.IH [of u] Suc.prems(1) have "n + work t \<le> work u"
    by (blast intro: inv_step)
  with work_step [OF Suc.prems(1) u(1)] show ?case by simp
qed

lemma reach_run_bounded: "(stp ^^ n) s0 t \<Longrightarrow> n \<le> work s0"
  using run_bounded [OF inv_start] by fastforce

end

section \<open>Labelled runs and simulation\<close>

text \<open>
  When a step has a label that says what was done, a run has the list of its labels. A
  simulation maps every step of an implementation to a step of the specification with the
  same label, and so every run to a run with the same labels.
\<close>

inductive labelled_run :: "('l \<Rightarrow> 's \<Rightarrow> 's \<Rightarrow> bool) \<Rightarrow> 's \<Rightarrow> 'l list \<Rightarrow> 's \<Rightarrow> bool" for stp where
  run_nil: "labelled_run stp s [] s"
| run_cons: "stp l s t \<Longrightarrow> labelled_run stp t ls u \<Longrightarrow> labelled_run stp s (l # ls) u"

inductive_cases labelled_run_nilE: "labelled_run stp s [] t"
inductive_cases labelled_run_consE: "labelled_run stp s (l # ls) t"

lemma labelled_run_single: "stp l s t \<Longrightarrow> labelled_run stp s [l] t"
  by (blast intro: run_nil run_cons)

locale simulation =
  fixes impl :: "'l \<Rightarrow> 'c \<Rightarrow> 'c \<Rightarrow> bool"
    and spec :: "'l \<Rightarrow> 'a \<Rightarrow> 'a \<Rightarrow> bool"
    and abs :: "'c \<Rightarrow> 'a"
    and Inv :: "'c \<Rightarrow> bool"
  assumes simulates: "Inv s \<Longrightarrow> impl l s t \<Longrightarrow> Inv t \<and> spec l (abs s) (abs t)"
begin

lemma runs_simulate:
  "labelled_run impl s ls t \<Longrightarrow> Inv s \<Longrightarrow> Inv t \<and> labelled_run spec (abs s) ls (abs t)"
proof (induction rule: labelled_run.induct)
  case (run_nil s)
  then show ?case by (simp add: labelled_run.run_nil)
next
  case (run_cons l s t ls u)
  with simulates show ?case by (blast intro: labelled_run.run_cons)
qed

end

end
