(* ===== verification/Memory.thy ===== *)
theory Memory
  imports Prelude
begin

text \<open>
  Byte-addressed memory as the \<open>unsafe\<close> parts of the sources use it: a heap buffer is a
  base address and its bytes, raw pointers are addresses, and an access outside the
  buffer is undefined behaviour. Multi-byte integers are little-endian: the sources that
  depend on the order (the green threads' inline assembly, the printed \<open>u16\<close> array)
  are written for x86-64.

  The interface \<open>byte_memory\<close> states what the multi-byte accesses rely on; they are
  proved once in it and interpreted on \<open>mem_block\<close> here, and on the partly
  uninitialised buffers of the C-string code in theory \<open>CStrings\<close>.
\<close>

section \<open>Multi-byte accesses over any byte store\<close>

text \<open>\<open>std::ptr::write\<close> of a sequence of bytes at consecutive addresses, and the read.\<close>

fun store_bytes :: "('m \<Rightarrow> nat \<Rightarrow> 'b \<Rightarrow> 'm outcome) \<Rightarrow> 'm \<Rightarrow> nat \<Rightarrow> 'b list \<Rightarrow> 'm outcome" where
  "store_bytes st m a [] = Inr m"
| "store_bytes st m a (b # bs) = obind (st m a b) (\<lambda>m'. store_bytes st m' (Suc a) bs)"

fun load_bytes :: "('m \<Rightarrow> nat \<Rightarrow> 'b outcome) \<Rightarrow> 'm \<Rightarrow> nat \<Rightarrow> nat \<Rightarrow> 'b list outcome" where
  "load_bytes ld m a 0 = Inr []"
| "load_bytes ld m a (Suc n) =
     obind (ld m a) (\<lambda>b. obind (load_bytes ld m (Suc a) n) (\<lambda>bs. Inr (b # bs)))"

lemma load_bytes_append:
  "load_bytes ld m a (n + k) =
     obind (load_bytes ld m a n)
       (\<lambda>xs. obind (load_bytes ld m (a + n) k) (\<lambda>ys. Inr (xs @ ys)))"
proof (induction n arbitrary: a)
  case 0
  then show ?case by (cases "load_bytes ld m a k") simp_all
next
  case (Suc n)
  then show ?case by (simp add: obind_assoc)
qed

lemma length_load_bytes: "load_bytes ld m a n = Inr bs \<Longrightarrow> length bs = n"
  by (induction n arbitrary: a bs) (auto simp: obind_eq_Inr)

locale byte_memory =
  fixes ld :: "'m \<Rightarrow> nat \<Rightarrow> 'b outcome"
    and st :: "'m \<Rightarrow> nat \<Rightarrow> 'b \<Rightarrow> 'm outcome"
    and mapped :: "'m \<Rightarrow> nat \<Rightarrow> bool"
  assumes st_ok: "mapped m a \<Longrightarrow> \<exists>m'. st m a b = Inr m'"
    and st_mapped: "st m a b = Inr m' \<Longrightarrow> mapped m a"
    and ld_st_same: "st m a b = Inr m' \<Longrightarrow> ld m' a = Inr b"
    and ld_st_other: "st m a b = Inr m' \<Longrightarrow> c \<noteq> a \<Longrightarrow> ld m' c = ld m c"
    and mapped_st: "st m a b = Inr m' \<Longrightarrow> mapped m' c = mapped m c"
begin

lemma store_bytes_ok:
  "(\<And>i. i < length bs \<Longrightarrow> mapped m (a + i)) \<Longrightarrow> \<exists>m'. store_bytes st m a bs = Inr m'"
proof (induction bs arbitrary: m a)
  case Nil
  then show ?case by simp
next
  case (Cons b bs)
  from Cons.prems [of 0] st_ok [of m a b] obtain m1 where m1: "st m a b = Inr m1" by auto
  have "\<exists>m'. store_bytes st m1 (Suc a) bs = Inr m'"
  proof (rule Cons.IH)
    fix i
    assume "i < length bs"
    with Cons.prems [of "Suc i"] show "mapped m1 (Suc a + i)"
      by (simp add: mapped_st [OF m1])
  qed
  with m1 show ?case by simp
qed

lemma store_bytes_mapped:
  "store_bytes st m a bs = Inr m' \<Longrightarrow> mapped m' c = mapped m c"
proof (induction bs arbitrary: m a)
  case Nil
  then show ?case by simp
next
  case (Cons b bs)
  from Cons.prems obtain m1 where m1: "st m a b = Inr m1"
    and r: "store_bytes st m1 (Suc a) bs = Inr m'" by (auto simp: obind_eq_Inr)
  from Cons.IH [OF r] mapped_st [OF m1] show ?case by simp
qed

lemma store_bytes_in_bounds:
  "store_bytes st m a bs = Inr m' \<Longrightarrow> i < length bs \<Longrightarrow> mapped m (a + i)"
proof (induction bs arbitrary: m a i)
  case Nil
  then show ?case by simp
next
  case (Cons b bs)
  from Cons.prems(1) obtain m1 where m1: "st m a b = Inr m1"
    and r: "store_bytes st m1 (Suc a) bs = Inr m'" by (auto simp: obind_eq_Inr)
  show ?case
  proof (cases i)
    case 0
    with st_mapped [OF m1] show ?thesis by simp
  next
    case (Suc j)
    with Cons.IH [OF r, of j] Cons.prems(2) mapped_st [OF m1] show ?thesis by simp
  qed
qed

lemma store_bytes_frame:
  "store_bytes st m a bs = Inr m' \<Longrightarrow> c < a \<or> a + length bs \<le> c \<Longrightarrow> ld m' c = ld m c"
proof (induction bs arbitrary: m a)
  case Nil
  then show ?case by simp
next
  case (Cons b bs)
  from Cons.prems(1) obtain m1 where m1: "st m a b = Inr m1"
    and r: "store_bytes st m1 (Suc a) bs = Inr m'" by (auto simp: obind_eq_Inr)
  from Cons.prems(2) have "c < Suc a \<or> Suc a + length bs \<le> c" by auto
  with Cons.IH [OF r] have "ld m' c = ld m1 c" by simp
  also have "\<dots> = ld m c" using Cons.prems(2) by (intro ld_st_other [OF m1]) auto
  finally show ?case .
qed

lemma load_store_bytes:
  "store_bytes st m a bs = Inr m' \<Longrightarrow> load_bytes ld m' a (length bs) = Inr bs"
proof (induction bs arbitrary: m a)
  case Nil
  then show ?case by simp
next
  case (Cons b bs)
  from Cons.prems obtain m1 where m1: "st m a b = Inr m1"
    and r: "store_bytes st m1 (Suc a) bs = Inr m'" by (auto simp: obind_eq_Inr)
  have "ld m' a = Inr b"
    using store_bytes_frame [OF r, of a] ld_st_same [OF m1] by simp
  with Cons.IH [OF r] show ?case by simp
qed

lemma load_bytes_cong:
  "(\<And>i. i < n \<Longrightarrow> ld m' (a + i) = ld m (a + i)) \<Longrightarrow> load_bytes ld m' a n = load_bytes ld m a n"
proof (induction n arbitrary: a)
  case 0
  then show ?case by simp
next
  case (Suc n)
  have "ld m' a = ld m a" using Suc.prems [of 0] by simp
  moreover have "load_bytes ld m' (Suc a) n = load_bytes ld m (Suc a) n"
  proof (rule Suc.IH)
    fix i
    assume "i < n"
    then show "ld m' (Suc a + i) = ld m (Suc a + i)" using Suc.prems [of "Suc i"] by simp
  qed
  ultimately show ?case by simp
qed

lemma load_store_disjoint:
  assumes "store_bytes st m a bs = Inr m'" and "c + n \<le> a \<or> a + length bs \<le> c"
  shows "load_bytes ld m' c n = load_bytes ld m c n"
  using assms(2) by (intro load_bytes_cong store_bytes_frame [OF assms(1)]) auto

end

section \<open>A heap buffer\<close>

text \<open>The buffer of a \<open>Vec<u8>\<close>: where the allocator put it, and its bytes.\<close>

record mem_block =
  blk_base :: nat
  blk_data :: "u8 list"

definition blk_end :: "mem_block \<Rightarrow> nat" where
  "blk_end m = blk_base m + length (blk_data m)"

definition blk_mapped :: "mem_block \<Rightarrow> nat \<Rightarrow> bool" where
  "blk_mapped m a \<longleftrightarrow> blk_base m \<le> a \<and> a < blk_end m"

definition load8 :: "mem_block \<Rightarrow> nat \<Rightarrow> u8 outcome" where
  "load8 m a =
     (if blk_mapped m a then Inr (blk_data m ! (a - blk_base m))
      else Inl (UB ''read outside the allocation''))"

definition store8 :: "mem_block \<Rightarrow> nat \<Rightarrow> u8 \<Rightarrow> mem_block outcome" where
  "store8 m a b =
     (if blk_mapped m a then Inr (m\<lparr>blk_data := (blk_data m)[a - blk_base m := b]\<rparr>)
      else Inl (UB ''write outside the allocation''))"

lemma store8_eq_Inr:
  "store8 m a b = Inr m' \<longleftrightarrow>
     blk_mapped m a \<and> m' = m\<lparr>blk_data := (blk_data m)[a - blk_base m := b]\<rparr>"
  by (auto simp: store8_def)

interpretation blk: byte_memory load8 store8 blk_mapped
proof unfold_locales
  fix m a b m' c
  assume s: "store8 m a b = Inr m'"
  then show "load8 m' a = Inr b"
    by (auto simp: store8_eq_Inr load8_def blk_mapped_def blk_end_def)
  show "blk_mapped m' c = blk_mapped m c"
    using s by (auto simp: store8_eq_Inr blk_mapped_def blk_end_def)
  show "load8 m' c = load8 m c" if "c \<noteq> a"
    using s that by (auto simp: store8_eq_Inr load8_def blk_mapped_def blk_end_def nth_list_update)
qed (auto simp: store8_def split: if_splits)

lemma store_bytes_base:
  "store_bytes store8 m a bs = Inr m' \<Longrightarrow>
     blk_base m' = blk_base m \<and> length (blk_data m') = length (blk_data m)"
  by (induction bs arbitrary: m a) (auto simp: obind_eq_Inr store8_eq_Inr)

text \<open>Bytes in the middle of a buffer read back.\<close>

lemma load_middle:
  "load_bytes load8 \<lparr>blk_base = base, blk_data = pre @ bs @ post\<rparr> (base + length pre) (length bs) = Inr bs"
proof (induction bs arbitrary: pre)
  case Nil
  then show ?case by simp
next
  case (Cons b bs)
  from Cons.IH [of "pre @ [b]"] show ?case by (simp add: load8_def blk_mapped_def blk_end_def)
qed

section \<open>Little-endian integers\<close>

definition le_bytes :: "nat \<Rightarrow> 'a::len word \<Rightarrow> u8 list" where
  "le_bytes n w = map (\<lambda>i. ucast (drop_bit (8 * i) w)) [0..<n]"

definition of_le_bytes :: "u8 list \<Rightarrow> 'a::len word" where
  "of_le_bytes bs = foldr (\<lambda>b acc. ucast b OR push_bit 8 acc) bs 0"

lemma length_le_bytes [simp]: "length (le_bytes n w) = n"
  by (simp add: le_bytes_def)

lemma bit_of_le_bytes:
  "bit (of_le_bytes bs :: 'a::len word) i \<longleftrightarrow>
     i < LENGTH('a) \<and> i < 8 * length bs \<and> bit (bs ! (i div 8)) (i mod 8)"
proof (induction bs arbitrary: i)
  case Nil
  then show ?case by (simp add: of_le_bytes_def)
next
  case (Cons b bs)
  have "of_le_bytes (b # bs) = (ucast b OR push_bit 8 (of_le_bytes bs) :: 'a word)"
    by (simp add: of_le_bytes_def)
  moreover have "bit (bs ! ((i - 8) div 8)) ((i - 8) mod 8) =
      bit ((b # bs) ! (i div 8)) (i mod 8)" if "8 \<le> i"
    using that by (simp add: le_div_geq le_mod_geq nth_Cons')
  ultimately show ?case
    by (cases "i < 8")
      (auto simp: bit_or_iff bit_unsigned_iff bit_push_bit_iff Cons.IH dest: bit_imp_le_length)
qed

text \<open>Writing an integer's bytes and reading them back gives the integer.\<close>

lemma of_le_bytes_le_bytes:
  fixes w :: "'a::len word"
  assumes "LENGTH('a) \<le> 8 * n"
  shows "of_le_bytes (le_bytes n w) = w"
proof (rule bit_word_eqI)
  fix i
  assume "i < LENGTH('a)"
  with assms have "i div 8 < n" by (simp add: less_mult_imp_div_less mult.commute)
  then show "bit (of_le_bytes (le_bytes n w) :: 'a word) i = bit w i"
    using \<open>i < LENGTH('a)\<close> assms
    by (simp add: bit_of_le_bytes le_bytes_def bit_unsigned_iff bit_drop_bit_eq)
qed

definition write_u64 :: "mem_block \<Rightarrow> nat \<Rightarrow> u64 \<Rightarrow> mem_block outcome" where
  "write_u64 m a w = store_bytes store8 m a (le_bytes 8 w)"

definition read_u64 :: "mem_block \<Rightarrow> nat \<Rightarrow> u64 outcome" where
  "read_u64 m a = obind (load_bytes load8 m a 8) (\<lambda>bs. Inr (of_le_bytes bs))"

lemma write_u64_ok:
  assumes "blk_base m \<le> a" and "a + 8 \<le> blk_end m"
  shows "\<exists>m'. write_u64 m a w = Inr m'"
  unfolding write_u64_def
  by (rule blk.store_bytes_ok) (use assms in \<open>auto simp: blk_mapped_def\<close>)

lemma write_u64_base:
  "write_u64 m a w = Inr m' \<Longrightarrow>
     blk_base m' = blk_base m \<and> length (blk_data m') = length (blk_data m)"
  unfolding write_u64_def by (rule store_bytes_base)

lemma read_write_u64:
  "write_u64 m a w = Inr m' \<Longrightarrow> read_u64 m' a = Inr w"
  unfolding write_u64_def read_u64_def
  by (drule blk.load_store_bytes) (simp add: of_le_bytes_le_bytes)

lemma read_write_u64_other:
  "write_u64 m a w = Inr m' \<Longrightarrow> c + 8 \<le> a \<or> a + 8 \<le> c \<Longrightarrow> read_u64 m' c = read_u64 m c"
  unfolding write_u64_def read_u64_def by (subst blk.load_store_disjoint) auto

text \<open>A zeroed stretch reads as zero.\<close>

lemma load_bytes_zero:
  "blk_base m \<le> a \<Longrightarrow> a + n \<le> blk_end m \<Longrightarrow>
     (\<And>i. a - blk_base m \<le> i \<Longrightarrow> i < a - blk_base m + n \<Longrightarrow> blk_data m ! i = 0) \<Longrightarrow>
     load_bytes load8 m a n = Inr (replicate n 0)"
proof (induction n arbitrary: a)
  case 0
  then show ?case by simp
next
  case (Suc n)
  have "load8 m a = Inr 0"
    using Suc.prems by (simp add: load8_def blk_mapped_def)
  moreover have "load_bytes load8 m (Suc a) n = Inr (replicate n 0)"
    using Suc.prems by (intro Suc.IH) auto
  ultimately show ?case by simp
qed

lemma read_u64_zero:
  assumes "blk_base m \<le> a" and "a + 8 \<le> blk_end m"
    and "\<And>i. a - blk_base m \<le> i \<Longrightarrow> i < a - blk_base m + 8 \<Longrightarrow> blk_data m ! i = 0"
  shows "read_u64 m a = Inr 0"
proof -
  have "of_le_bytes (replicate n 0) = (0 :: u64)" for n
    by (rule bit_word_eqI) (simp add: bit_of_le_bytes)
  then show ?thesis using load_bytes_zero [OF assms] by (simp add: read_u64_def)
qed

section \<open>Pointer arithmetic\<close>

lemma unat_add8:
  fixes w :: u64
  assumes "unat w = k" and "k + 8 < 2 ^ 64"
  shows "unat (w + 8) = k + 8"
  using assms by (simp add: unat_word_ariths)

text \<open>\<open>p.offset(k)\<close> on a byte pointer, and the cast \<open>p as usize & !15\<close> on 64 bits.\<close>

definition ptr_offset :: "nat \<Rightarrow> int \<Rightarrow> nat" where
  "ptr_offset p k = nat (int p + k)"

definition align_down16 :: "nat \<Rightarrow> nat" where
  "align_down16 a = unat ((of_nat a :: u64) AND NOT 15)"

lemma align_down16_eq:
  assumes "a < 2 ^ 64"
  shows "align_down16 a = a - a mod 16"
proof -
  have m: "(15 :: u64) = mask 4" by (simp add: mask_eq_exp_minus_1)
  have "(of_nat a :: u64) AND NOT (mask 4) = push_bit 4 (drop_bit 4 (of_nat a))"
    by (rule bit_word_eqI) (auto simp: bit_simps)
  also have "unat \<dots> = take_bit 64 (push_bit 4 (drop_bit 4 (take_bit 64 a)))"
    by (simp only: unsigned_push_bit_eq unsigned_drop_bit_eq unsigned_of_nat) simp
  also have "\<dots> = a div 16 * 16"
    using assms by (simp add: take_bit_nat_eq_self push_bit_eq_mult drop_bit_eq_div)
  also have "\<dots> = a - a mod 16"
    by (simp add: minus_mod_eq_div_mult)
  finally show ?thesis by (simp add: align_down16_def m)
qed

lemma align_down16_bounds:
  assumes "a < 2 ^ 64"
  shows "align_down16 a \<le> a" and "a < align_down16 a + 16" and "align_down16 a mod 16 = 0"
proof -
  have e: "align_down16 a = a div 16 * 16"
    using align_down16_eq [OF assms] by (simp add: minus_mod_eq_div_mult)
  have "a mod 16 < 16" by simp
  with e show "align_down16 a \<le> a" "a < align_down16 a + 16" "align_down16 a mod 16 = 0"
    using div_mult_mod_eq [of a 16] by (linarith, linarith, simp)
qed

end
