(* ===== verification/StackSwitch.thy ===== *)
theory StackSwitch
  imports Memory
begin

text \<open>
  The two experiments that switch the CPU to a hand-made stack,
  \<^verbatim>\<open>green-thread-explained/src/assembly.rs\<close> and \<^verbatim>\<open>bonus.rs\<close>: a context whose first field
  is the stack pointer, the inline assembly of \<open>gt_switch\<close> (load \<open>rsp\<close>, then \<open>ret\<close>), and
  the two \<open>main\<close>s with the loops that print the stack. The entry address of \<open>hello\<close>, the
  address the allocator gave the vector and the success of file operations are arguments.
\<close>

section \<open>The part of x86-64 the sources use\<close>

record cpu =
  rip :: u64
  rsp_reg :: u64

text \<open>\<open>ret\<close>: pop the return address into \<open>rip\<close>.\<close>

definition x86_ret :: "mem_block \<Rightarrow> cpu \<Rightarrow> cpu outcome" where
  "x86_ret m c =
     obind (read_u64 m (unat (rsp_reg c)))
       (\<lambda>ra. Inr (c\<lparr>rip := ra, rsp_reg := rsp_reg c + 8\<rparr>))"

section \<open>Thread contexts and the switch\<close>

record thread_context =
  rsp :: u64

record full_context = thread_context +
  r15 :: u64
  r14 :: u64
  r13 :: u64
  r12 :: u64
  rbx :: u64
  rbp :: u64

definition thread_context_default :: thread_context where
  "thread_context_default = \<lparr>rsp = 0\<rparr>"

definition full_context_default :: full_context where
  "full_context_default =
     \<lparr>rsp = 0, r15 = 0, r14 = 0, r13 = 0, r12 = 0, rbx = 0, rbp = 0\<rparr>"

text \<open>
  \<open>mov rsp, [new + 0x00]; ret\<close>: the first field of either context is \<open>rsp\<close>
  (both are \<open>repr(C)\<close>).
\<close>

definition gt_switch :: "mem_block \<Rightarrow> 'x thread_context_scheme \<Rightarrow> cpu \<Rightarrow> cpu outcome" where
  "gt_switch m new c = x86_ret m (c\<lparr>rsp_reg := rsp new\<rparr>)"

lemma gt_switch_read:
  "read_u64 m (unat (rsp new)) = Inr f \<Longrightarrow>
     gt_switch m new c = Inr (c\<lparr>rip := f, rsp_reg := rsp new + 8\<rparr>)"
  by (simp add: gt_switch_def x86_ret_def)

section \<open>assembly.rs\<close>

definition asm_SSIZE :: nat where
  "asm_SSIZE = 48"

text \<open>The vector \<open>vec![0u8; SSIZE]\<close> at the address the allocator chose.\<close>

definition zeroed_stack :: "nat \<Rightarrow> nat \<Rightarrow> mem_block" where
  "zeroed_stack base n = \<lparr>blk_base = base, blk_data = replicate n 0\<rparr>"

definition stack_bottom :: "mem_block \<Rightarrow> nat \<Rightarrow> nat" where
  "stack_bottom m n = ptr_offset (blk_base m) (int n)"

definition sb_aligned :: "mem_block \<Rightarrow> nat \<Rightarrow> nat" where
  "sb_aligned m n = align_down16 (stack_bottom m n)"

text \<open>The printing loop: each line is an address and the byte read there.\<close>

fun print_mem :: "mem_block \<Rightarrow> nat \<Rightarrow> nat list \<Rightarrow> (nat \<times> u8) list outcome" where
  "print_mem m p [] = Inr []"
| "print_mem m p (i # is) =
     obind (load8 m (ptr_offset p (int i)))
       (\<lambda>v. obind (print_mem m p is) (\<lambda>ls. Inr ((ptr_offset p (int i), v) # ls)))"

text \<open>Writing \<open>hello\<close>'s address two slots below the aligned bottom.\<close>

definition asm_prepare :: "u64 \<Rightarrow> mem_block \<Rightarrow> mem_block outcome" where
  "asm_prepare hello stk =
     write_u64 stk (ptr_offset (sb_aligned stk asm_SSIZE) (-16)) hello"

definition asm_context :: "mem_block \<Rightarrow> thread_context" where
  "asm_context stk =
     thread_context_default\<lparr>rsp := of_nat (ptr_offset (sb_aligned stk asm_SSIZE) (-16))\<rparr>"

definition asm_main :: "u64 \<Rightarrow> nat \<Rightarrow> cpu \<Rightarrow> cpu outcome" where
  "asm_main hello base c =
     (let stk = zeroed_stack base asm_SSIZE in
      obind (asm_prepare hello stk) (\<lambda>stk'.
      obind (print_mem stk' (sb_aligned stk asm_SSIZE) (rev [0..<asm_SSIZE])) (\<lambda>_.
      gt_switch stk' (asm_context stk) c)))"

section \<open>bonus.rs\<close>

definition bonus_SSIZE :: nat where
  "bonus_SSIZE = 1024"

text \<open>
  \<open>print_stack\<close> creates the file (\<open>expect("create file")\<close>) and writes one line per byte
  (\<open>expect("writing to file.")\<close>); \<open>create_ok\<close> and \<open>write_ok\<close> say which of these succeed.
\<close>

fun print_lines :: "(nat \<Rightarrow> bool) \<Rightarrow> mem_block \<Rightarrow> nat \<Rightarrow> nat list \<Rightarrow> (nat \<times> u8) list outcome" where
  "print_lines write_ok m s_ptr [] = Inr []"
| "print_lines write_ok m s_ptr (i # is) =
     obind (load8 m (ptr_offset s_ptr (int i))) (\<lambda>v.
       if write_ok i
       then obind (print_lines write_ok m s_ptr is)
              (\<lambda>ls. Inr ((ptr_offset s_ptr (int i), v) # ls))
       else Inl (Panic ''writing to file.''))"

definition print_stack ::
  "bool \<Rightarrow> (nat \<Rightarrow> bool) \<Rightarrow> mem_block \<Rightarrow> nat \<Rightarrow> (nat \<times> u8) list outcome" where
  "print_stack create_ok write_ok m s_ptr =
     (if create_ok then print_lines write_ok m s_ptr (rev [0..<bonus_SSIZE])
      else Inl (Panic ''create file''))"

definition bonus_slot :: "mem_block \<Rightarrow> nat" where
  "bonus_slot stk = ptr_offset (blk_base stk) (int bonus_SSIZE - 16)"

definition bonus_prepare :: "u64 \<Rightarrow> mem_block \<Rightarrow> mem_block outcome" where
  "bonus_prepare hello stk = write_u64 stk (bonus_slot stk) hello"

definition bonus_context :: "mem_block \<Rightarrow> full_context" where
  "bonus_context stk = full_context_default\<lparr>rsp := of_nat (bonus_slot stk)\<rparr>"

definition bonus_main :: "bool \<Rightarrow> (nat \<Rightarrow> bool) \<Rightarrow> u64 \<Rightarrow> nat \<Rightarrow> cpu \<Rightarrow> cpu outcome" where
  "bonus_main create_ok write_ok hello base c =
     (let stk = zeroed_stack base bonus_SSIZE in
      obind (bonus_prepare hello stk) (\<lambda>stk'.
      obind (print_stack create_ok write_ok stk' (sb_aligned stk bonus_SSIZE)) (\<lambda>_.
      gt_switch stk' (bonus_context stk) c)))"

section \<open>Lemmas\<close>

lemma zeroed_stack_simps [simp]:
  "blk_base (zeroed_stack base n) = base"
  "blk_data (zeroed_stack base n) = replicate n 0"
  "blk_end (zeroed_stack base n) = base + n"
  by (simp_all add: zeroed_stack_def blk_end_def)

lemma stack_bottom_zeroed [simp]: "stack_bottom (zeroed_stack base n) m = base + m"
  by (simp add: stack_bottom_def ptr_offset_def nat_int_add)

lemma sb_aligned_bounds:
  assumes "base + m < 2 ^ 64"
  shows "sb_aligned (zeroed_stack base n) m \<le> base + m"
    and "base + m < sb_aligned (zeroed_stack base n) m + 16"
    and "sb_aligned (zeroed_stack base n) m mod 16 = 0"
  using align_down16_bounds [OF assms] by (simp_all add: sb_aligned_def)

lemma ptr_offset_back: "k \<le> p \<Longrightarrow> ptr_offset p (- int k) = p - k"
  by (simp add: ptr_offset_def nat_diff_distrib)

lemma ptr_offset_back16: "16 \<le> p \<Longrightarrow> ptr_offset p (- 16) = p - 16"
  using ptr_offset_back [of 16 p] by simp

lemma ptr_offset_forward [simp]: "ptr_offset p (int k) = p + k"
  by (simp add: ptr_offset_def nat_int_add)

lemma bonus_slot_zeroed [simp]: "bonus_slot (zeroed_stack base n) = base + 1008"
  by (simp add: bonus_slot_def bonus_SSIZE_def ptr_offset_def nat_add_distrib)

lemma unmapped_load8: "blk_end m \<le> a \<Longrightarrow> load8 m a = Inl (UB ''read outside the allocation'')"
  by (simp add: load8_def blk_mapped_def)

lemma asm_prepare_ok:
  assumes "base + asm_SSIZE < 2 ^ 64"
  shows "\<exists>stk'. asm_prepare hello (zeroed_stack base asm_SSIZE) = Inr stk'"
proof -
  let ?stk = "zeroed_stack base asm_SSIZE"
  note b = sb_aligned_bounds [OF assms, of asm_SSIZE]
  have "16 \<le> sb_aligned ?stk asm_SSIZE" using b(2) by (simp add: asm_SSIZE_def)
  then show ?thesis
    unfolding asm_prepare_def using b
    by (intro write_u64_ok) (simp_all add: ptr_offset_back16 asm_SSIZE_def)
qed

lemma asm_context_rsp:
  assumes "base + asm_SSIZE < 2 ^ 64"
  shows "unat (rsp (asm_context (zeroed_stack base asm_SSIZE))) =
           ptr_offset (sb_aligned (zeroed_stack base asm_SSIZE) asm_SSIZE) (-16)"
proof -
  have "sb_aligned (zeroed_stack base asm_SSIZE) asm_SSIZE < 2 ^ 64"
    using sb_aligned_bounds(1) [OF assms, of asm_SSIZE] assms by linarith
  then show ?thesis
    by (simp add: asm_context_def unat_of_nat ptr_offset_def nat_less_iff)
qed

text \<open>Every one of the printing loops starts with a read beyond the allocation.\<close>

lemma print_overrun:
  assumes "base + n < 2 ^ 64" and "16 \<le> n"
    and "blk_base m = base" and "length (blk_data m) = n"
  shows "load8 m (ptr_offset (sb_aligned (zeroed_stack base n) n) (int (n - 1))) =
           Inl (UB ''read outside the allocation'')"
proof -
  have "blk_end m \<le> sb_aligned (zeroed_stack base n) n + (n - 1)"
    using sb_aligned_bounds(2) [OF assms(1), of n] assms(2-4) by (simp add: blk_end_def)
  then show ?thesis by (simp only: ptr_offset_forward unmapped_load8)
qed

lemma rev_upt_Cons: "0 < n \<Longrightarrow> rev [0..<n] = (n - 1) # rev [0..<n - 1]"
  by (cases n) auto


lemma print_mem_overrun:
  assumes "base + n < 2 ^ 64" and "16 \<le> n"
    and "blk_base m = base" and "length (blk_data m) = n"
  shows "print_mem m (sb_aligned (zeroed_stack base n) n) (rev [0..<n]) =
           Inl (UB ''read outside the allocation'')"
  using print_overrun [OF assms] assms(2) by (simp add: rev_upt_Cons del: ptr_offset_forward)

lemma print_lines_overrun:
  assumes "base + n < 2 ^ 64" and "16 \<le> n"
    and "blk_base m = base" and "length (blk_data m) = n"
  shows "print_lines write_ok m (sb_aligned (zeroed_stack base n) n) (rev [0..<n]) =
           Inl (UB ''read outside the allocation'')"
  using print_overrun [OF assms] assms(2) by (simp add: rev_upt_Cons del: ptr_offset_forward)

lemma bonus_prepare_ok:
  "\<exists>stk'. bonus_prepare hello (zeroed_stack base bonus_SSIZE) = Inr stk'"
  unfolding bonus_prepare_def by (intro write_u64_ok) (simp_all add: bonus_SSIZE_def)

section \<open>Properties\<close>

text \<open>
  In \<^verbatim>\<open>assembly.rs\<close> the value written to the new stack and the context handed to
  \<open>gt_switch\<close> fit together, wherever the allocator puts the 48-byte vector: the write stays
  inside the vector, the switch transfers control to \<open>hello\<close>, the stack pointer then lies
  inside the vector, and it is 8 modulo 16, as the ABI wants at a function's entry.
\<close>

theorem asm_switch_enters_hello:
  assumes "base + asm_SSIZE < 2 ^ 64"
  shows "\<exists>stk' c'. asm_prepare hello (zeroed_stack base asm_SSIZE) = Inr stk' \<and>
           gt_switch stk' (asm_context (zeroed_stack base asm_SSIZE)) c = Inr c' \<and>
           rip c' = hello \<and>
           base < unat (rsp_reg c') \<and> unat (rsp_reg c') < base + asm_SSIZE \<and>
           unat (rsp_reg c') mod 16 = 8"
proof -
  let ?stk = "zeroed_stack base asm_SSIZE"
  define sb where "sb = sb_aligned ?stk asm_SSIZE"
  note b = sb_aligned_bounds [OF assms, of asm_SSIZE, folded sb_def]
  obtain stk' where stk': "asm_prepare hello ?stk = Inr stk'"
    using asm_prepare_ok [OF assms] by blast
  have sb16: "16 \<le> sb" using b(2) by (simp add: asm_SSIZE_def)
  have r: "unat (rsp (asm_context ?stk)) = sb - 16"
    using asm_context_rsp [OF assms] sb16 by (simp add: sb_def ptr_offset_back16)
  have "read_u64 stk' (unat (rsp (asm_context ?stk))) = Inr hello"
    using stk' by (simp only: r) (simp add: asm_prepare_def read_write_u64
        sb_def [symmetric] ptr_offset_back16 [OF sb16])
  from gt_switch_read [OF this, of c]
  have sw: "gt_switch stk' (asm_context ?stk) c =
      Inr (c\<lparr>rip := hello, rsp_reg := rsp (asm_context ?stk) + 8\<rparr>)" .
  have "unat (rsp (asm_context ?stk) + 8) = sb - 8"
    using r sb16 b(1) assms by (simp add: unat_word_ariths)
  moreover have "(sb - 8) mod 16 = 8"
  proof -
    from b(3) sb16 obtain k where "sb = 16 * Suc k"
      by (metis mod_0_imp_dvd dvdE mult_is_0 not0_implies_Suc not_numeral_le_zero)
    then show ?thesis by simp
  qed
  ultimately show ?thesis
    using stk' sw b(1,2) by (auto simp: asm_SSIZE_def)
qed

lemma asm_switch_enters_hello_witness:
  "\<exists>stk' c'. asm_prepare 0x401000 (zeroed_stack 0x7f0010 asm_SSIZE) = Inr stk' \<and>
     gt_switch stk' (asm_context (zeroed_stack 0x7f0010 asm_SSIZE)) \<lparr>rip = 0, rsp_reg = 0\<rparr> = Inr c' \<and>
     rip c' = 0x401000 \<and>
     0x7f0010 < unat (rsp_reg c') \<and> unat (rsp_reg c') < 0x7f0010 + asm_SSIZE \<and>
     unat (rsp_reg c') mod 16 = 8"
  by (rule asm_switch_enters_hello) (simp add: asm_SSIZE_def)

text \<open>
  C7: \<^verbatim>\<open>assembly.rs\<close>'s \<open>main\<close> never reaches the switch without undefined behaviour: its
  printing loop walks upwards from the aligned bottom of the stack, so its first read is
  past the end of the vector, for every address the allocator can return.
\<close>

theorem asm_main_overreads:
  assumes "base + asm_SSIZE < 2 ^ 64"
  shows "asm_main hello base c = Inl (UB ''read outside the allocation'')"
proof -
  obtain stk' where stk': "asm_prepare hello (zeroed_stack base asm_SSIZE) = Inr stk'"
    using asm_prepare_ok [OF assms] by blast
  then have "blk_base stk' = base" "length (blk_data stk') = asm_SSIZE"
    using write_u64_base by (fastforce simp: asm_prepare_def)+
  with print_mem_overrun [OF assms] stk' show ?thesis
    by (simp add: asm_main_def Let_def asm_SSIZE_def)
qed

lemma asm_main_overreads_witness:
  "asm_main 0x401000 0x7f0000 \<lparr>rip = 0, rsp_reg = 0\<rparr> =
     Inl (UB ''read outside the allocation'')"
  by (rule asm_main_overreads) (simp add: asm_SSIZE_def)

text \<open>
  \<^verbatim>\<open>bonus.rs\<close> computes an aligned stack bottom but starts \<open>hello\<close> sixteen bytes below the
  end of the unaligned vector: the switch enters \<open>hello\<close>, and the stack pointer has the
  alignment the ABI wants exactly when the allocator happened to return a 16-byte aligned
  address.
\<close>

theorem bonus_entry_alignment:
  assumes "base + bonus_SSIZE < 2 ^ 64"
  shows "\<exists>stk' c'. bonus_prepare hello (zeroed_stack base bonus_SSIZE) = Inr stk' \<and>
           gt_switch stk' (bonus_context (zeroed_stack base bonus_SSIZE)) c = Inr c' \<and>
           rip c' = hello \<and>
           (unat (rsp_reg c') mod 16 = 8 \<longleftrightarrow> base mod 16 = 0)"
proof -
  let ?stk = "zeroed_stack base bonus_SSIZE"
  obtain stk' where stk': "bonus_prepare hello ?stk = Inr stk'"
    using bonus_prepare_ok by blast
  have r: "unat (rsp (bonus_context ?stk)) = base + 1008"
    using assms by (simp add: bonus_context_def bonus_SSIZE_def unat_of_nat del: of_nat_add)
  have "read_u64 stk' (unat (rsp (bonus_context ?stk))) = Inr hello"
    using stk' by (simp only: r) (simp add: bonus_prepare_def read_write_u64)
  note sw = gt_switch_read [OF this, of c]
  have "unat (rsp (bonus_context ?stk) + 8) = base + 1016"
    using r assms by (simp add: unat_word_ariths bonus_SSIZE_def)
  moreover have "(base + 1016) mod 16 = 8 \<longleftrightarrow> base mod 16 = 0" by presburger
  ultimately show ?thesis using stk' sw by auto
qed

lemma bonus_entry_alignment_witness:
  "\<exists>stk' c'. bonus_prepare 0x401000 (zeroed_stack 0x7f0008 bonus_SSIZE) = Inr stk' \<and>
     gt_switch stk' (bonus_context (zeroed_stack 0x7f0008 bonus_SSIZE)) \<lparr>rip = 0, rsp_reg = 0\<rparr> = Inr c' \<and>
     rip c' = 0x401000 \<and>
     (unat (rsp_reg c') mod 16 = 8 \<longleftrightarrow> (0x7f0008 :: nat) mod 16 = 0)"
  by (rule bonus_entry_alignment) (simp add: bonus_SSIZE_def)

text \<open>
  \<^verbatim>\<open>bonus.rs\<close>'s \<open>main\<close> reads past the end of its vector as soon as it prints the stack:
  \<open>S_PTR\<close> is the aligned bottom, and the loop goes up from it. The files \<^verbatim>\<open>BEFORE.txt\<close> and
  \<^verbatim>\<open>AFTER.txt\<close> of the repository therefore show memory beyond the stack.
\<close>

theorem bonus_main_overreads:
  assumes "base + bonus_SSIZE < 2 ^ 64"
  shows "bonus_main True write_ok hello base c = Inl (UB ''read outside the allocation'')"
proof -
  obtain stk' where stk': "bonus_prepare hello (zeroed_stack base bonus_SSIZE) = Inr stk'"
    using bonus_prepare_ok by blast
  then have "blk_base stk' = base" "length (blk_data stk') = bonus_SSIZE"
    using write_u64_base by (fastforce simp: bonus_prepare_def)+
  with print_lines_overrun [OF assms] stk' show ?thesis
    by (simp add: bonus_main_def print_stack_def Let_def bonus_SSIZE_def)
qed

lemma bonus_main_overreads_witness:
  "bonus_main True (\<lambda>_. True) 0x401000 0x7f0008 \<lparr>rip = 0, rsp_reg = 0\<rparr> =
     Inl (UB ''read outside the allocation'')"
  by (rule bonus_main_overreads) (simp add: bonus_SSIZE_def)

end
