(* ===== verification/GreenThreads.thy ===== *)
theory GreenThreads
  imports StackSwitch
begin

text \<open>
  The green-thread runtime of \<^verbatim>\<open>green-thread-explained/src/main.rs\<close>: the table of threads,
  the round-robin search of \<open>t_yield\<close> with its state changes, \<open>spawn\<close> with the words it
  writes to the new stack, \<open>run\<close> and \<open>main\<close>.

  The routine \<open>switch\<close> that \<open>t_yield\<close> calls from its inline assembly is not part of the
  repository: it is the argument \<open>sw\<close>, which receives the old context, the new context and
  the machine, and returns what it saved in the old context and the machine afterwards.
  What the threads do until control comes back to the caller of \<open>t_yield\<close> is the argument
  \<open>others\<close> of \<open>run\<close>. The heap addresses of the stacks and the entry addresses of \<open>guard\<close>
  and of the thread functions are arguments too.
\<close>

section \<open>Threads and the runtime\<close>

definition DEFAULT_STACK_SIZE :: nat where
  "DEFAULT_STACK_SIZE = 1024 * 1024 * 2"

definition MAX_THREADS :: nat where
  "MAX_THREADS = 4"

datatype State = Available | Running | Ready

type_synonym ThreadContext = full_context

record Thread =
  thread_id :: nat
  stack :: mem_block
  ctx :: ThreadContext
  state :: State

record Runtime =
  threads :: "Thread list"
  current :: nat

text \<open>The static \<open>RUNTIME\<close>, which holds the address of the runtime.\<close>

record statics =
  RUNTIME :: nat

definition Thread_new :: "nat \<Rightarrow> nat \<Rightarrow> Thread" where
  "Thread_new base i =
     \<lparr>thread_id = i, stack = zeroed_stack base DEFAULT_STACK_SIZE,
      ctx = full_context_default, state = Available\<rparr>"

definition Runtime_new :: "(nat \<Rightarrow> nat) \<Rightarrow> Runtime" where
  "Runtime_new bases =
     (let base_thread =
        \<lparr>thread_id = 0, stack = zeroed_stack (bases 0) DEFAULT_STACK_SIZE,
         ctx = full_context_default, state = Running\<rparr>
      in \<lparr>threads = [base_thread] @ map (\<lambda>i. Thread_new (bases i) i) [1..<MAX_THREADS],
          current = 0\<rparr>)"

definition Runtime_init :: "nat \<Rightarrow> statics \<Rightarrow> statics" where
  "Runtime_init r_ptr g = g\<lparr>RUNTIME := r_ptr\<rparr>"

section \<open>t_yield\<close>

text \<open>
  The search loop, entered with \<open>pos = self.current\<close>: the first thread in state \<open>Ready\<close>
  going round the table, \<open>None\<close> when the search is back at the current thread. The outer
  option is \<open>None\<close> when the loop does not return.
\<close>

partial_function (option) find_ready :: "Thread list \<Rightarrow> nat \<Rightarrow> nat \<Rightarrow> nat option outcome option" where
  "find_ready ts cur pos =
     (if length ts \<le> pos then Some (Inl (Panic ''index out of bounds''))
      else if state (ts ! pos) = Ready then Some (Inr (Some pos))
      else let pos' = (if pos + 1 = length ts then 0 else pos + 1)
           in if pos' = cur then Some (Inr None) else find_ready ts cur pos')"

definition set_state :: "nat \<Rightarrow> State \<Rightarrow> Thread list \<Rightarrow> Thread list" where
  "set_state i s ts = ts[i := (ts ! i)\<lparr>state := s\<rparr>]"

text \<open>The two assignments to thread states, and the save of the old context.\<close>

definition switch_states :: "nat \<Rightarrow> nat \<Rightarrow> Thread list \<Rightarrow> Thread list" where
  "switch_states cur pos ts =
     set_state pos Running
       (if state (ts ! cur) \<noteq> Available then set_state cur Ready ts else ts)"

datatype 'c yielded = NothingReady | SwitchedTo Runtime 'c

definition t_yield ::
  "(full_context \<Rightarrow> full_context \<Rightarrow> 'c \<Rightarrow> full_context \<times> 'c) \<Rightarrow> 'c \<Rightarrow> Runtime \<Rightarrow>
     'c yielded outcome option" where
  "t_yield sw c rt =
     (case find_ready (threads rt) (current rt) (current rt) of
        None \<Rightarrow> None
      | Some (Inl e) \<Rightarrow> Some (Inl e)
      | Some (Inr None) \<Rightarrow> Some (Inr NothingReady)
      | Some (Inr (Some pos)) \<Rightarrow>
          let old_pos = current rt;
              ts = switch_states old_pos pos (threads rt);
              (saved, c') = sw (ctx (ts ! old_pos)) (ctx (ts ! pos)) c
          in Some (Inr (SwitchedTo
               (rt\<lparr>threads := ts[old_pos := (ts ! old_pos)\<lparr>ctx := saved\<rparr>],
                   current := pos\<rparr>) c')))"

text \<open>The value \<open>t_yield\<close> returns when its caller is resumed.\<close>

definition t_yield_resumed :: "Runtime \<Rightarrow> bool" where
  "t_yield_resumed rt \<longleftrightarrow> 0 < length (threads rt)"

section \<open>spawn, run and main\<close>

fun find_available :: "Thread list \<Rightarrow> nat option" where
  "find_available [] = None"
| "find_available (t # ts) =
     (if state t = Available then Some 0 else map_option Suc (find_available ts))"

text \<open>The aligned top of a thread's stack, the address both written slots are relative to.\<close>

definition stack_top :: "mem_block \<Rightarrow> nat" where
  "stack_top stk = sb_aligned stk (length (blk_data stk))"

definition spawn :: "u64 \<Rightarrow> u64 \<Rightarrow> Runtime \<Rightarrow> Runtime outcome" where
  "spawn guard f rt =
     (case find_available (threads rt) of
        None \<Rightarrow> Inl (Panic ''no available thread.'')
      | Some i \<Rightarrow>
          let available = threads rt ! i;
              s_ptr = stack_top (stack available)
          in obind (write_u64 (stack available) (ptr_offset s_ptr (-16)) guard) (\<lambda>stk1.
             obind (write_u64 stk1 (ptr_offset s_ptr (-32)) f) (\<lambda>stk2.
             Inr (rt\<lparr>threads := (threads rt)[i := available\<lparr>
                       stack := stk2,
                       ctx := (ctx available)\<lparr>rsp := of_nat (ptr_offset s_ptr (-32))\<rparr>,
                       state := Ready\<rparr>]\<rparr>))))"

text \<open>
  \<open>run\<close> yields until \<open>t_yield\<close> is false and then exits the process with code 0. The result
  is \<open>None\<close> when the loop goes on for ever or control never comes back.
\<close>

partial_function (option) run ::
  "(full_context \<Rightarrow> full_context \<Rightarrow> 'c \<Rightarrow> full_context \<times> 'c) \<Rightarrow>
   ('c \<Rightarrow> Runtime \<Rightarrow> ('c \<times> Runtime) option) \<Rightarrow> 'c \<Rightarrow> Runtime \<Rightarrow> (int \<times> Runtime) outcome option" where
  "run sw others c rt =
     (case t_yield sw c rt of
        None \<Rightarrow> None
      | Some (Inl e) \<Rightarrow> Some (Inl e)
      | Some (Inr NothingReady) \<Rightarrow> Some (Inr (0, rt))
      | Some (Inr (SwitchedTo rt' c')) \<Rightarrow>
          (case others c' rt' of
             None \<Rightarrow> None
           | Some (c'', rt'') \<Rightarrow>
               if t_yield_resumed rt'' then run sw others c'' rt''
               else Some (Inr (0, rt''))))"

definition gt_main_setup :: "(nat \<Rightarrow> nat) \<Rightarrow> u64 \<Rightarrow> u64 \<Rightarrow> u64 \<Rightarrow> Runtime outcome" where
  "gt_main_setup bases guard f1 f2 =
     obind (spawn guard f1 (Runtime_new bases)) (spawn guard f2)"

definition gt_main ::
  "(full_context \<Rightarrow> full_context \<Rightarrow> 'c \<Rightarrow> full_context \<times> 'c) \<Rightarrow>
   ('c \<Rightarrow> Runtime \<Rightarrow> ('c \<times> Runtime) option) \<Rightarrow> 'c \<Rightarrow>
   (nat \<Rightarrow> nat) \<Rightarrow> u64 \<Rightarrow> u64 \<Rightarrow> u64 \<Rightarrow> (int \<times> Runtime) outcome option" where
  "gt_main sw others c bases guard f1 f2 =
     (case gt_main_setup bases guard f1 f2 of
        Inl e \<Rightarrow> Some (Inl e)
      | Inr rt \<Rightarrow> run sw others c rt)"

section \<open>The round-robin search\<close>

text \<open>
  The specification of the search: the first ready thread in the order current, current + 1,
  and so on round the table.
\<close>

definition round_robin :: "Thread list \<Rightarrow> nat \<Rightarrow> nat option" where
  "round_robin ts cur =
     find (\<lambda>i. state (ts ! i) = Ready) (map (\<lambda>k. (cur + k) mod length ts) [0..<length ts])"

lemma mod_step:
  fixes n x :: nat
  assumes "0 < n"
  shows "(if x mod n + 1 = n then 0 else x mod n + 1) = (x + 1) mod n"
  using mod_Suc [of x n] by simp

lemma mod_round:
  fixes n cur k :: nat
  assumes "cur < n" and "0 < k" and "k \<le> n"
  shows "(cur + k) mod n = cur \<longleftrightarrow> k = n"
proof (cases "k = n")
  case True
  with assms show ?thesis by simp
next
  case False
  with assms have "k < n" by simp
  then show ?thesis
    using assms by (cases "cur + k < n") (auto simp: mod_if)
qed

lemma find_ready_suffix:
  assumes "cur < length ts" and "k < length ts"
  shows "find_ready ts cur ((cur + k) mod length ts) =
    Some (Inr (find (\<lambda>i. state (ts ! i) = Ready)
      (map (\<lambda>k. (cur + k) mod length ts) [k..<length ts])))"
  using assms(2)
proof (induction "length ts - k" arbitrary: k)
  case 0
  then show ?case by simp
next
  case (Suc d)
  let ?n = "length ts" and ?p = "(cur + k) mod length ts"
  have p: "?p < ?n" using Suc.prems by (rule mod_length_less)
  have split: "[k..<?n] = k # [Suc k..<?n]" using Suc.prems by (simp add: upt_conv_Cons)
  have nxt: "(if ?p + 1 = ?n then 0 else ?p + 1) = (cur + Suc k) mod ?n"
  proof -
    from Suc.prems have "0 < ?n" by linarith
    from mod_step [OF this, of "cur + k"] show ?thesis by (simp only: add.assoc) simp
  qed
  show ?case
  proof (cases "state (ts ! ?p) = Ready")
    case True
    with p split show ?thesis by (subst find_ready.simps) simp
  next
    case nready: False
    show ?thesis
    proof (cases "Suc k = ?n")
      case True
      then have "(cur + Suc k) mod ?n = cur" using assms(1) by simp
      with nready p nxt split True show ?thesis by (subst find_ready.simps) simp
    next
      case False
      with Suc.prems have k: "Suc k < ?n" by simp
      then have "(cur + Suc k) mod ?n \<noteq> cur" using mod_round [OF assms(1), of "Suc k"] by auto
      moreover have "find_ready ts cur ((cur + Suc k) mod ?n) =
          Some (Inr (find (\<lambda>i. state (ts ! i) = Ready)
            (map (\<lambda>k. (cur + k) mod ?n) [Suc k..<?n])))"
        by (rule Suc.hyps(1)) (use Suc.hyps(2) k in auto)
      ultimately show ?thesis
        using nready p nxt split by (subst find_ready.simps) (simp add: Let_def)
    qed
  qed
qed

lemma find_ready_round_robin:
  assumes "cur < length ts"
  shows "find_ready ts cur cur = Some (Inr (round_robin ts cur))"
proof -
  from assms have "0 < length ts" by (cases ts) auto
  from find_ready_suffix [OF assms this] assms show ?thesis by (simp add: round_robin_def)
qed

lemma round_robin_None:
  assumes "cur < length ts"
  shows "round_robin ts cur = None \<longleftrightarrow> (\<forall>i < length ts. state (ts ! i) \<noteq> Ready)"
proof -
  have "\<exists>k < length ts. (cur + k) mod length ts = i" if "i < length ts" for i
  proof (cases "cur \<le> i")
    case True
    with that show ?thesis by (intro exI [of _ "i - cur"]) auto
  next
    case False
    with that assms show ?thesis by (intro exI [of _ "length ts - cur + i"]) auto
  qed
  moreover have "(cur + k) mod length ts < length ts" if "k < length ts" for k
    using that by (rule mod_length_less)
  ultimately show ?thesis by (fastforce simp: round_robin_def find_None_iff)
qed

lemma round_robin_Some:
  assumes "round_robin ts cur = Some p"
  shows "p < length ts" and "state (ts ! p) = Ready"
proof -
  from assms obtain k where k: "k < length ts" "p = (cur + k) mod length ts"
    "state (ts ! p) = Ready"
    by (auto simp: round_robin_def find_Some_iff)
  then show "state (ts ! p) = Ready" by simp
  from k(1) show "p < length ts" unfolding k(2) by (rule mod_length_less)
qed

text \<open>How far the search has to go from the current thread to thread \<open>j\<close>.\<close>

definition turns :: "nat \<Rightarrow> nat \<Rightarrow> nat \<Rightarrow> nat" where
  "turns n cur j = (j + n - cur) mod n"

lemma turns_less: "cur < n \<Longrightarrow> turns n cur j < n"
  unfolding turns_def by (intro mod_less_divisor) simp

lemma turns_self: "cur < n \<Longrightarrow> turns n cur cur = 0"
  by (simp add: turns_def)

lemma turns_round:
  assumes "cur < n" and "j < n"
  shows "(cur + turns n cur j) mod n = j"
  using assms by (simp add: turns_def mod_add_right_eq)

lemma turns_eq:
  assumes "cur < n" and "k < n"
  shows "turns n cur ((cur + k) mod n) = k"
proof (cases "cur + k < n")
  case True
  with assms show ?thesis by (simp add: turns_def)
next
  case False
  then have "(cur + k) mod n = cur + k - n" using assms by (simp add: mod_if)
  with False assms show ?thesis by (simp add: turns_def)
qed

text \<open>The chosen thread is not further away than any other ready one.\<close>

lemma round_robin_first:
  assumes "cur < length ts" and "round_robin ts cur = Some p"
    and "j < length ts" and "state (ts ! j) = Ready"
  shows "turns (length ts) cur p \<le> turns (length ts) cur j"
proof -
  let ?n = "length ts"
  from assms(2) obtain k where k: "k < ?n" "p = (cur + k) mod ?n"
    and min: "\<And>i. i < k \<Longrightarrow> state (ts ! ((cur + i) mod ?n)) \<noteq> Ready"
    by (auto simp: round_robin_def find_Some_iff)
  have "\<not> turns ?n cur j < k"
    using min [of "turns ?n cur j"] turns_round [OF assms(1,3)] assms(4) by auto
  then show ?thesis using turns_eq [OF assms(1) k(1)] k(2) by simp
qed

lemma turns_advance:
  assumes "cur < n" and "p < n" and "j < n"
    and "turns n cur p \<le> turns n cur j" and "p \<noteq> cur"
  shows "turns n p j < turns n cur j"
proof -
  have e: "turns n x y = (if x \<le> y then y - x else y + n - x)" if "x < n" "y < n" for x y
  proof (cases "x \<le> y")
    case True
    then have "y + n - x = (y - x) + n" by simp
    then have "turns n x y = (y - x) mod n" by (simp only: turns_def mod_add_self2)
    with True that show ?thesis by simp
  next
    case False
    with that show ?thesis unfolding turns_def by simp
  qed
  from assms show ?thesis by (auto simp: e split: if_splits)
qed


section \<open>The runtime's invariant\<close>

definition stack_ok :: "Thread \<Rightarrow> bool" where
  "stack_ok t \<longleftrightarrow> length (blk_data (stack t)) = DEFAULT_STACK_SIZE \<and> blk_end (stack t) < 2 ^ 64"

text \<open>A thread that was never spawned still has the zeroed stack it was created with.\<close>

definition fresh_ok :: "Thread \<Rightarrow> bool" where
  "fresh_ok t \<longleftrightarrow>
     (state t = Available \<longrightarrow> blk_data (stack t) = replicate DEFAULT_STACK_SIZE 0)"

definition rt_inv :: "Runtime \<Rightarrow> bool" where
  "rt_inv rt \<longleftrightarrow>
     length (threads rt) = MAX_THREADS \<and> current rt < MAX_THREADS \<and>
     (\<forall>i < MAX_THREADS. thread_id (threads rt ! i) = i \<and>
        (state (threads rt ! i) = Running \<longleftrightarrow> i = current rt) \<and>
        stack_ok (threads rt ! i) \<and> fresh_ok (threads rt ! i))"

definition bases_ok :: "(nat \<Rightarrow> nat) \<Rightarrow> bool" where
  "bases_ok bases \<longleftrightarrow> (\<forall>i < MAX_THREADS. bases i + DEFAULT_STACK_SIZE < 2 ^ 64)"

lemma rt_inv_current: "rt_inv rt \<Longrightarrow> current rt < length (threads rt)"
  by (simp add: rt_inv_def)

lemma rt_inv_thread:
  assumes "rt_inv rt" and "i < length (threads rt)"
  shows "thread_id (threads rt ! i) = i" and "state (threads rt ! i) = Running \<longleftrightarrow> i = current rt"
    and "stack_ok (threads rt ! i)" and "fresh_ok (threads rt ! i)"
  using assms by (auto simp: rt_inv_def)

lemma MAX_THREADS_range: "i < MAX_THREADS \<longleftrightarrow> i = 0 \<or> i = 1 \<or> i = 2 \<or> i = 3"
  by (auto simp: MAX_THREADS_def)

lemma Runtime_new_threads:
  "threads (Runtime_new bases) =
     [\<lparr>thread_id = 0, stack = zeroed_stack (bases 0) DEFAULT_STACK_SIZE,
       ctx = full_context_default, state = Running\<rparr>,
      Thread_new (bases 1) 1, Thread_new (bases 2) 2, Thread_new (bases 3) 3]"
  "current (Runtime_new bases) = 0"
proof -
  have "[1..<4] = [1::nat, 2, 3]" by (simp add: upt_rec)
  then show "threads (Runtime_new bases) =
     [\<lparr>thread_id = 0, stack = zeroed_stack (bases 0) DEFAULT_STACK_SIZE,
       ctx = full_context_default, state = Running\<rparr>,
      Thread_new (bases 1) 1, Thread_new (bases 2) 2, Thread_new (bases 3) 3]"
    "current (Runtime_new bases) = 0"
    by (simp_all add: Runtime_new_def Let_def MAX_THREADS_def)
qed

lemma rt_inv_new [inv_intros]:
  assumes "bases_ok bases"
  shows "rt_inv (Runtime_new bases)"
proof -
  have b: "bases i + DEFAULT_STACK_SIZE < 2 ^ 64" if "i < MAX_THREADS" for i
    using assms that by (simp add: bases_ok_def)
  have "thread_id (threads (Runtime_new bases) ! i) = i \<and>
      (state (threads (Runtime_new bases) ! i) = Running \<longleftrightarrow> i = current (Runtime_new bases)) \<and>
      stack_ok (threads (Runtime_new bases) ! i) \<and> fresh_ok (threads (Runtime_new bases) ! i)"
    if "i < MAX_THREADS" for i
    using that b [OF that] unfolding MAX_THREADS_range Runtime_new_threads
    by (elim disjE) (simp_all add: Thread_new_def stack_ok_def fresh_ok_def)
  moreover have "length (threads (Runtime_new bases)) = MAX_THREADS"
    "current (Runtime_new bases) < MAX_THREADS"
    by (simp_all add: Runtime_new_threads MAX_THREADS_def)
  ultimately show ?thesis by (simp add: rt_inv_def)
qed

section \<open>What t_yield does\<close>

lemma length_set_state [simp]: "length (set_state i s ts) = length ts"
  by (simp add: set_state_def)

lemma length_switch_states [simp]: "length (switch_states cur pos ts) = length ts"
  by (simp add: switch_states_def)

lemma nth_set_state:
  "j < length ts \<Longrightarrow> set_state i s ts ! j = (if j = i then (ts ! i)\<lparr>state := s\<rparr> else ts ! j)"
  by (cases "i < length ts") (auto simp: set_state_def nth_list_update)

lemma nth_switch_states:
  assumes "j < length ts" and "cur < length ts" and "cur \<noteq> pos" and "state (ts ! cur) = Running"
  shows "switch_states cur pos ts ! j =
    (if j = pos then (ts ! j)\<lparr>state := Running\<rparr>
     else if j = cur then (ts ! j)\<lparr>state := Ready\<rparr> else ts ! j)"
  using assms by (simp add: switch_states_def nth_set_state)

lemma t_yield_cases:
  assumes "rt_inv rt"
  shows "t_yield sw c rt =
    (case round_robin (threads rt) (current rt) of
       None \<Rightarrow> Some (Inr NothingReady)
     | Some pos \<Rightarrow>
         let ts = switch_states (current rt) pos (threads rt);
             (saved, c') = sw (ctx (ts ! current rt)) (ctx (ts ! pos)) c
         in Some (Inr (SwitchedTo
              (rt\<lparr>threads := ts[current rt := (ts ! current rt)\<lparr>ctx := saved\<rparr>],
                  current := pos\<rparr>) c')))"
  using find_ready_round_robin [OF rt_inv_current [OF assms]]
  by (simp add: t_yield_def Let_def split: option.splits)

text \<open>
  A yield that finds a ready thread: which thread runs next, and how every thread changes.
\<close>

lemma t_yield_SwitchedTo:
  assumes inv: "rt_inv rt" and y: "t_yield sw c rt = Some (Inr (SwitchedTo rt' c'))"
  obtains pos where "round_robin (threads rt) (current rt) = Some pos" and "current rt' = pos"
    and "pos < length (threads rt)" and "pos \<noteq> current rt"
    and "state (threads rt ! pos) = Ready" and "length (threads rt') = length (threads rt)"
    and "\<And>j. j < length (threads rt) \<Longrightarrow>
           thread_id (threads rt' ! j) = thread_id (threads rt ! j) \<and>
           stack (threads rt' ! j) = stack (threads rt ! j) \<and>
           state (threads rt' ! j) =
             (if j = pos then Running else if j = current rt then Ready else state (threads rt ! j))"
proof -
  let ?ts = "threads rt" and ?cur = "current rt"
  from y obtain pos where pos: "round_robin ?ts ?cur = Some pos"
    by (auto simp: t_yield_cases [OF inv] split: option.splits)
  let ?ts1 = "switch_states ?cur pos ?ts"
  obtain saved c1 where sw: "sw (ctx (?ts1 ! ?cur)) (ctx (?ts1 ! pos)) c = (saved, c1)"
    by (cases "sw (ctx (?ts1 ! ?cur)) (ctx (?ts1 ! pos)) c")
  with y pos have rt': "rt' = rt\<lparr>threads := ?ts1[?cur := (?ts1 ! ?cur)\<lparr>ctx := saved\<rparr>], current := pos\<rparr>"
    by (simp add: t_yield_cases [OF inv] Let_def)
  note p = round_robin_Some [OF pos]
  note cur = rt_inv_current [OF inv]
  have run: "state (?ts ! ?cur) = Running" using rt_inv_thread(2) [OF inv cur] by simp
  with p(2) have ne: "pos \<noteq> ?cur" by auto
  show thesis
  proof (rule that [OF pos])
    show "thread_id (threads rt' ! j) = thread_id (?ts ! j) \<and>
        stack (threads rt' ! j) = stack (?ts ! j) \<and>
        state (threads rt' ! j) =
          (if j = pos then Running else if j = ?cur then Ready else state (?ts ! j))"
      if "j < length ?ts" for j
      using that cur ne run by (simp add: rt' nth_list_update nth_switch_states)
  qed (use p ne in \<open>simp_all add: rt'\<close>)
qed

lemma t_yield_inv [inv_intros]:
  assumes inv: "rt_inv rt" and y: "t_yield sw c rt = Some (Inr (SwitchedTo rt' c'))"
  shows "rt_inv rt'"
proof -
  have len: "length (threads rt) = MAX_THREADS" using inv by (simp add: rt_inv_def)
  from t_yield_SwitchedTo [OF inv y] obtain pos where pos: "current rt' = pos"
      "pos < length (threads rt)" "pos \<noteq> current rt" "state (threads rt ! pos) = Ready"
      "length (threads rt') = length (threads rt)"
    and th: "\<And>j. j < length (threads rt) \<Longrightarrow>
           thread_id (threads rt' ! j) = thread_id (threads rt ! j) \<and>
           stack (threads rt' ! j) = stack (threads rt ! j) \<and>
           state (threads rt' ! j) =
             (if j = pos then Running else if j = current rt then Ready else state (threads rt ! j))"
    by blast
  have "thread_id (threads rt' ! j) = j \<and> (state (threads rt' ! j) = Running \<longleftrightarrow> j = current rt') \<and>
      stack_ok (threads rt' ! j) \<and> fresh_ok (threads rt' ! j)" if "j < MAX_THREADS" for j
    using that th [of j] rt_inv_thread [OF inv, of j] pos
    by (auto simp: len stack_ok_def fresh_ok_def)
  with pos len show ?thesis by (simp add: rt_inv_def)
qed

section \<open>What spawn does\<close>

lemma find_available_Some:
  "find_available ts = Some i \<longleftrightarrow>
     i < length ts \<and> state (ts ! i) = Available \<and> (\<forall>j < i. state (ts ! j) \<noteq> Available)"
proof (induction ts arbitrary: i)
  case Nil
  then show ?case by simp
next
  case (Cons t ts)
  then show ?case by (cases i) (auto simp: All_less_Suc2)
qed

lemma find_available_None:
  "find_available ts = None \<longleftrightarrow> (\<forall>t \<in> set ts. state t \<noteq> Available)"
  by (induction ts) auto

lemma stack_top_eq: "stack_top m = align_down16 (blk_end m)"
  by (simp add: stack_top_def sb_aligned_def stack_bottom_def blk_end_def)

lemma stack_top_bounds:
  assumes "stack_ok t"
  shows "stack_top (stack t) \<le> blk_end (stack t)"
    and "blk_base (stack t) + 2097100 < stack_top (stack t)"
    and "stack_top (stack t) < 2 ^ 64" and "stack_top (stack t) mod 16 = 0"
  using assms align_down16_bounds [of "blk_end (stack t)"]
  by (auto simp: stack_ok_def stack_top_eq blk_end_def DEFAULT_STACK_SIZE_def)

lemma stack_top_slots:
  assumes "stack_ok t"
  shows "ptr_offset (stack_top (stack t)) (-16) = stack_top (stack t) - 16"
    and "ptr_offset (stack_top (stack t)) (-32) = stack_top (stack t) - 32"
  using stack_top_bounds(2) [OF assms] ptr_offset_back [of 32 "stack_top (stack t)"]
  by (simp_all add: ptr_offset_back16)

text \<open>The two writes succeed, and leave every other word of the stack as it was.\<close>

lemma spawn_writes:
  assumes "stack_ok t"
  obtains stk1 stk2 where "write_u64 (stack t) (stack_top (stack t) - 16) guard = Inr stk1"
    and "write_u64 stk1 (stack_top (stack t) - 32) f = Inr stk2"
    and "blk_base stk2 = blk_base (stack t)"
    and "length (blk_data stk2) = length (blk_data (stack t))"
    and "read_u64 stk2 (stack_top (stack t) - 32) = Inr f"
    and "read_u64 stk2 (stack_top (stack t) - 24) = read_u64 (stack t) (stack_top (stack t) - 24)"
    and "read_u64 stk2 (stack_top (stack t) - 16) = Inr guard"
proof -
  let ?top = "stack_top (stack t)"
  note b = stack_top_bounds [OF assms]
  obtain stk1 where w1: "write_u64 (stack t) (?top - 16) guard = Inr stk1"
    using write_u64_ok [of "stack t" "?top - 16" guard] b(1,2) by fastforce
  note s1 = write_u64_base [OF w1]
  obtain stk2 where w2: "write_u64 stk1 (?top - 32) f = Inr stk2"
    using write_u64_ok [of stk1 "?top - 32" f] b(1,2) s1 unfolding blk_end_def by fastforce
  note s2 = write_u64_base [OF w2]
  have "read_u64 stk2 (?top - 24) = read_u64 (stack t) (?top - 24)"
    using b(2) by (simp add: read_write_u64_other [OF w2] read_write_u64_other [OF w1])
  moreover have "read_u64 stk2 (?top - 16) = Inr guard"
  proof -
    have "?top - 32 + 8 \<le> ?top - 16" using b(2) by linarith
    then show ?thesis
      using read_write_u64 [OF w1] read_write_u64_other [OF w2, of "?top - 16"] by metis
  qed
  ultimately show thesis
    using that [OF w1 w2] s1 s2 read_write_u64 [OF w2] by simp
qed

lemma spawn_Inr:
  assumes ok: "stack_ok (threads rt ! i)" and i: "find_available (threads rt) = Some i"
  obtains stk2 where "spawn guard f rt =
      Inr (rt\<lparr>threads := (threads rt)[i := (threads rt ! i)\<lparr>stack := stk2,
        ctx := (ctx (threads rt ! i))\<lparr>rsp := of_nat (stack_top (stack (threads rt ! i)) - 32)\<rparr>,
        state := Ready\<rparr>]\<rparr>)"
    and "blk_base stk2 = blk_base (stack (threads rt ! i))"
    and "length (blk_data stk2) = length (blk_data (stack (threads rt ! i)))"
    and "read_u64 stk2 (stack_top (stack (threads rt ! i)) - 32) = Inr f"
    and "read_u64 stk2 (stack_top (stack (threads rt ! i)) - 24) =
           read_u64 (stack (threads rt ! i)) (stack_top (stack (threads rt ! i)) - 24)"
    and "read_u64 stk2 (stack_top (stack (threads rt ! i)) - 16) = Inr guard"
proof -
  from ok i show thesis
    by (rule_tac spawn_writes [OF ok, of guard f])
      (rule that, simp_all add: spawn_def Let_def stack_top_slots)
qed

lemma spawn_Inl:
  assumes "find_available (threads rt) = None"
  shows "spawn guard f rt = Inl (Panic ''no available thread.'')"
  using assms by (simp add: spawn_def)

lemma spawn_inv [inv_intros]:
  assumes inv: "rt_inv rt" and s: "spawn guard f rt = Inr rt'"
  shows "rt_inv rt'"
proof (cases "find_available (threads rt)")
  case None
  with s spawn_Inl [OF None] show ?thesis by simp
next
  case (Some i)
  then have i: "i < length (threads rt)" "state (threads rt ! i) = Available"
    by (simp_all add: find_available_Some)
  note ti = rt_inv_thread [OF inv i(1)]
  from spawn_Inr [OF ti(3) Some, of guard f] obtain stk2 where
    rt': "rt' = rt\<lparr>threads := (threads rt)[i := (threads rt ! i)\<lparr>stack := stk2,
        ctx := (ctx (threads rt ! i))\<lparr>rsp := of_nat (stack_top (stack (threads rt ! i)) - 32)\<rparr>,
        state := Ready\<rparr>]\<rparr>"
    and stk: "blk_base stk2 = blk_base (stack (threads rt ! i))"
      "length (blk_data stk2) = length (blk_data (stack (threads rt ! i)))"
    using s by (metis sum.inject(2))
  have "i \<noteq> current rt" using ti(2) i(2) by auto
  with inv i ti stk show ?thesis
    by (auto simp: rt_inv_def rt' nth_list_update stack_ok_def fresh_ok_def blk_end_def)
qed


section \<open>Runs of the runtime\<close>

text \<open>
  The runtime's operations as steps, with the number of threads spawned so far. Between two
  of them the threads run on their own stacks; they have no other access to the runtime.
\<close>

inductive rt_step ::
  "(full_context \<Rightarrow> full_context \<Rightarrow> 'c \<Rightarrow> full_context \<times> 'c) \<Rightarrow> u64 \<Rightarrow>
     nat \<times> Runtime \<Rightarrow> nat \<times> Runtime \<Rightarrow> bool"
  for sw guard where
  step_spawn: "spawn guard f rt = Inr rt' \<Longrightarrow> rt_step sw guard (n, rt) (Suc n, rt')"
| step_yield: "t_yield sw c rt = Some (Inr (SwitchedTo rt' c')) \<Longrightarrow>
    rt_step sw guard (n, rt) (n, rt')"

inductive_simps rt_step_simps: "rt_step sw guard (n, rt) (m, rt')"

definition slots :: "Runtime \<Rightarrow> nat" where
  "slots rt = length (filter (\<lambda>t. state t = Available) (threads rt))"

definition run_inv :: "nat \<times> Runtime \<Rightarrow> bool" where
  "run_inv = (\<lambda>(n, rt). rt_inv rt \<and> n + slots rt = MAX_THREADS - 1)"

lemma slots_new: "slots (Runtime_new bases) = MAX_THREADS - 1"
  by (simp add: slots_def Runtime_new_threads Thread_new_def MAX_THREADS_def)

lemma slots_card: "slots rt = card {i. i < length (threads rt) \<and> state (threads rt ! i) = Available}"
  by (simp add: slots_def length_filter_conv_card)

lemma slots_spawn:
  assumes inv: "rt_inv rt" and s: "spawn guard f rt = Inr rt'"
  shows "slots rt = Suc (slots rt')"
proof -
  obtain i where i: "find_available (threads rt) = Some i"
    using s by (cases "find_available (threads rt)") (auto simp: spawn_Inl)
  then have il: "i < length (threads rt)" and ia: "state (threads rt ! i) = Available"
    by (simp_all add: find_available_Some)
  obtain t' where t': "threads rt' = (threads rt)[i := t']" "state t' = Ready"
    by (rule spawn_Inr [OF rt_inv_thread(3) [OF inv il] i, of guard f]) (use s in simp)
  let ?A = "{i. i < length (threads rt) \<and> state (threads rt ! i) = Available}"
  have "{j. j < length (threads rt') \<and> state (threads rt' ! j) = Available} = ?A - {i}"
    using il t' by (auto simp: nth_list_update split: if_splits)
  moreover have "i \<in> ?A" using il ia by simp
  moreover have "finite ?A" by simp
  ultimately show ?thesis unfolding slots_card by (simp only: card_Suc_Diff1)
qed

lemma slots_yield:
  assumes inv: "rt_inv rt" and y: "t_yield sw c rt = Some (Inr (SwitchedTo rt' c'))"
  shows "slots rt' = slots rt"
proof -
  from t_yield_SwitchedTo [OF inv y] obtain pos where "pos < length (threads rt)"
      "state (threads rt ! pos) = Ready" "length (threads rt') = length (threads rt)"
    and th: "\<And>j. j < length (threads rt) \<Longrightarrow> state (threads rt' ! j) =
        (if j = pos then Running else if j = current rt then Ready else state (threads rt ! j))"
    by metis
  moreover have "state (threads rt ! current rt) = Running"
    using rt_inv_thread(2) [OF inv rt_inv_current [OF inv]] by simp
  ultimately have "{j. j < length (threads rt') \<and> state (threads rt' ! j) = Available} =
      {j. j < length (threads rt) \<and> state (threads rt ! j) = Available}"
    by (auto split: if_splits)
  then show ?thesis by (simp add: slots_card)
qed

interpretation gt: step_invariant "(0, Runtime_new bases)" "rt_step sw guard"
  "\<lambda>s. bases_ok bases \<longrightarrow> run_inv s" for bases sw guard
proof unfold_locales
  show "bases_ok bases \<longrightarrow> run_inv (0, Runtime_new bases)"
    by (simp add: run_inv_def rt_inv_new slots_new)
  show "bases_ok bases \<longrightarrow> run_inv t"
    if "bases_ok bases \<longrightarrow> run_inv s" and "rt_step sw guard s t" for s t
    using that(2,1)
    by (cases rule: rt_step.cases)
      (auto simp: run_inv_def slots_yield dest: spawn_inv t_yield_inv slots_spawn)
qed

lemmas gt_run = gt.inv_reach [rule_format]

lemma slots_pos:
  assumes "0 < slots rt"
  obtains i where "find_available (threads rt) = Some i"
  using assms by (cases "find_available (threads rt)") (auto simp: slots_def find_available_None)

text \<open>The threads that get the CPU over the next \<open>k\<close> yields.\<close>

fun yield_trace ::
  "(full_context \<Rightarrow> full_context \<Rightarrow> 'c \<Rightarrow> full_context \<times> 'c) \<Rightarrow> nat \<Rightarrow> 'c \<Rightarrow> Runtime \<Rightarrow> nat list" where
  "yield_trace sw 0 c rt = []"
| "yield_trace sw (Suc k) c rt =
     (case t_yield sw c rt of
        Some (Inr (SwitchedTo rt' c')) \<Rightarrow> current rt' # yield_trace sw k c' rt'
      | _ \<Rightarrow> [])"

lemma t_yield_progress:
  assumes inv: "rt_inv rt" and j: "j < length (threads rt)" "state (threads rt ! j) = Ready"
  obtains rt' c' where "t_yield sw c rt = Some (Inr (SwitchedTo rt' c'))" and "rt_inv rt'"
    and "length (threads rt') = length (threads rt)"
    and "current rt' = j \<or>
      state (threads rt' ! j) = Ready \<and>
      turns (length (threads rt)) (current rt') j < turns (length (threads rt)) (current rt) j"
proof -
  note cur = rt_inv_current [OF inv]
  obtain pos where pos: "round_robin (threads rt) (current rt) = Some pos"
    using round_robin_None [OF cur] j by blast
  let ?ts = "switch_states (current rt) pos (threads rt)"
  obtain saved c1 where "sw (ctx (?ts ! current rt)) (ctx (?ts ! pos)) c = (saved, c1)"
    by (rule prod.exhaust)
  with pos obtain rt' c' where y: "t_yield sw c rt = Some (Inr (SwitchedTo rt' c'))"
    by (simp add: t_yield_cases [OF inv] Let_def)
  from t_yield_SwitchedTo [OF inv y] pos have p: "current rt' = pos" "pos < length (threads rt)"
      "pos \<noteq> current rt" "length (threads rt') = length (threads rt)"
    and th: "\<And>j. j < length (threads rt) \<Longrightarrow> state (threads rt' ! j) =
        (if j = pos then Running else if j = current rt then Ready else state (threads rt ! j))"
    by (metis option.inject)+
  show thesis
  proof (rule that [OF y t_yield_inv [OF inv y] p(4)])
    show "current rt' = j \<or> state (threads rt' ! j) = Ready \<and>
        turns (length (threads rt)) (current rt') j < turns (length (threads rt)) (current rt) j"
      using th [OF j(1)] j p(1)
        turns_advance [OF cur p(2) j(1) round_robin_first [OF cur pos j] p(3)] by auto
  qed
qed

lemma yield_trace_reaches:
  assumes "rt_inv rt" and "j < length (threads rt)" and "state (threads rt ! j) = Ready"
    and "turns (length (threads rt)) (current rt) j \<le> k"
  shows "j \<in> set (yield_trace sw k c rt)"
  using assms
proof (induction k arbitrary: c rt)
  case 0
  have "j \<noteq> current rt"
    using rt_inv_thread(2) [OF 0(1,2)] 0(3) by auto
  moreover have "j = current rt"
    using 0(4) turns_round [OF rt_inv_current [OF 0(1)] 0(2)] rt_inv_current [OF 0(1)] by simp
  ultimately show ?case by contradiction
next
  case (Suc k)
  obtain rt' c' where
    y: "t_yield sw c rt = Some (Inr (SwitchedTo rt' c'))" "rt_inv rt'"
      "length (threads rt') = length (threads rt)"
    and alt: "current rt' = j \<or> state (threads rt' ! j) = Ready \<and>
      turns (length (threads rt)) (current rt') j < turns (length (threads rt)) (current rt) j"
    by (rule t_yield_progress [OF Suc.prems(1-3), where sw = sw and c = c]) (rule that)
  show ?case
  proof (cases "current rt' = j")
    case True
    with y show ?thesis by simp
  next
    case False
    with alt have "state (threads rt' ! j) = Ready"
      "turns (length (threads rt')) (current rt') j \<le> k" using Suc.prems(4) y(3) by auto
    with Suc.IH [OF y(2)] Suc.prems(2) y(3) have "j \<in> set (yield_trace sw k c' rt')" by simp
    with y show ?thesis by simp
  qed
qed

section \<open>run\<close>

text \<open>
  What the threads may do while they have the CPU: nothing in the repository makes a thread
  \<open>Available\<close> again, and control comes back in a consistent state.
\<close>

definition keeps_threads :: "('c \<Rightarrow> Runtime \<Rightarrow> ('c \<times> Runtime) option) \<Rightarrow> bool" where
  "keeps_threads others \<longleftrightarrow>
     (\<forall>c rt c' rt'. rt_inv rt \<and> others c rt = Some (c', rt') \<longrightarrow> rt_inv rt' \<and> slots rt' = slots rt)"

definition spawned :: "Runtime \<Rightarrow> bool" where
  "spawned rt \<longleftrightarrow> slots rt < MAX_THREADS - 1"

lemma spawned_ready:
  assumes inv: "rt_inv rt" and s: "spawned rt"
  obtains j where "j < length (threads rt)" and "state (threads rt ! j) = Ready"
proof -
  have "\<exists>j < length (threads rt). state (threads rt ! j) = Ready"
  proof (rule ccontr)
    assume "\<not> ?thesis"
    then have "state (threads rt ! j) = Available" if "j < length (threads rt)" "j \<noteq> current rt" for j
      using rt_inv_thread(2) [OF inv that(1)] that by (metis State.exhaust)
    then have "{0..<length (threads rt)} - {current rt} \<subseteq>
        {i. i < length (threads rt) \<and> state (threads rt ! i) = Available}" by auto
    then have "card ({0..<length (threads rt)} - {current rt}) \<le> slots rt"
      unfolding slots_card by (intro card_mono) auto
    then show False
      using s inv by (simp add: spawned_def rt_inv_def)
  qed
  then show thesis using that by blast
qed

lemma not_spawned_none_ready:
  assumes inv: "rt_inv rt" and s: "\<not> spawned rt" and j: "j < length (threads rt)"
  shows "state (threads rt ! j) \<noteq> Ready"
proof
  let ?A = "{i. i < length (threads rt) \<and> state (threads rt ! i) = Available}"
  assume r: "state (threads rt ! j) = Ready"
  have cur: "state (threads rt ! current rt) = Running"
    using rt_inv_thread(2) [OF inv rt_inv_current [OF inv]] by simp
  with r have "j \<noteq> current rt" by auto
  have "?A \<subseteq> {0..<length (threads rt)} - {current rt, j}" using cur r by auto
  then have "card ?A \<le> card ({0..<length (threads rt)} - {current rt, j})"
    by (intro card_mono) auto
  also have "\<dots> = length (threads rt) - 2"
    using \<open>j \<noteq> current rt\<close> rt_inv_current [OF inv] j by (simp add: card_Diff_subset)
  finally show False
    using s inv by (simp add: spawned_def rt_inv_def slots_card MAX_THREADS_def)
qed

lemma run_spawned_diverges:
  assumes keep: "keeps_threads others"
    and ret: "run sw others c rt = Some r" and "rt_inv rt" and "spawned rt"
  shows False
proof -
  have "keeps_threads others \<longrightarrow> rt_inv rt \<and> spawned rt \<longrightarrow> False"
  proof (rule run.raw_induct [where P = "\<lambda>sw others c rt r. keeps_threads others \<longrightarrow>
      rt_inv rt \<and> spawned rt \<longrightarrow> False", OF _ ret], intro impI)
    fix g sw' oth c' rt' r'
    assume IH: "\<And>sw others c rt r. g sw others c rt = Some r \<Longrightarrow>
        keeps_threads others \<longrightarrow> rt_inv rt \<and> spawned rt \<longrightarrow> False"
      and k: "keeps_threads oth" and prem: "rt_inv rt' \<and> spawned rt'"
      and eq: "(case t_yield sw' c' rt' of None \<Rightarrow> None | Some (Inl e) \<Rightarrow> Some (Inl e)
        | Some (Inr NothingReady) \<Rightarrow> Some (Inr (0, rt'))
        | Some (Inr (SwitchedTo rt'' c'')) \<Rightarrow>
            (case oth c'' rt'' of None \<Rightarrow> None
             | Some (c3, rt3) \<Rightarrow> if t_yield_resumed rt3 then g sw' oth c3 rt3
                else Some (Inr (0, rt3)))) = Some r'"
    from prem obtain j where "j < length (threads rt')" "state (threads rt' ! j) = Ready"
      using spawned_ready by blast
    with prem obtain rt2 c2 where y: "t_yield sw' c' rt' = Some (Inr (SwitchedTo rt2 c2))" "rt_inv rt2"
      using t_yield_progress by metis
    have "slots rt2 = slots rt'" by (rule slots_yield [OF _ y(1)]) (use prem in simp)
    from eq y obtain c3 rt3 where o: "oth c2 rt2 = Some (c3, rt3)" by (auto split: option.splits)
    with k y(2) have rt3: "rt_inv rt3" "slots rt3 = slots rt2" by (auto simp: keeps_threads_def)
    then have "t_yield_resumed rt3" by (auto simp: t_yield_resumed_def rt_inv_def MAX_THREADS_def)
    with eq y o have "g sw' oth c3 rt3 = Some r'" by simp
    from IH [OF this] k prem rt3 \<open>slots rt2 = slots rt'\<close> show False by (simp add: spawned_def)
  qed
  with assms show False by blast
qed

lemma run_idle_exits:
  assumes inv: "rt_inv rt" and "\<not> spawned rt"
  shows "run sw others c rt = Some (Inr (0, rt))"
proof -
  have "round_robin (threads rt) (current rt) = None"
    using round_robin_None [OF rt_inv_current [OF inv]] not_spawned_none_ready [OF inv assms(2)]
    by blast
  then show ?thesis by (subst run.simps) (simp add: t_yield_cases [OF inv])
qed


lemma main_setup:
  assumes "bases_ok bases"
  obtains rt where "gt_main_setup bases guard f1 f2 = Inr rt" and "rt_inv rt" and "spawned rt"
proof -
  let ?rt0 = "Runtime_new bases"
  note inv0 = rt_inv_new [OF assms]
  obtain i0 where i0: "find_available (threads ?rt0) = Some i0"
    by (rule slots_pos [of ?rt0]) (simp_all add: slots_new MAX_THREADS_def)
  then have l0: "i0 < length (threads ?rt0)" by (simp add: find_available_Some)
  obtain rt1 where s1: "spawn guard f1 ?rt0 = Inr rt1"
    by (rule spawn_Inr [OF rt_inv_thread(3) [OF inv0 l0] i0, of guard f1]) blast
  note inv1 = spawn_inv [OF inv0 s1]
  have sl1: "slots rt1 = 2"
    using slots_spawn [OF inv0 s1] by (simp add: slots_new MAX_THREADS_def)
  obtain i1 where i1: "find_available (threads rt1) = Some i1"
    by (rule slots_pos [of rt1]) (simp_all add: sl1)
  then have l1: "i1 < length (threads rt1)" by (simp add: find_available_Some)
  obtain rt2 where s2: "spawn guard f2 rt1 = Inr rt2"
    by (rule spawn_Inr [OF rt_inv_thread(3) [OF inv1 l1] i1, of guard f2]) blast
  show thesis
  proof (rule that)
    show "gt_main_setup bases guard f1 f2 = Inr rt2" by (simp add: gt_main_setup_def s1 s2)
    show "rt_inv rt2" by (rule spawn_inv [OF inv1 s2])
    show "spawned rt2"
      using slots_spawn [OF inv1 s2] sl1 by (simp add: spawned_def MAX_THREADS_def)
  qed
qed

lemma keeps_threads_return: "keeps_threads (\<lambda>c rt. Some (c, rt))"
  by (simp add: keeps_threads_def)

text \<open>Four stacks of two megabytes at four-megabyte steps, for concrete instances.\<close>

definition sample_bases :: "nat \<Rightarrow> nat" where
  "sample_bases i = 0x400000 * (i + 1)"

lemma sample_bases_ok: "bases_ok sample_bases"
  by (auto simp: bases_ok_def sample_bases_def MAX_THREADS_def DEFAULT_STACK_SIZE_def)

lemma fresh_slot_zero:
  assumes "stack_ok t" and "fresh_ok t" and "state t = Available"
  shows "read_u64 (stack t) (stack_top (stack t) - 24) = Inr 0"
proof (rule read_u64_zero)
  note b = stack_top_bounds [OF assms(1)]
  show "blk_base (stack t) \<le> stack_top (stack t) - 24" using b(2) by linarith
  show "stack_top (stack t) - 24 + 8 \<le> blk_end (stack t)" using b(1,2) by linarith
  show "blk_data (stack t) ! k = 0" if "k < stack_top (stack t) - 24 - blk_base (stack t) + 8" for k
  proof -
    have "k < DEFAULT_STACK_SIZE"
      using that b(1,2) assms(1) by (simp add: stack_ok_def blk_end_def)
    then show ?thesis using assms(2,3) by (simp add: fresh_ok_def)
  qed
qed

text \<open>
  A thread whose slots hold the function and, above it, zero: the switch enters the function,
  and its return goes to address 0.
\<close>

lemma enter_and_return_null:
  assumes "top' < 2 ^ 64" and "32 \<le> top'"
    and "read_u64 stk (top' - 32) = Inr f" and "read_u64 stk (top' - 24) = Inr 0"
  shows "gt_switch stk (t\<lparr>rsp := of_nat (top' - 32)\<rparr>) c =
      Inr (c\<lparr>rip := f, rsp_reg := of_nat (top' - 32) + 8\<rparr>)"
    and "unat (of_nat (top' - 32) + 8 :: u64) = top' - 24"
    and "(\<And>a. top' - 24 \<le> a \<Longrightarrow> load8 stk' a = load8 stk a) \<Longrightarrow>
      x86_ret stk' (c\<lparr>rip := f, rsp_reg := of_nat (top' - 32) + 8\<rparr>) =
      Inr (c\<lparr>rip := 0, rsp_reg := of_nat (top' - 32) + 8 + 8\<rparr>)"
proof -
  have r32: "unat (of_nat (top' - 32) :: u64) = top' - 32"
    using assms(1) by (simp add: unat_of_nat)
  show r24: "unat (of_nat (top' - 32) + 8 :: u64) = top' - 24"
    using unat_add8 [OF r32] assms(1,2) by simp
  show "gt_switch stk (t\<lparr>rsp := of_nat (top' - 32)\<rparr>) c =
      Inr (c\<lparr>rip := f, rsp_reg := of_nat (top' - 32) + 8\<rparr>)"
    using gt_switch_read [of stk "t\<lparr>rsp := of_nat (top' - 32)\<rparr>" f c] assms(3) by (simp add: r32)
  assume same: "\<And>a. top' - 24 \<le> a \<Longrightarrow> load8 stk' a = load8 stk a"
  have "load_bytes load8 stk' (top' - 24) 8 = load_bytes load8 stk (top' - 24) 8"
    by (rule blk.load_bytes_cong) (simp add: same)
  then have "read_u64 stk' (top' - 24) = Inr 0" using assms(4) by (simp add: read_u64_def)
  then show "x86_ret stk' (c\<lparr>rip := f, rsp_reg := of_nat (top' - 32) + 8\<rparr>) =
      Inr (c\<lparr>rip := 0, rsp_reg := of_nat (top' - 32) + 8 + 8\<rparr>)" by (simp add: x86_ret_def r24)
qed

section \<open>Properties\<close>

text \<open>
  C16: The search loop of \<open>t_yield\<close>, entered at a valid current thread, always ends, never
  indexes out of bounds, and finds the first ready thread in round-robin order starting at
  the current thread, or nothing when there is none.
\<close>

theorem find_ready_correct:
  assumes "cur < length ts"
  shows "find_ready ts cur cur =
    Some (Inr (find (\<lambda>i. state (ts ! i) = Ready)
      (map (\<lambda>k. (cur + k) mod length ts) [0..<length ts])))"
  using find_ready_round_robin [OF assms] by (simp only: round_robin_def)

lemma find_ready_correct_witness:
  "find_ready (threads (Runtime_new sample_bases)) 0 0 = Some (Inr None)"
proof -
  have "0 < length (threads (Runtime_new sample_bases))" by (simp add: Runtime_new_threads)
  from find_ready_correct [OF this] show ?thesis
    by (simp add: Runtime_new_threads Thread_new_def upt_rec)
qed

text \<open>
  C9: In every state the runtime can reach by spawning and yielding, whatever \<open>switch\<close>
  does, the table keeps its \<open>MAX_THREADS\<close> threads with their ids, exactly one thread is
  running, and it is the one \<open>current\<close> names.
\<close>

theorem one_thread_running:
  assumes "bases_ok bases"
    and "reach (0, Runtime_new bases) (rt_step sw guard) (n, rt)"
  shows "length (threads rt) = MAX_THREADS \<and> current rt < MAX_THREADS \<and>
    (\<forall>i. i < MAX_THREADS \<longrightarrow> thread_id (threads rt ! i) = i \<and>
       (state (threads rt ! i) = Running \<longleftrightarrow> i = current rt))"
  using gt_run [OF assms(2,1)] by (auto simp: run_inv_def rt_inv_def)

lemma one_thread_running_witness:
  "state (threads (Runtime_new sample_bases) ! 2) = Running \<longleftrightarrow>
     2 = current (Runtime_new sample_bases)"
  using one_thread_running [where sw = "\<lambda>old new c. (old, c :: nat)" and guard = 0,
      OF sample_bases_ok reach_start]
  by (simp add: MAX_THREADS_def)

text \<open>
  C22: No starvation among cooperating threads: a thread that is ready gets the CPU within
  the next \<open>MAX_THREADS - 1\<close> yields, from every reachable state.
\<close>

theorem ready_thread_runs:
  assumes "bases_ok bases"
    and "reach (0, Runtime_new bases) (rt_step sw guard) (n, rt)"
    and "j < MAX_THREADS" and "state (threads rt ! j) = Ready"
  shows "j \<in> set (yield_trace sw (MAX_THREADS - 1) c rt)"
proof -
  have inv: "rt_inv rt" using gt_run [OF assms(2,1)] by (simp add: run_inv_def)
  then have len: "length (threads rt) = MAX_THREADS" by (simp add: rt_inv_def)
  have "turns MAX_THREADS (current rt) j < MAX_THREADS"
    using rt_inv_current [OF inv] len by (intro turns_less) simp
  then show ?thesis
    using assms(3,4) len by (intro yield_trace_reaches [OF inv]) simp_all
qed

lemma ready_thread_runs_witness:
  "\<exists>rt. spawn 7 9 (Runtime_new sample_bases) = Inr rt \<and>
     1 \<in> set (yield_trace (\<lambda>old new c. (old, c :: nat)) (MAX_THREADS - 1) 0 rt)"
proof -
  let ?rt0 = "Runtime_new sample_bases"
  note inv0 = rt_inv_new [OF sample_bases_ok]
  have i: "find_available (threads ?rt0) = Some 1"
    by (simp add: Runtime_new_threads Thread_new_def)
  have l: "1 < length (threads ?rt0)" by (simp add: Runtime_new_threads)
  obtain rt where s: "spawn 7 9 ?rt0 = Inr rt" and r: "state (threads rt ! 1) = Ready"
    by (rule spawn_Inr [OF rt_inv_thread(3) [OF inv0 l] i, of 7 9]) (use l in simp)
  have st: "reach (0, ?rt0) (rt_step (\<lambda>old new c. (old, c :: nat)) 7) (Suc 0, rt)"
    by (rule reach_step [OF reach_start]) (rule step_spawn [OF s])
  have m: "1 < MAX_THREADS" by (simp add: MAX_THREADS_def)
  from ready_thread_runs [OF sample_bases_ok st m r] s show ?thesis by blast
qed

text \<open>
  C23: The runtime has room for \<open>MAX_THREADS - 1\<close> spawned threads over its whole life: in a
  reachable state with \<open>n\<close> threads spawned so far, \<open>spawn\<close> succeeds exactly when
  \<open>n < MAX_THREADS - 1\<close>, and otherwise panics with \<open>no available thread.\<close>; a finished
  thread's slot is never available again.
\<close>

theorem spawn_capacity:
  assumes "bases_ok bases"
    and "reach (0, Runtime_new bases) (rt_step sw guard) (n, rt)"
  shows "n \<le> MAX_THREADS - 1 \<and>
    (n < MAX_THREADS - 1 \<longleftrightarrow> (\<exists>rt'. spawn guard f rt = Inr rt')) \<and>
    (n = MAX_THREADS - 1 \<longleftrightarrow> spawn guard f rt = Inl (Panic ''no available thread.''))"
proof -
  have inv: "rt_inv rt" and n: "n + slots rt = MAX_THREADS - 1"
    using gt_run [OF assms(2,1)] by (simp_all add: run_inv_def)
  show ?thesis
  proof (cases "find_available (threads rt)")
    case None
    then have "slots rt = 0"
      by (simp add: find_available_None slots_def filter_empty_conv)
    with n spawn_Inl [OF None] show ?thesis by simp
  next
    case (Some i)
    then have il: "i < length (threads rt)" by (simp add: find_available_Some)
    obtain rt' where s: "spawn guard f rt = Inr rt'"
      by (rule spawn_Inr [OF rt_inv_thread(3) [OF inv il] Some, of guard f]) blast
    with slots_spawn [OF inv s] n show ?thesis by simp
  qed
qed

lemma spawn_capacity_witness:
  "\<exists>rt'. spawn 7 9 (Runtime_new sample_bases) = Inr rt'"
  using spawn_capacity [where sw = "\<lambda>old new c. (old, c :: nat)" and guard = 7 and f = 9,
      OF sample_bases_ok reach_start]
  by (simp add: MAX_THREADS_def)

text \<open>
  What \<open>spawn\<close> sets up. On a reachable runtime it takes the first available thread,
  leaves every other thread and \<open>current\<close> alone, marks the thread ready, and puts the
  function's address at the stack pointer it stores and the address of \<open>guard\<close> sixteen
  bytes above, both inside the thread's own stack and the stack pointer 16-byte aligned.
\<close>

theorem spawn_sets_up:
  assumes "bases_ok bases"
    and "reach (0, Runtime_new bases) (rt_step sw guard) (n, rt)"
    and "spawn guard f rt = Inr rt'"
  shows "\<exists>i t'. i < MAX_THREADS \<and> state (threads rt ! i) = Available \<and>
    (\<forall>j. j < i \<longrightarrow> state (threads rt ! j) \<noteq> Available) \<and>
    rt' = rt\<lparr>threads := (threads rt)[i := t']\<rparr> \<and>
    thread_id t' = i \<and> state t' = Ready \<and>
    blk_base (stack t') = blk_base (stack (threads rt ! i)) \<and>
    blk_base (stack t') < unat (rsp (ctx t')) \<and>
    unat (rsp (ctx t')) + 24 < blk_end (stack t') \<and>
    unat (rsp (ctx t')) mod 16 = 0 \<and>
    read_u64 (stack t') (unat (rsp (ctx t'))) = Inr f \<and>
    read_u64 (stack t') (unat (rsp (ctx t')) + 16) = Inr guard"
proof -
  have inv: "rt_inv rt" using gt_run [OF assms(2,1)] by (simp add: run_inv_def)
  obtain i where i: "find_available (threads rt) = Some i"
    using assms(3) by (cases "find_available (threads rt)") (auto simp: spawn_Inl)
  then have il: "i < length (threads rt)" and ia: "state (threads rt ! i) = Available"
      "\<forall>j. j < i \<longrightarrow> state (threads rt ! j) \<noteq> Available"
    by (simp_all add: find_available_Some)
  let ?t = "threads rt ! i"
  let ?top = "stack_top (stack ?t)"
  note ti = rt_inv_thread [OF inv il]
  note b = stack_top_bounds [OF ti(3)]
  obtain stk2 where s: "rt' = rt\<lparr>threads := (threads rt)[i := ?t\<lparr>stack := stk2,
        ctx := (ctx ?t)\<lparr>rsp := of_nat (?top - 32)\<rparr>, state := Ready\<rparr>]\<rparr>"
    and stk2: "blk_base stk2 = blk_base (stack ?t)"
      "length (blk_data stk2) = length (blk_data (stack ?t))"
      "read_u64 stk2 (?top - 32) = Inr f" "read_u64 stk2 (?top - 16) = Inr guard"
    by (rule spawn_Inr [OF ti(3) i, of guard f]) (use assms(3) in simp)
  have r: "unat (of_nat (?top - 32) :: u64) = ?top - 32"
    using b(3) by (simp add: unat_of_nat)
  have a: "(?top - 32) mod 16 = 0" using b(2,4) by (simp add: mod_eq_0_iff_dvd)
  have e: "?top - 32 + 16 = ?top - 16" using b(2) by linarith
  show ?thesis
  proof (intro exI conjI)
    show "i < MAX_THREADS" using il inv by (simp add: rt_inv_def)
    show "rt' = rt\<lparr>threads := (threads rt)[i := ?t\<lparr>stack := stk2,
        ctx := (ctx ?t)\<lparr>rsp := of_nat (?top - 32)\<rparr>, state := Ready\<rparr>]\<rparr>" by (rule s)
  qed (use ia ti(1) stk2 b r a e in \<open>simp_all add: blk_end_def\<close>)
qed

lemma spawn_sets_up_witness:
  "\<exists>rt'. spawn 7 9 (Runtime_new sample_bases) = Inr rt' \<and> current rt' = 0"
proof -
  obtain rt' where s: "spawn 7 9 (Runtime_new sample_bases) = Inr rt'"
    by (rule main_setup [OF sample_bases_ok, of 7 9 9]) (auto simp: gt_main_setup_def obind_eq_Inr)
  with spawn_sets_up [OF sample_bases_ok reach_start [of _ "rt_step (\<lambda>old new c. (old, c :: nat)) 7"] s]
  show ?thesis by (auto simp: Runtime_new_threads(2))
qed

text \<open>
  C13: A spawned thread never gets to \<open>guard\<close>. Resuming its context as \<open>gt_switch\<close> does
  enters the function; when the function returns, with the stack pointer it was entered
  with and the words above it untouched, \<open>ret\<close> takes the return address from the slot
  between the two that \<open>spawn\<close> wrote, which still holds zero (the write of \<open>skip\<close> there is
  commented out), so control goes to address 0.
\<close>

theorem spawned_thread_returns_to_null:
  assumes "bases_ok bases"
    and "reach (0, Runtime_new bases) (rt_step sw guard) (n, rt)"
    and "spawn guard f rt = Inr rt'"
  shows "\<exists>i c1. i < MAX_THREADS \<and> state (threads rt ! i) = Available \<and>
    gt_switch (stack (threads rt' ! i)) (ctx (threads rt' ! i)) c = Inr c1 \<and> rip c1 = f \<and>
    (\<forall>stk'. (\<forall>a. unat (rsp_reg c1) \<le> a \<longrightarrow> load8 stk' a = load8 (stack (threads rt' ! i)) a) \<longrightarrow>
       x86_ret stk' c1 = Inr (c1\<lparr>rip := 0, rsp_reg := rsp_reg c1 + 8\<rparr>))"
proof -
  have inv: "rt_inv rt" using gt_run [OF assms(2,1)] by (simp add: run_inv_def)
  obtain i where i: "find_available (threads rt) = Some i"
    using assms(3) by (cases "find_available (threads rt)") (auto simp: spawn_Inl)
  then have il: "i < length (threads rt)" and ia: "state (threads rt ! i) = Available"
    by (simp_all add: find_available_Some)
  let ?t = "threads rt ! i"
  let ?top = "stack_top (stack ?t)"
  note ti = rt_inv_thread [OF inv il]
  note b = stack_top_bounds [OF ti(3)]
  obtain stk2 where s: "rt' = rt\<lparr>threads := (threads rt)[i := ?t\<lparr>stack := stk2,
        ctx := (ctx ?t)\<lparr>rsp := of_nat (?top - 32)\<rparr>, state := Ready\<rparr>]\<rparr>"
    and stk2: "read_u64 stk2 (?top - 32) = Inr f"
      "read_u64 stk2 (?top - 24) = read_u64 (stack ?t) (?top - 24)"
    by (rule spawn_Inr [OF ti(3) i, of guard f]) (use assms(3) in simp)
  have z: "read_u64 stk2 (?top - 24) = Inr 0"
    using stk2(2) fresh_slot_zero [OF ti(3,4) ia] by simp
  have "32 \<le> ?top" using b(2) by linarith
  note e = enter_and_return_null [OF b(3) this stk2(1) z]
  show ?thesis
    using il ia inv e(1) [of "ctx ?t" c] e(2) e(3) [of _ c]
    by (intro exI [of _ i] exI [of _ "c\<lparr>rip := f, rsp_reg := of_nat (?top - 32) + 8\<rparr>"])
      (simp add: s rt_inv_def)
qed

lemma spawned_thread_returns_to_null_witness:
  "\<exists>rt' i c1. spawn 7 9 (Runtime_new sample_bases) = Inr rt' \<and>
     gt_switch (stack (threads rt' ! i)) (ctx (threads rt' ! i)) \<lparr>rip = 1, rsp_reg = 2\<rparr> = Inr c1 \<and>
     x86_ret (stack (threads rt' ! i)) c1 = Inr (c1\<lparr>rip := 0, rsp_reg := rsp_reg c1 + 8\<rparr>)"
proof -
  obtain rt' where s: "spawn 7 9 (Runtime_new sample_bases) = Inr rt'"
    by (rule main_setup [OF sample_bases_ok, of 7 9 9]) (auto simp: gt_main_setup_def obind_eq_Inr)
  with spawned_thread_returns_to_null [OF sample_bases_ok
      reach_start [of _ "rt_step (\<lambda>old new c. (old, c :: nat)) 7"] s, of "\<lparr>rip = 1, rsp_reg = 2\<rparr>"]
  show ?thesis by blast
qed

text \<open>
  \<open>run\<close> on a consistent runtime exits at once, with code 0 and nothing changed, when no
  thread was ever spawned; once one was, it never returns, as nothing makes a thread
  available again.
\<close>

theorem run_exits_iff_idle:
  assumes "rt_inv rt" and "keeps_threads others"
  shows "run sw others c rt = (if slots rt < MAX_THREADS - 1 then None else Some (Inr (0, rt)))"
proof (cases "spawned rt")
  case True
  then show ?thesis
    using run_spawned_diverges [OF assms(2) _ assms(1) True, of sw c]
    by (cases "run sw others c rt") (simp_all add: spawned_def)
next
  case False
  with run_idle_exits [OF assms(1) False, of sw others c] show ?thesis
    by (simp add: spawned_def)
qed

lemma run_exits_iff_idle_witness:
  "run (\<lambda>old new c. (old, c :: nat)) (\<lambda>c rt. Some (c, rt)) 5 (Runtime_new sample_bases) =
     Some (Inr (0, Runtime_new sample_bases))"
  using run_exits_iff_idle [OF rt_inv_new [OF sample_bases_ok] keeps_threads_return,
      of "\<lambda>old new c. (old, c :: nat)" 5]
  by (simp add: slots_new)

text \<open>
  The program's \<open>main\<close> spawns its two threads without a panic and then never exits:
  the call of \<open>process::exit\<close> at the end of \<open>run\<close> is not reached.
\<close>

theorem gt_main_never_exits:
  assumes "bases_ok bases" and "keeps_threads others"
  shows "gt_main sw others c bases guard f1 f2 = None \<and>
    (\<exists>rt. gt_main_setup bases guard f1 f2 = Inr rt)"
proof -
  obtain rt where rt: "gt_main_setup bases guard f1 f2 = Inr rt" "rt_inv rt" "spawned rt"
    by (rule main_setup [OF assms(1), of guard f1 f2])
  have "run sw others c rt = None"
    using run_spawned_diverges [OF assms(2) _ rt(2,3), of sw c] by (cases "run sw others c rt") auto
  with rt(1) show ?thesis by (simp add: gt_main_def)
qed

lemma gt_main_never_exits_witness:
  "gt_main (\<lambda>old new c. (old, c :: nat)) (\<lambda>c rt. Some (c, rt)) 5 sample_bases 7 8 9 = None"
  using gt_main_never_exits [OF sample_bases_ok keeps_threads_return] by (rule conjunct1)

end
