(* ===== verification/Locks.thy ===== *)
theory Locks
  imports Prelude
begin

text \<open>
  The interface of a lock as its clients use it, and its two providers: the spin lock of
  \<^verbatim>\<open>concurrency/locks/src/spin_lock.rs\<close>, an atomic word taken by compare-and-exchange, and the
  standard library's \<open>Mutex\<close> that \<^verbatim>\<open>simulate-deadlock/src/main.rs\<close> uses, which remembers
  whether a guard is alive. The client's lemmas about who is inside a critical section are
  proved once, in the locale.
\<close>

section \<open>The interface\<close>

text \<open>
  \<open>try_lock l\<close> is one attempt: \<open>None\<close> when the caller has to try again, \<open>Some l'\<close> when it
  goes on with the lock in state \<open>l'\<close>. \<open>ok\<close> is what the provider keeps of its states.
\<close>

locale lock =
  fixes try_lock :: "'l \<Rightarrow> 'l option"
    and unlock :: "'l \<Rightarrow> 'l"
    and is_free :: "'l \<Rightarrow> bool"
    and ok :: "'l \<Rightarrow> bool"
  assumes try_lock_Some: "ok l \<Longrightarrow> try_lock l = Some l' \<Longrightarrow> is_free l \<and> \<not> is_free l' \<and> ok l'"
    and try_lock_None: "ok l \<Longrightarrow> try_lock l = None \<longleftrightarrow> \<not> is_free l"
    and unlock_free: "is_free (unlock l) \<and> ok (unlock l)"
begin

text \<open>
  The lock is consistent with the set of clients inside: free when nobody is, and never more
  than one inside.
\<close>

definition guards :: "'l \<Rightarrow> ('t \<Rightarrow> bool) \<Rightarrow> bool" where
  "guards l inside \<longleftrightarrow> ok l \<and> (is_free l \<longleftrightarrow> (\<forall>t. \<not> inside t)) \<and>
     (\<forall>t u. inside t \<longrightarrow> inside u \<longrightarrow> t = u)"

lemma guards_start: "ok l \<Longrightarrow> is_free l \<Longrightarrow> (\<And>t. \<not> inside t) \<Longrightarrow> guards l inside"
  by (auto simp: guards_def)

lemma guards_enter:
  assumes "guards l inside" and "try_lock l = Some l'"
    and "\<And>u. inside' u \<longleftrightarrow> inside u \<or> u = t"
  shows "guards l' inside'"
  using assms try_lock_Some [of l l'] by (auto simp: guards_def)

lemma guards_try_free: "guards l inside \<Longrightarrow> try_lock l = Some l' \<Longrightarrow> \<not> inside u"
  using try_lock_Some by (auto simp: guards_def)

lemma guards_leave:
  assumes "guards l inside" and "inside t"
    and "\<And>u. inside' u \<longleftrightarrow> inside u \<and> u \<noteq> t"
  shows "guards (unlock l) inside'"
  using assms unlock_free by (auto simp: guards_def)

lemma guards_cong: "guards l inside \<Longrightarrow> (\<And>u. inside' u = inside u) \<Longrightarrow> guards l inside'"
  by (simp add: guards_def)

lemma guards_blocked: "guards l inside \<Longrightarrow> try_lock l = None \<longleftrightarrow> (\<exists>t. inside t)"
  using try_lock_None by (auto simp: guards_def)

lemma guards_exclusive: "guards l inside \<Longrightarrow> inside t \<Longrightarrow> inside u \<Longrightarrow> t = u"
  by (simp add: guards_def)

end

section \<open>The spin lock\<close>

text \<open>Memory orderings of atomic operations.\<close>

datatype mem_order = Relaxed | Acquire | Release | AcqRel | SeqCst

text \<open>
  \<open>AtomicUsize::compare_exchange\<close>: the result (\<open>Inr\<close> the previous value when it was
  exchanged, \<open>Inl\<close> the value found otherwise) and the value afterwards.
\<close>

definition compare_exchange :: "u64 \<Rightarrow> u64 \<Rightarrow> u64 \<Rightarrow> (u64 + u64) \<times> u64" where
  "compare_exchange cur new v = (if v = cur then (Inr v, new) else (Inl v, v))"

text \<open>
  One round of \<open>while lock.0.compare_exchange(0, 1, ..) == Err(1) {}\<close>: spin on \<open>Err(1)\<close>,
  leave the loop on anything else, also on \<open>Err\<close> of another value.
\<close>

definition spin_try_lock :: "u64 \<Rightarrow> u64 option" where
  "spin_try_lock v =
     (case compare_exchange 0 1 v of (r, v') \<Rightarrow> if r = Inl 1 then None else Some v')"

text \<open>\<open>lock.0.store(0, ..)\<close>.\<close>

definition spin_unlock :: "u64 \<Rightarrow> u64" where
  "spin_unlock v = 0"

definition spin_ok :: "u64 \<Rightarrow> bool" where
  "spin_ok v \<longleftrightarrow> v = 0 \<or> v = 1"

interpretation spin: lock spin_try_lock spin_unlock "\<lambda>v. v = 0" spin_ok
  by unfold_locales
    (auto simp: spin_try_lock_def compare_exchange_def spin_unlock_def spin_ok_def split: if_splits)

section \<open>The standard library's mutex\<close>

text \<open>
  \<open>Mutex::lock\<close> blocks while a guard is alive; dropping the guard unlocks. No thread of the
  program panics while it holds a guard, so the mutex is never poisoned and the \<open>unwrap\<close>
  of the lock result succeeds.
\<close>

record std_mutex =
  locked :: bool
  mvalue :: i32

definition mutex_new :: "i32 \<Rightarrow> std_mutex" where
  "mutex_new v = \<lparr>locked = False, mvalue = v\<rparr>"

definition mutex_try_lock :: "std_mutex \<Rightarrow> std_mutex option" where
  "mutex_try_lock m = (if locked m then None else Some (m\<lparr>locked := True\<rparr>))"

definition mutex_unlock :: "std_mutex \<Rightarrow> std_mutex" where
  "mutex_unlock m = m\<lparr>locked := False\<rparr>"

interpretation mutex: lock mutex_try_lock mutex_unlock "\<lambda>m. \<not> locked m" "\<lambda>m. True"
  by unfold_locales (auto simp: mutex_try_lock_def mutex_unlock_def split: if_splits)

end
