(* ===== verification/SpinLock.thy ===== *)
theory SpinLock
  imports Locks
begin

text \<open>
  The program of \<^verbatim>\<open>concurrency/locks/src/spin_lock.rs\<close>: two threads that each take the spin
  lock, add one to the shared counter a thousand times and release the lock. An atomic
  operation on the lock word is one step; \<open>counter += 1\<close> is a load, a checked addition and a
  store, so the threads interleave inside it.

  The counter is a plain \<open>static mut\<close>, so unordered accesses to it are a data race, which is
  undefined behaviour. Whether two accesses are ordered depends on the memory orderings of
  the lock's operations: the state carries the happens-before relation as vector clocks (one
  per thread, one for the value last stored in the lock word), and a flag that an access was
  not ordered after an earlier conflicting one of the other thread. A state with the flag set
  is the end of the execution: nothing is modelled after undefined behaviour.
\<close>

section \<open>State\<close>

definition SPIN_ITERS :: nat where
  "SPIN_ITERS = 1000"

datatype tid = T1 | T2

fun other :: "tid \<Rightarrow> tid" where
  "other T1 = T2"
| "other T2 = T1"

text \<open>
  Where a thread's closure is: in \<open>lock\<close>, at the head of the loop after \<open>k\<close> rounds, between
  the load and the store of a round, after \<open>un_lock\<close>, or unwinding from an overflow.
\<close>

datatype pc = Locking | Loop nat | Loaded nat isize | Done | Panicked

type_synonym vclock = "tid \<Rightarrow> nat"

record spin_state =
  lockw :: u64
  counter :: isize
  pcs :: "tid \<Rightarrow> pc"
  clk :: "tid \<Rightarrow> vclock"
  lockclk :: vclock
  wr :: vclock
  rd :: vclock
  race :: bool

definition spin_init :: spin_state where
  "spin_init = \<lparr>lockw = 0, counter = 0, pcs = (\<lambda>_. Locking), clk = (\<lambda>_ _. 0),
     lockclk = (\<lambda>_. 0), wr = (\<lambda>_. 0), rd = (\<lambda>_. 0), race = False\<rparr>"

section \<open>Happens-before\<close>

definition vjoin :: "vclock \<Rightarrow> vclock \<Rightarrow> vclock" where
  "vjoin c d = (\<lambda>u. max (c u) (d u))"

definition acquires :: "mem_order \<Rightarrow> bool" where
  "acquires ord \<longleftrightarrow> ord \<in> {Acquire, AcqRel, SeqCst}"

definition releases :: "mem_order \<Rightarrow> bool" where
  "releases ord \<longleftrightarrow> ord \<in> {Release, AcqRel, SeqCst}"

text \<open>A load of the lock word with the given ordering.\<close>

definition sync_load :: "mem_order \<Rightarrow> tid \<Rightarrow> spin_state \<Rightarrow> spin_state" where
  "sync_load ord t s =
     (if acquires ord then s\<lparr>clk := (clk s)(t := vjoin (clk s t) (lockclk s))\<rparr> else s)"

text \<open>
  A store: with release ordering later acquiring loads of it are ordered after this point; a
  relaxed store ends the release sequence, and orders nothing.
\<close>

definition sync_store :: "mem_order \<Rightarrow> tid \<Rightarrow> spin_state \<Rightarrow> spin_state" where
  "sync_store ord t s = s\<lparr>lockclk := (if releases ord then clk s t else (\<lambda>_. 0))\<rparr>"

text \<open>The store of a successful exchange, which continues the release sequence it read from.\<close>

definition sync_rmw :: "mem_order \<Rightarrow> tid \<Rightarrow> spin_state \<Rightarrow> spin_state" where
  "sync_rmw ord t s =
     (if releases ord then s\<lparr>lockclk := vjoin (lockclk s) (clk s t)\<rparr> else s)"

text \<open>Unordered accesses of the plain counter.\<close>

definition tick :: "tid \<Rightarrow> spin_state \<Rightarrow> spin_state" where
  "tick t s = s\<lparr>clk := (clk s)(t := (clk s t)(t := Suc (clk s t t)))\<rparr>"

definition plain_read :: "tid \<Rightarrow> spin_state \<Rightarrow> spin_state" where
  "plain_read t s =
     (let s' = tick t s; o' = other t
      in s'\<lparr>rd := (rd s)(t := clk s' t t), race := race s \<or> clk s t o' < wr s o'\<rparr>)"

definition plain_write :: "tid \<Rightarrow> spin_state \<Rightarrow> spin_state" where
  "plain_write t s =
     (let s' = tick t s; o' = other t
      in s'\<lparr>wr := (wr s)(t := clk s' t t),
            race := race s \<or> clk s t o' < wr s o' \<or> clk s t o' < rd s o'\<rparr>)"

section \<open>Steps\<close>

definition set_pc :: "tid \<Rightarrow> pc \<Rightarrow> spin_state \<Rightarrow> spin_state" where
  "set_pc t p s = s\<lparr>pcs := (pcs s)(t := p)\<rparr>"

text \<open>The ordering \<open>un_lock\<close> passes to \<open>store\<close>.\<close>

definition UNLOCK_ORDERING :: mem_order where
  "UNLOCK_ORDERING = Relaxed"

text \<open>
  The steps that change where a thread is. \<open>ord\<close> is the ordering of the store in \<open>un_lock\<close>;
  the exchange in \<open>lock\<close> is \<open>SeqCst\<close> on success and on failure. There is no step after a race.
\<close>

inductive spin_move :: "mem_order \<Rightarrow> spin_state \<Rightarrow> spin_state \<Rightarrow> bool" for ord where
  spin_acquire: "pcs s t = Locking \<Longrightarrow> spin_try_lock (lockw s) = Some l' \<Longrightarrow> \<not> race s \<Longrightarrow>
    spin_move ord s (set_pc t (Loop 0) (sync_rmw SeqCst t (sync_load SeqCst t s)\<lparr>lockw := l'\<rparr>))"
| spin_load: "pcs s t = Loop k \<Longrightarrow> k < SPIN_ITERS \<Longrightarrow> \<not> race s \<Longrightarrow>
    spin_move ord s (set_pc t (Loaded k (counter s)) (plain_read t s))"
| spin_store: "pcs s t = Loaded k v \<Longrightarrow> checked_sadd v 1 = Inr v' \<Longrightarrow> \<not> race s \<Longrightarrow>
    spin_move ord s (set_pc t (Loop (Suc k)) (plain_write t s\<lparr>counter := v'\<rparr>))"
| spin_overflow: "pcs s t = Loaded k v \<Longrightarrow> checked_sadd v 1 = Inl e \<Longrightarrow> \<not> race s \<Longrightarrow>
    spin_move ord s (set_pc t Panicked s)"
| spin_release: "pcs s t = Loop SPIN_ITERS \<Longrightarrow> \<not> race s \<Longrightarrow>
    spin_move ord s (set_pc t Done (sync_store ord t s\<lparr>lockw := spin_unlock (lockw s)\<rparr>))"

text \<open>A round of the spin loop that fails.\<close>

inductive spin_wait :: "spin_state \<Rightarrow> spin_state \<Rightarrow> bool" where
  spin_again: "pcs s t = Locking \<Longrightarrow> spin_try_lock (lockw s) = None \<Longrightarrow> \<not> race s \<Longrightarrow>
    spin_wait s (sync_load SeqCst t s)"

definition spin_step :: "mem_order \<Rightarrow> spin_state \<Rightarrow> spin_state \<Rightarrow> bool" where
  "spin_step ord s s' \<longleftrightarrow> spin_move ord s s' \<or> spin_wait s s'"

lemma spin_stepI: "spin_move ord s s' \<Longrightarrow> spin_step ord s s'"
  by (simp add: spin_step_def)

inductive_cases spin_moveE: "spin_move ord s s'"
inductive_cases spin_waitE: "spin_wait s s'"

section \<open>Invariants\<close>

fun inside :: "pc \<Rightarrow> bool" where
  "inside Locking = False"
| "inside Done = False"
| "inside _ = True"

fun rounds :: "pc \<Rightarrow> nat" where
  "rounds Locking = 0"
| "rounds (Loop k) = k"
| "rounds (Loaded k v) = k"
| "rounds Done = SPIN_ITERS"
| "rounds Panicked = 0"

fun pc_ok :: "isize \<Rightarrow> pc \<Rightarrow> bool" where
  "pc_ok c (Loop k) = (k \<le> SPIN_ITERS)"
| "pc_ok c (Loaded k v) = (k < SPIN_ITERS \<and> v = c)"
| "pc_ok c Panicked = False"
| "pc_ok c _ = True"

definition spin_inv :: "spin_state \<Rightarrow> bool" where
  "spin_inv s \<longleftrightarrow> spin.guards (lockw s) (\<lambda>t. inside (pcs s t)) \<and>
     (\<forall>t. pc_ok (counter s) (pcs s t)) \<and>
     sint (counter s) = int (rounds (pcs s T1) + rounds (pcs s T2))"

text \<open>Every earlier access of the counter is ordered before the holder, or the lock's release.\<close>

definition ordered_before :: "spin_state \<Rightarrow> vclock \<Rightarrow> bool" where
  "ordered_before s c \<longleftrightarrow> (\<forall>u. wr s u \<le> c u \<and> rd s u \<le> c u)"

definition race_inv :: "spin_state \<Rightarrow> bool" where
  "race_inv s \<longleftrightarrow> \<not> race s \<and>
     (\<forall>t. inside (pcs s t) \<longrightarrow> ordered_before s (clk s t)) \<and>
     ((\<forall>t. \<not> inside (pcs s t)) \<longrightarrow> ordered_before s (lockclk s))"

lemma set_pc_simps [simp]:
  "lockw (set_pc t p s) = lockw s" "counter (set_pc t p s) = counter s"
  "pcs (set_pc t p s) = (pcs s)(t := p)" "clk (set_pc t p s) = clk s"
  "lockclk (set_pc t p s) = lockclk s" "wr (set_pc t p s) = wr s" "rd (set_pc t p s) = rd s"
  "race (set_pc t p s) = race s"
  by (simp_all add: set_pc_def)

lemma sync_simps [simp]:
  "lockw (sync_load ord t s) = lockw s" "counter (sync_load ord t s) = counter s"
  "pcs (sync_load ord t s) = pcs s" "lockclk (sync_load ord t s) = lockclk s"
  "wr (sync_load ord t s) = wr s" "rd (sync_load ord t s) = rd s"
  "race (sync_load ord t s) = race s"
  "lockw (sync_store ord t s) = lockw s" "counter (sync_store ord t s) = counter s"
  "pcs (sync_store ord t s) = pcs s" "clk (sync_store ord t s) = clk s"
  "wr (sync_store ord t s) = wr s" "rd (sync_store ord t s) = rd s"
  "race (sync_store ord t s) = race s"
  "lockw (sync_rmw ord t s) = lockw s" "counter (sync_rmw ord t s) = counter s"
  "pcs (sync_rmw ord t s) = pcs s" "clk (sync_rmw ord t s) = clk s"
  "wr (sync_rmw ord t s) = wr s" "rd (sync_rmw ord t s) = rd s"
  "race (sync_rmw ord t s) = race s"
  by (simp_all add: sync_load_def sync_store_def sync_rmw_def)

lemma plain_simps [simp]:
  "lockw (plain_read t s) = lockw s" "counter (plain_read t s) = counter s"
  "pcs (plain_read t s) = pcs s" "lockclk (plain_read t s) = lockclk s"
  "wr (plain_read t s) = wr s"
  "lockw (plain_write t s) = lockw s" "counter (plain_write t s) = counter s"
  "pcs (plain_write t s) = pcs s" "lockclk (plain_write t s) = lockclk s"
  "rd (plain_write t s) = rd s"
  by (simp_all add: plain_read_def plain_write_def tick_def Let_def)

lemma tid_all: "(\<forall>t. P t) \<longleftrightarrow> P T1 \<and> P T2"
  by (metis tid.exhaust)

lemma other_neq [simp]: "other t \<noteq> t" "t \<noteq> other t"
  by (cases t; simp)+

lemma spin_inv_init: "spin_inv spin_init"
  by (auto simp: spin_inv_def spin_init_def spin_ok_def intro!: spin.guards_start)

lemma spin_inv_pc: "spin_inv s \<Longrightarrow> pc_ok (counter s) (pcs s t)"
  by (simp add: spin_inv_def)

lemma spin_inv_guards: "spin_inv s \<Longrightarrow> spin.guards (lockw s) (\<lambda>t. inside (pcs s t))"
  by (simp add: spin_inv_def)

lemma spin_inv_alone:
  assumes "spin_inv s" and "inside (pcs s t)" and "u \<noteq> t"
  shows "\<not> inside (pcs s u)"
  using spin.guards_exclusive [OF spin_inv_guards [OF assms(1)], of t u] assms(2,3) by blast

text \<open>Assembling the invariant of a new state from what happened to one thread.\<close>

lemma spin_invI:
  assumes "spin.guards (lockw s') (\<lambda>u. inside (pcs s' u))"
    and "pc_ok (counter s') (pcs s' t)" and "pc_ok (counter s') (pcs s' (other t))"
    and "sint (counter s') = int (rounds (pcs s' t) + rounds (pcs s' (other t)))"
  shows "spin_inv s'"
  using assms by (cases t) (simp_all add: spin_inv_def tid_all add.commute)

lemma spin_inv_count:
  "spin_inv s \<Longrightarrow> sint (counter s) = int (rounds (pcs s t) + rounds (pcs s (other t)))"
  by (cases t) (simp_all add: spin_inv_def add.commute)

lemma pc_ok_outside: "pc_ok c p \<Longrightarrow> \<not> inside p \<Longrightarrow> pc_ok c' p"
  by (cases p) simp_all

lemma rounds_le: "pc_ok c p \<Longrightarrow> rounds p \<le> SPIN_ITERS"
  by (cases p) simp_all

lemma spin_move_inv:
  assumes inv: "spin_inv s" and mv: "spin_move ord s s'"
  shows "spin_inv s'"
  using mv
proof (cases rule: spin_move.cases)
  case (spin_acquire t l')
  note o' = spin_inv_pc [OF inv, of "other t"]
  show ?thesis
  proof (rule spin_invI [of _ t])
    show "spin.guards (lockw s') (\<lambda>u. inside (pcs s' u))"
      unfolding spin_acquire(1)
      by (rule spin.guards_enter [OF spin_inv_guards [OF inv], of _ _ t])
        (use spin_acquire in auto)
  qed (use spin_acquire o' spin_inv_count [OF inv, of t] in simp_all)
next
  case (spin_load t k)
  note o' = spin_inv_pc [OF inv, of "other t"]
  show ?thesis
  proof (rule spin_invI [of _ t])
    have "lockw s' = lockw s" and "inside (pcs s' u) = inside (pcs s u)" for u
      using spin_load by auto
    with spin.guards_cong [OF spin_inv_guards [OF inv]]
    show "spin.guards (lockw s') (\<lambda>u. inside (pcs s' u))" by (simp only:)
  qed (use spin_load o' spin_inv_count [OF inv, of t] in simp_all)
next
  case (spin_store t k v v')
  note o' = spin_inv_pc [OF inv, of "other t"] and t' = spin_inv_pc [OF inv, of t]
  have alone: "\<not> inside (pcs s (other t))"
    by (rule spin_inv_alone [OF inv, of t]) (use spin_store in simp_all)
  have "sint v' = sint v + 1" using sint_checked_sadd [OF spin_store(3)] by simp
  show ?thesis
  proof (rule spin_invI [of _ t])
    have "lockw s' = lockw s" and "inside (pcs s' u) = inside (pcs s u)" for u
      using spin_store by auto
    with spin.guards_cong [OF spin_inv_guards [OF inv]]
    show "spin.guards (lockw s') (\<lambda>u. inside (pcs s' u))" by (simp only:)
    show "pc_ok (counter s') (pcs s' (other t))"
      using pc_ok_outside [OF o' alone] spin_store(1) by simp
  qed (use spin_store t' \<open>sint v' = sint v + 1\<close> spin_inv_count [OF inv, of t] in simp_all)
next
  case (spin_overflow t k v e)
  note t' = spin_inv_pc [OF inv, of t] and o' = spin_inv_pc [OF inv, of "other t"]
  have "sint v = int (k + rounds (pcs s (other t)))"
    using spin_overflow t' spin_inv_count [OF inv, of t] by simp
  with rounds_le [OF o'] t' spin_overflow have "0 \<le> sint v" "sint v < 2 * int SPIN_ITERS" by simp_all
  with spin_overflow(3) show ?thesis
    by (simp add: checked_sadd_def SPIN_ITERS_def split: if_splits)
next
  case (spin_release t)
  note o' = spin_inv_pc [OF inv, of "other t"]
  show ?thesis
  proof (rule spin_invI [of _ t])
    show "spin.guards (lockw s') (\<lambda>u. inside (pcs s' u))"
      unfolding spin_release(1) using spin_release(2)
      by (simp, intro spin.guards_leave [OF spin_inv_guards [OF inv], of t]) auto
  qed (use spin_release o' spin_inv_count [OF inv, of t] in simp_all)
qed

lemma spin_wait_inv: "spin_inv s \<Longrightarrow> spin_wait s s' \<Longrightarrow> spin_inv s'"
  by (erule spin_waitE) (simp add: spin_inv_def)


text \<open>The happens-before part, when the store of \<open>un_lock\<close> has release ordering.\<close>

lemma race_inv_init: "race_inv spin_init"
  by (simp add: race_inv_def spin_init_def ordered_before_def)

lemma race_invI:
  assumes "\<not> race s'" and "\<And>u. inside (pcs s' u) \<Longrightarrow> u = t"
    and "ordered_before s' (if inside (pcs s' t) then clk s' t else lockclk s')"
  shows "race_inv s'"
  using assms by (auto simp: race_inv_def)

lemma race_inv_access:
  assumes "race_inv s" and "inside (pcs s t)"
  shows "\<not> race s" and "wr s u \<le> clk s t u" and "rd s u \<le> clk s t u"
  using assms by (simp_all add: race_inv_def ordered_before_def)

lemma spin_move_race_inv:
  assumes inv: "spin_inv s" and r: "race_inv s" and mv: "spin_move ord s s'" and "releases ord"
  shows "race_inv s'"
  using mv
proof (cases rule: spin_move.cases)
  case (spin_acquire t l')
  have free: "\<not> inside (pcs s u)" for u
    using spin.guards_try_free [OF spin_inv_guards [OF inv] spin_acquire(3)] .
  then have o: "ordered_before s (lockclk s)" and nr: "\<not> race s"
    using r by (simp_all add: race_inv_def)
  have c: "clk s' t u = max (clk s t u) (lockclk s u)" for u
    using spin_acquire(1) by (simp add: sync_load_def acquires_def vjoin_def)
  have f: "wr s' = wr s" "rd s' = rd s" "race s' = race s" "inside (pcs s' t)"
    using spin_acquire(1) by simp_all
  show ?thesis
  proof (rule race_invI [of _ t])
    show "u = t" if "inside (pcs s' u)" for u
      using that free [of u] spin_acquire(1) by (auto split: if_splits)
    show "ordered_before s' (if inside (pcs s' t) then clk s' t else lockclk s')"
      using o by (simp add: f c ordered_before_def max.coboundedI2)
  qed (use f nr in simp)
next
  case (spin_load t k)
  have i: "inside (pcs s t)" using spin_load by simp
  note acc = race_inv_access [OF r i]
  show ?thesis
  proof (rule race_invI [of _ t])
    show "u = t" if "inside (pcs s' u)" for u
      using that spin_inv_alone [OF inv i, of u] spin_load(1) by (auto split: if_splits)
    show "\<not> race s'"
      using acc spin_load(1) by (simp add: plain_read_def tick_def Let_def not_less)
    show "ordered_before s' (if inside (pcs s' t) then clk s' t else lockclk s')"
      using acc spin_load(1) by (simp add: ordered_before_def plain_read_def tick_def Let_def le_SucI)
  qed
next
  case (spin_store t k v v')
  have i: "inside (pcs s t)" using spin_store by simp
  note acc = race_inv_access [OF r i]
  show ?thesis
  proof (rule race_invI [of _ t])
    show "u = t" if "inside (pcs s' u)" for u
      using that spin_inv_alone [OF inv i, of u] spin_store(1) by (auto split: if_splits)
    show "\<not> race s'"
      using acc spin_store(1) by (simp add: plain_write_def tick_def Let_def not_less)
    show "ordered_before s' (if inside (pcs s' t) then clk s' t else lockclk s')"
      using acc spin_store(1) by (simp add: ordered_before_def plain_write_def tick_def Let_def le_SucI)
  qed
next
  case (spin_overflow t k v e)
  have "spin_inv s'" by (rule spin_move_inv [OF inv mv])
  with spin_inv_pc [of s' t] spin_overflow(1) show ?thesis by simp
next
  case (spin_release t)
  have i: "inside (pcs s t)" using spin_release by simp
  note acc = race_inv_access [OF r i]
  show ?thesis
  proof (rule race_invI [of _ t])
    show "u = t" if "inside (pcs s' u)" for u
      using that spin_inv_alone [OF inv i, of u] spin_release(1) by (auto split: if_splits)
    show "ordered_before s' (if inside (pcs s' t) then clk s' t else lockclk s')"
      using acc spin_release(1) \<open>releases ord\<close>
      by (simp add: ordered_before_def sync_store_def)
  qed (use acc spin_release(1) in simp)
qed

lemma spin_wait_race_inv:
  assumes r: "race_inv s" and w: "spin_wait s s'"
  shows "race_inv s'"
  using w
proof (cases rule: spin_wait.cases)
  case (spin_again t)
  then have "clk s' u = clk s u" if "inside (pcs s u)" for u
    using that by (auto simp: sync_load_def)
  with r spin_again(1) show ?thesis by (auto simp: race_inv_def ordered_before_def)
qed

interpretation sl: step_invariant spin_init "spin_step ord"
  "\<lambda>s. spin_inv s \<and> (releases ord \<longrightarrow> race_inv s)" for ord
  by unfold_locales
    (auto simp: spin_step_def spin_inv_init race_inv_init
      intro: spin_move_inv spin_wait_inv spin_move_race_inv spin_wait_race_inv)

section \<open>Progress and termination\<close>

text \<open>Steps left to a thread, not counting failed rounds of the spin loop.\<close>

fun pc_work :: "pc \<Rightarrow> nat" where
  "pc_work Locking = 2 * SPIN_ITERS + 2"
| "pc_work (Loop k) = 2 * (SPIN_ITERS - k) + 1"
| "pc_work (Loaded k v) = 2 * (SPIN_ITERS - k)"
| "pc_work Done = 0"
| "pc_work Panicked = 0"

definition spin_work :: "spin_state \<Rightarrow> nat" where
  "spin_work s = pc_work (pcs s T1) + pc_work (pcs s T2)"

lemma spin_work_at: "spin_work s = pc_work (pcs s t) + pc_work (pcs s (other t))"
  by (cases t) (simp_all add: spin_work_def)

lemma spin_move_work:
  assumes "spin_inv s" and "spin_move ord s s'"
  shows "spin_work s' < spin_work s"
  using assms(2)
proof (cases rule: spin_move.cases)
  case (spin_store t k v v')
  then have "k < SPIN_ITERS" using spin_inv_pc [OF assms(1), of t] by simp
  with spin_store show ?thesis by (simp add: spin_work_at [of _ t])
next
  case (spin_acquire t l')
  then show ?thesis by (simp add: spin_work_at [of _ t])
next
  case (spin_load t k)
  then show ?thesis by (simp add: spin_work_at [of _ t])
next
  case (spin_overflow t k v e)
  then show ?thesis
    using spin_inv_pc [OF assms(1), of t] by (simp add: spin_work_at [of _ t])
next
  case (spin_release t)
  then show ?thesis by (simp add: spin_work_at [of _ t])
qed

interpretation slm: step_measure spin_init "spin_move ord" spin_inv spin_work for ord
  by unfold_locales (auto simp: spin_inv_init intro: spin_move_inv spin_move_work)

text \<open>
  While a thread is not done and there was no race, some thread can move: the holder, or anyone
  when the lock is free.
\<close>

lemma spin_inside_moves:
  assumes "spin_inv s" and "inside (pcs s t)" and "\<not> race s"
  shows "\<exists>s'. spin_move ord s s'"
proof (cases "pcs s t")
  case (Loop k)
  with spin_inv_pc [OF assms(1), of t] have "k \<le> SPIN_ITERS" by simp
  then show ?thesis
    using spin_load [OF Loop] spin_release [of s t] Loop assms(3) by (cases "k = SPIN_ITERS") auto
next
  case (Loaded k v)
  then show ?thesis
    using assms(3) by (cases "checked_sadd v 1") (auto intro: spin_store spin_overflow)
qed (use assms spin_inv_pc [OF assms(1), of t] in auto)

lemma spin_progress:
  assumes "spin_inv s" and "pcs s t \<noteq> Done" and "\<not> race s"
  shows "\<exists>s'. spin_move ord s s'"
proof (cases "\<exists>u. inside (pcs s u)")
  case True
  with spin_inside_moves [OF assms(1)] assms(3) show ?thesis by blast
next
  case False
  then have "\<not> inside (pcs s t)" by blast
  with assms(2) have "pcs s t = Locking" by (cases "pcs s t") simp_all
  moreover obtain l' where "spin_try_lock (lockw s) = Some l'"
    using spin.guards_blocked [OF spin_inv_guards [OF assms(1)]] False by blast
  ultimately show ?thesis using assms(3) by (blast intro: spin_acquire)
qed

text \<open>Where an execution stops: both threads are done, or their accesses raced.\<close>

definition spin_over :: "spin_state \<Rightarrow> bool" where
  "spin_over s \<longleftrightarrow> race s \<or> pcs s T1 = Done \<and> pcs s T2 = Done"

lemma spin_finishes:
  assumes "spin_inv s"
  shows "\<exists>s'. (spin_move ord)\<^sup>*\<^sup>* s s' \<and> spin_over s' \<and> spin_inv s'"
  using assms
proof (induction "spin_work s" arbitrary: s rule: less_induct)
  case less
  show ?case
  proof (cases "spin_over s")
    case True
    with less.prems show ?thesis by blast
  next
    case False
    then obtain s1 where s1: "spin_move ord s s1"
      using spin_progress [OF less.prems] unfolding spin_over_def by blast
    from less.hyps [OF spin_move_work [OF less.prems s1] spin_move_inv [OF less.prems s1]]
    show ?thesis using s1 by (meson converse_rtranclp_into_rtranclp)
  qed
qed

lemma spin_moves_steps: "(spin_move ord)\<^sup>*\<^sup>* s s' \<Longrightarrow> (spin_step ord)\<^sup>*\<^sup>* s s'"
  by (rule rtranclp_mono [THEN predicate2D, rotated]) (auto intro: spin_stepI)

section \<open>The unordered accesses\<close>

text \<open>
  Thread 1 alone, from inside its critical section to the end of its loop: the clock thread 2
  has seen stays behind its writes.
\<close>

lemma spin_T1_rounds:
  assumes "k \<le> SPIN_ITERS"
  shows "\<exists>s. reach spin_init (spin_step ord) s \<and> pcs s T1 = Loop k \<and> pcs s T2 = Locking \<and>
    clk s T2 T1 = 0 \<and> lockclk s T1 = 0 \<and> (0 < k \<longrightarrow> 0 < wr s T1) \<and>
    \<not> race s \<and> wr s T2 = 0 \<and> rd s T2 = 0"
  using assms
proof (induction k)
  case 0
  let ?s = "set_pc T1 (Loop 0) (sync_rmw SeqCst T1 (sync_load SeqCst T1 spin_init)\<lparr>lockw := 1\<rparr>)"
  have "spin_move ord spin_init ?s"
    by (rule spin_acquire) (simp_all add: spin_init_def spin_try_lock_def compare_exchange_def)
  then have "reach spin_init (spin_step ord) ?s"
    by (auto simp: spin_step_def intro: reach_step [OF reach_start])
  moreover have "pcs ?s T2 = Locking \<and> clk ?s T2 T1 = 0 \<and> lockclk ?s T1 = 0 \<and> \<not> race ?s \<and>
      wr ?s T2 = 0 \<and> rd ?s T2 = 0"
    by (simp add: spin_init_def sync_load_def sync_rmw_def releases_def acquires_def vjoin_def)
  ultimately show ?case by (intro exI [of _ ?s]) simp
next
  case (Suc k)
  then obtain s where s: "reach spin_init (spin_step ord) s" "pcs s T1 = Loop k"
      "pcs s T2 = Locking" "clk s T2 T1 = 0" "lockclk s T1 = 0"
      "\<not> race s" "wr s T2 = 0" "rd s T2 = 0"
    by auto
  let ?s1 = "set_pc T1 (Loaded k (counter s)) (plain_read T1 s)"
  have "spin_move ord s ?s1" using s(2,6) Suc.prems by (intro spin_load) simp_all
  with s(1) have r1: "reach spin_init (spin_step ord) ?s1"
    by (auto simp: spin_step_def intro: reach_step)
  then have "spin_inv ?s1" using sl.inv_reach by blast
  have nr: "\<not> race ?s1" using s(6,7) by (simp add: plain_read_def tick_def Let_def)
  obtain v' where v': "checked_sadd (counter s) 1 = Inr v'"
  proof (cases "checked_sadd (counter s) 1")
    case (Inl e)
    have "spin_move ord ?s1 (set_pc T1 Panicked ?s1)"
      by (rule spin_overflow [of _ _ k "counter s", OF _ Inl nr]) simp
    with \<open>spin_inv ?s1\<close> have "spin_inv (set_pc T1 Panicked ?s1)" by (rule spin_move_inv)
    with spin_inv_pc [of "set_pc T1 Panicked ?s1" T1] show thesis by simp
  next
    case (Inr v')
    then show thesis by (rule that)
  qed
  let ?s2 = "set_pc T1 (Loop (Suc k)) (plain_write T1 ?s1\<lparr>counter := v'\<rparr>)"
  have "spin_move ord ?s1 ?s2" by (rule spin_store [OF _ v' nr]) simp
  with r1 have "reach spin_init (spin_step ord) ?s2"
    by (auto simp: spin_step_def intro: reach_step)
  moreover have "clk ?s2 T2 T1 = 0" "0 < wr ?s2 T1" "\<not> race ?s2" "wr ?s2 T2 = 0" "rd ?s2 T2 = 0"
    using s(4,6-8) by (simp_all add: plain_read_def plain_write_def tick_def Let_def)
  ultimately show ?case using s(3,5) by (intro exI [of _ ?s2]) simp
qed

text \<open>
  Without release ordering no execution gets past the first access of the second thread to
  enter: \<open>t\<close> is the thread that enters first. Before it does, nothing has happened (\<open>untouched\<close>).
\<close>

definition untouched :: "spin_state \<Rightarrow> bool" where
  "untouched s \<longleftrightarrow> (\<forall>t u. clk s t u = 0) \<and> (\<forall>u. lockclk s u = 0 \<and> wr s u = 0 \<and> rd s u = 0)"

definition first_alone :: "tid \<Rightarrow> spin_state \<Rightarrow> bool" where
  "first_alone t s \<longleftrightarrow> pcs s (other t) = Locking \<and> \<not> race s \<and>
     clk s (other t) t = 0 \<and> lockclk s t = 0 \<and> wr s (other t) = 0 \<and> rd s (other t) = 0 \<and>
     (0 < rounds (pcs s t) \<longrightarrow> 0 < wr s t) \<and> (pcs s t = Locking \<longrightarrow> untouched s)"

definition second_enters :: "tid \<Rightarrow> spin_state \<Rightarrow> bool" where
  "second_enters t s \<longleftrightarrow> pcs s t = Done \<and>
     (\<not> race s \<and> pcs s (other t) = Loop 0 \<and> clk s (other t) t = 0 \<and> 0 < wr s t \<or>
      race s \<and> (\<exists>v. pcs s (other t) = Loaded 0 v))"

definition relaxed_inv :: "spin_state \<Rightarrow> bool" where
  "relaxed_inv s \<longleftrightarrow> (\<exists>t. first_alone t s \<or> second_enters t s)"

lemma relaxed_inv_init: "relaxed_inv spin_init"
  by (auto simp: relaxed_inv_def first_alone_def untouched_def spin_init_def)

lemma first_alone_enters:
  assumes "first_alone t s" and "pcs s t = Locking"
  shows "relaxed_inv (set_pc u (Loop 0) (sync_rmw SeqCst u (sync_load SeqCst u s)\<lparr>lockw := l'\<rparr>))"
proof -
  from assms have z: "untouched s" "\<not> race s" "pcs s v = Locking" for v
    by (cases v; cases t; simp add: first_alone_def)+
  have "first_alone u (set_pc u (Loop 0) (sync_rmw SeqCst u (sync_load SeqCst u s)\<lparr>lockw := l'\<rparr>))"
    using z by (simp add: first_alone_def untouched_def sync_load_def sync_rmw_def acquires_def
        releases_def vjoin_def)
  then show ?thesis by (auto simp: relaxed_inv_def)
qed

lemma first_alone_move:
  assumes inv: "spin_inv s" and nr: "\<not> releases ord" and f: "first_alone t s" and mv: "spin_move ord s s'"
  shows "relaxed_inv s'"
  using mv
proof (cases rule: spin_move.cases)
  case (spin_acquire u l')
  show ?thesis
  proof (cases "pcs s t = Locking")
    case True
    show ?thesis unfolding spin_acquire(1) by (rule first_alone_enters [OF f True])
  next
    case False
    have free: "\<not> inside (pcs s t)"
      using spin.guards_try_free [OF spin_inv_guards [OF inv] spin_acquire(3)] .
    have "pcs s t = Done"
      using False free spin_inv_pc [OF inv, of t] by (cases "pcs s t") simp_all
    moreover from this False spin_acquire(2) have "u = other t" by (cases u; cases t) auto
    ultimately have "second_enters t s'"
      using f spin_acquire(1) by (simp add: second_enters_def first_alone_def sync_load_def
          sync_rmw_def acquires_def releases_def vjoin_def SPIN_ITERS_def)
    then show ?thesis by (auto simp: relaxed_inv_def)
  qed
next
  case (spin_load u k)
  then have "u = t" using f by (cases u; cases t) (auto simp: first_alone_def)
  then have "first_alone t s'"
    using f spin_load(1,2) by (simp add: first_alone_def plain_read_def tick_def Let_def)
  then show ?thesis by (auto simp: relaxed_inv_def)
next
  case (spin_store u k v v')
  then have "u = t" using f by (cases u; cases t) (auto simp: first_alone_def)
  then have "first_alone t s'"
    using f spin_store(1,2) by (simp add: first_alone_def plain_write_def tick_def Let_def)
  then show ?thesis by (auto simp: relaxed_inv_def)
next
  case (spin_overflow u k v e)
  have "spin_inv s'" by (rule spin_move_inv [OF inv mv])
  with spin_inv_pc [of s' u] spin_overflow(1) show ?thesis by simp
next
  case (spin_release u)
  then have "u = t" using f by (cases u; cases t) (auto simp: first_alone_def)
  then have "first_alone t s'"
    using f spin_release(1,2) nr by (simp add: first_alone_def sync_store_def SPIN_ITERS_def)
  then show ?thesis by (auto simp: relaxed_inv_def)
qed

lemma second_enters_move:
  assumes f: "second_enters t s" and mv: "spin_move ord s s'"
  shows "relaxed_inv s'"
proof -
  have nr: "\<not> race s" using mv by (cases rule: spin_move.cases)
  with f have p: "pcs s t = Done" "pcs s (other t) = Loop 0" "clk s (other t) t = 0" "0 < wr s t"
    by (simp_all add: second_enters_def)
  have oo: "other (other t) = t" by (cases t) simp_all
  have at: "pcs s u = Done \<or> u = other t \<and> pcs s u = Loop 0" for u
    using p(1,2) by (cases u; cases t) auto
  from mv show ?thesis
  proof (cases rule: spin_move.cases)
    case (spin_load u k)
    with at [of u] have "u = other t" by simp
    then have "second_enters t s'"
      using spin_load(1,2) p oo by (simp add: second_enters_def plain_read_def tick_def Let_def)
    then show ?thesis by (auto simp: relaxed_inv_def)
  next
    case (spin_acquire u l')
    with at [of u] show ?thesis by simp
  next
    case (spin_store u k v v')
    with at [of u] show ?thesis by simp
  next
    case (spin_overflow u k v e)
    with at [of u] show ?thesis by simp
  next
    case (spin_release u)
    with at [of u] show ?thesis by (simp add: SPIN_ITERS_def)
  qed
qed

lemma relaxed_inv_wait:
  assumes inv: "spin_inv s" and r: "relaxed_inv s" and w: "spin_wait s s'"
  shows "relaxed_inv s'"
  using w
proof (cases rule: spin_wait.cases)
  case (spin_again u)
  obtain v where v: "inside (pcs s v)"
    using spin.guards_blocked [OF spin_inv_guards [OF inv]] spin_again(3) by blast
  from r obtain t where t: "first_alone t s \<or> second_enters t s" by (auto simp: relaxed_inv_def)
  from t spin_again(2,4) have f: "first_alone t s"
    by (cases u; cases t) (auto simp: second_enters_def)
  with v have "pcs s t \<noteq> Locking" by (cases v; cases t) (auto simp: first_alone_def)
  with f spin_again(2) have "u = other t" by (cases u; cases t) auto
  with f \<open>pcs s t \<noteq> Locking\<close> have "first_alone t s'"
    using spin_again(1) by (simp add: first_alone_def sync_load_def acquires_def vjoin_def)
  then show ?thesis by (auto simp: relaxed_inv_def)
qed

lemma relaxed_inv_move:
  "spin_inv s \<Longrightarrow> \<not> releases ord \<Longrightarrow> relaxed_inv s \<Longrightarrow> spin_move ord s s' \<Longrightarrow> relaxed_inv s'"
  unfolding relaxed_inv_def [of s] using first_alone_move second_enters_move by blast

interpretation slr: step_invariant spin_init "spin_step ord"
  "\<lambda>s. spin_inv s \<and> (\<not> releases ord \<longrightarrow> relaxed_inv s)" for ord
  by unfold_locales
    (auto simp: spin_step_def spin_inv_init relaxed_inv_init
      intro: spin_move_inv spin_wait_inv relaxed_inv_move relaxed_inv_wait)

text \<open>So the two threads are never both done, and some work is always left.\<close>

lemma relaxed_inv_not_done: "relaxed_inv s \<Longrightarrow> \<not> (pcs s T1 = Done \<and> pcs s T2 = Done)"
  by (auto simp: relaxed_inv_def first_alone_def second_enters_def)
    (metis other.simps pc.distinct tid.exhaust)+

lemma relaxed_inv_work:
  assumes "relaxed_inv s"
  shows "2000 \<le> spin_work s"
proof -
  from assms obtain t where "first_alone t s \<or> second_enters t s" by (auto simp: relaxed_inv_def)
  then have "2000 \<le> pc_work (pcs s (other t))"
    by (auto simp: first_alone_def second_enters_def SPIN_ITERS_def)
  then show ?thesis by (simp add: spin_work_at [of s t])
qed

lemma spin_work_le: "spin_work s \<le> 4004"
proof -
  have "pc_work p \<le> 2002" for p by (cases p) (simp_all add: SPIN_ITERS_def)
  from this [of "pcs s T1"] this [of "pcs s T2"] show ?thesis by (simp add: spin_work_def)
qed

section \<open>Properties\<close>

text \<open>
  C2: Mutual exclusion of the spin lock. However the two threads interleave, and whatever the
  ordering of the store in \<open>un_lock\<close> is (\<open>UNLOCK_ORDERING\<close> in the code), they are never
  both between the end of \<open>lock\<close> and \<open>un_lock\<close>; the lock word is 1 exactly when one of them
  is, and 0 otherwise, so the loop of \<open>lock\<close> is left only by a successful exchange.
\<close>

theorem spin_mutual_exclusion:
  assumes "reach spin_init (spin_step ord) s"
  shows "\<not> (inside (pcs s T1) \<and> inside (pcs s T2)) \<and>
    (lockw s = 0 \<or> lockw s = 1) \<and> (lockw s = 1 \<longleftrightarrow> inside (pcs s T1) \<or> inside (pcs s T2))"
proof -
  have inv: "spin_inv s" using sl.inv_reach [OF assms] by blast
  have w: "lockw s = 0 \<or> lockw s = 1" "lockw s = 0 \<longleftrightarrow> (\<forall>t. \<not> inside (pcs s t))"
    using spin_inv_guards [OF inv] by (auto simp: spin.guards_def spin_ok_def)
  with spin_inv_alone [OF inv, of T1 T2] show ?thesis by (auto simp: tid_all)
qed

lemma spin_mutual_exclusion_witness:
  "\<exists>s. reach spin_init (spin_step UNLOCK_ORDERING) s \<and> pcs s T1 = Loop 3 \<and> \<not> inside (pcs s T2)"
proof -
  obtain s where s: "reach spin_init (spin_step UNLOCK_ORDERING) s" "pcs s T1 = Loop 3"
    using spin_T1_rounds [of 3 UNLOCK_ORDERING] by (auto simp: SPIN_ITERS_def)
  with spin_mutual_exclusion [OF s(1)] show ?thesis by auto
qed

text \<open>
  When both threads are done without a race the counter is 2000, and no addition on the way
  overflows, so neither thread panics.
\<close>

theorem spin_final_count:
  assumes "reach spin_init (spin_step ord) s"
  shows "pcs s t \<noteq> Panicked \<and>
    (pcs s T1 = Done \<and> pcs s T2 = Done \<longrightarrow> sint (counter s) = 2000)"
proof -
  have inv: "spin_inv s" using sl.inv_reach [OF assms] by blast
  have "pcs s t \<noteq> Panicked" using spin_inv_pc [OF inv, of t] by auto
  with inv show ?thesis by (simp add: spin_inv_def SPIN_ITERS_def)
qed

lemma spin_final_count_witness: "pcs spin_init T1 \<noteq> Panicked"
  using spin_final_count [OF reach_start, of T1] by simp

text \<open>
  C17: The lock does not order the critical sections. \<open>un_lock\<close> stores with \<open>Relaxed\<close>, so
  the next \<open>lock\<close> does not synchronise with it, and there is an execution in which thread 2
  reads the counter without being ordered after thread 1's writes: a data race. With a
  releasing store in its place no reachable state has one.
\<close>

theorem spin_relaxed_unlock_races:
  "(\<exists>s. reach spin_init (spin_step UNLOCK_ORDERING) s \<and> race s) \<and>
   (\<forall>s. reach spin_init (spin_step Release) s \<longrightarrow> \<not> race s)"
proof
  show "\<forall>s. reach spin_init (spin_step Release) s \<longrightarrow> \<not> race s"
    using sl.inv_reach [of Release] by (auto simp: releases_def race_inv_def)
  obtain s where s: "reach spin_init (spin_step Relaxed) s" "pcs s T1 = Loop SPIN_ITERS"
      "pcs s T2 = Locking" "clk s T2 T1 = 0" "0 < wr s T1"
      "\<not> race s"
    using spin_T1_rounds [of SPIN_ITERS Relaxed] by (auto simp: SPIN_ITERS_def)
  let ?s1 = "set_pc T1 Done (sync_store Relaxed T1 s\<lparr>lockw := spin_unlock (lockw s)\<rparr>)"
  let ?s2 = "set_pc T2 (Loop 0) (sync_rmw SeqCst T2 (sync_load SeqCst T2 ?s1)\<lparr>lockw := 1\<rparr>)"
  let ?s3 = "set_pc T2 (Loaded 0 (counter ?s2)) (plain_read T2 ?s2)"
  have m1: "spin_move Relaxed s ?s1" by (rule spin_release [OF s(2,6)])
  have m2: "spin_move Relaxed ?s1 ?s2"
    by (rule spin_acquire) (simp_all add: s(3,6) spin_unlock_def spin_try_lock_def compare_exchange_def)
  have m3: "spin_move Relaxed ?s2 ?s3" by (rule spin_load) (simp_all add: SPIN_ITERS_def s(6))
  note r3 = reach_step [OF reach_step [OF reach_step [OF s(1) spin_stepI [OF m1]]
        spin_stepI [OF m2]] spin_stepI [OF m3]]
  have "clk ?s2 T2 T1 = 0"
    using s(4) by (simp add: sync_load_def sync_rmw_def sync_store_def acquires_def releases_def vjoin_def)
  then have "race ?s3" using s(5) by (simp add: plain_read_def tick_def Let_def)
  with r3 show "\<exists>s. reach spin_init (spin_step UNLOCK_ORDERING) s \<and> race s"
    unfolding UNLOCK_ORDERING_def by blast
qed

lemma spin_relaxed_unlock_races_witness:
  "\<not> race spin_init \<and> (\<exists>s. reach spin_init (spin_step UNLOCK_ORDERING) s \<and> race s)"
  using spin_relaxed_unlock_races [THEN conjunct1]
    spin_relaxed_unlock_races [THEN conjunct2, rule_format, OF reach_start] by simp

end
