(* ===== verification/Deadlock.thy ===== *)
theory Deadlock
  imports Locks
begin

text \<open>
  The program of \<^verbatim>\<open>concurrency/simulate-deadlock/src/main.rs\<close>: two threads that take two
  mutexes in opposite orders, and a main thread that spawns and joins them. Each thread's
  closure is the list of its statements; the guards bound to \<open>_guard\<close> are both alive until
  the closure ends (the second binding shadows the first without dropping it) and are then
  dropped in reverse order, which is written as two statements at the end of the list.
\<close>

section \<open>The program\<close>

datatype mutex_id = MUTEX_A | MUTEX_B

datatype thread_name = Thread_A | Thread_B

text \<open>Both are finite, so that quantifying over the threads or the mutexes computes.\<close>

instantiation mutex_id :: enum
begin

definition enum_mutex_id :: "mutex_id list" where
  "enum_mutex_id = [MUTEX_A, MUTEX_B]"

definition enum_all_mutex_id :: "(mutex_id \<Rightarrow> bool) \<Rightarrow> bool" where
  "enum_all_mutex_id P \<longleftrightarrow> P MUTEX_A \<and> P MUTEX_B"

definition enum_ex_mutex_id :: "(mutex_id \<Rightarrow> bool) \<Rightarrow> bool" where
  "enum_ex_mutex_id P \<longleftrightarrow> P MUTEX_A \<or> P MUTEX_B"

instance
proof
  have univ: "UNIV = {MUTEX_A, MUTEX_B}" using mutex_id.exhaust by auto
  show "(UNIV :: mutex_id set) = set enum_class.enum" by (simp add: univ enum_mutex_id_def)
  show "distinct (enum_class.enum :: mutex_id list)" by (simp add: enum_mutex_id_def)
  show "enum_class.enum_all P \<longleftrightarrow> Ball UNIV P" for P :: "mutex_id \<Rightarrow> bool"
    by (simp add: univ enum_all_mutex_id_def)
  show "enum_class.enum_ex P \<longleftrightarrow> Bex UNIV P" for P :: "mutex_id \<Rightarrow> bool"
    by (simp add: univ enum_ex_mutex_id_def)
qed

end

instantiation thread_name :: enum
begin

definition enum_thread_name :: "thread_name list" where
  "enum_thread_name = [Thread_A, Thread_B]"

definition enum_all_thread_name :: "(thread_name \<Rightarrow> bool) \<Rightarrow> bool" where
  "enum_all_thread_name P \<longleftrightarrow> P Thread_A \<and> P Thread_B"

definition enum_ex_thread_name :: "(thread_name \<Rightarrow> bool) \<Rightarrow> bool" where
  "enum_ex_thread_name P \<longleftrightarrow> P Thread_A \<or> P Thread_B"

instance
proof
  have univ: "UNIV = {Thread_A, Thread_B}" using thread_name.exhaust by auto
  show "(UNIV :: thread_name set) = set enum_class.enum" by (simp add: univ enum_thread_name_def)
  show "distinct (enum_class.enum :: thread_name list)" by (simp add: enum_thread_name_def)
  show "enum_class.enum_all P \<longleftrightarrow> Ball UNIV P" for P :: "thread_name \<Rightarrow> bool"
    by (simp add: univ enum_all_thread_name_def)
  show "enum_class.enum_ex P \<longleftrightarrow> Bex UNIV P" for P :: "thread_name \<Rightarrow> bool"
    by (simp add: univ enum_ex_thread_name_def)
qed

end

lemma thread_all: "(\<forall>t. P t) \<longleftrightarrow> P Thread_A \<and> P Thread_B"
  using enum_all_UNIV [of P] unfolding enum_all_thread_name_def by simp

lemma mutex_all: "(\<forall>m. P m) \<longleftrightarrow> P MUTEX_A \<and> P MUTEX_B"
  using enum_all_UNIV [of P] unfolding enum_all_mutex_id_def by simp

datatype stmt = Println string | LockM mutex_id | Sleep | DropGuard mutex_id

definition thread_a :: "stmt list" where
  "thread_a =
     [Println ''Thread A waiting get Resource A'', LockM MUTEX_A,
      Println ''Thread A got Resource A'', Sleep,
      Println ''Thread A waiting get Resource B'', LockM MUTEX_B,
      Println ''Thread A got Resource B'', DropGuard MUTEX_B, DropGuard MUTEX_A]"

definition thread_b :: "stmt list" where
  "thread_b =
     [Println ''Thread B waiting get Resource B'', LockM MUTEX_B,
      Println ''Thread B got Resource B'', Sleep,
      Println ''Thread B waiting get Resource A'', LockM MUTEX_A,
      Println ''Thread B got Resource A'', DropGuard MUTEX_A, DropGuard MUTEX_B]"

fun closure :: "thread_name \<Rightarrow> stmt list" where
  "closure Thread_A = thread_a"
| "closure Thread_B = thread_b"

datatype main_stmt = Spawn thread_name | Join thread_name | MainPrintln string

definition dl_main :: "main_stmt list" where
  "dl_main = [Spawn Thread_A, Spawn Thread_B, Join Thread_A, Join Thread_B,
     MainPrintln ''This is not printed'']"

record dl_state =
  alive :: "thread_name \<Rightarrow> bool"
  tpc :: "thread_name \<Rightarrow> nat"
  mpc :: nat
  mtx :: "mutex_id \<Rightarrow> std_mutex"
  out :: "string list"

definition dl_init :: dl_state where
  "dl_init = \<lparr>alive = (\<lambda>_. False), tpc = (\<lambda>_. 0), mpc = 0,
     mtx = (\<lambda>m. case m of MUTEX_A \<Rightarrow> mutex_new 0 | MUTEX_B \<Rightarrow> mutex_new 1), out = []\<rparr>"

section \<open>Steps\<close>

text \<open>\<open>None\<close>: the statement blocks.\<close>

fun exec_stmt :: "stmt \<Rightarrow> dl_state \<Rightarrow> dl_state option" where
  "exec_stmt (Println l) s = Some (s\<lparr>out := out s @ [l]\<rparr>)"
| "exec_stmt (LockM m) s =
     map_option (\<lambda>m'. s\<lparr>mtx := (mtx s)(m := m')\<rparr>) (mutex_try_lock (mtx s m))"
| "exec_stmt Sleep s = Some s"
| "exec_stmt (DropGuard m) s = Some (s\<lparr>mtx := (mtx s)(m := mutex_unlock (mtx s m))\<rparr>)"

fun exec_main :: "main_stmt \<Rightarrow> dl_state \<Rightarrow> dl_state option" where
  "exec_main (Spawn t) s = Some (s\<lparr>alive := (alive s)(t := True)\<rparr>)"
| "exec_main (Join t) s = (if tpc s t = length (closure t) then Some s else None)"
| "exec_main (MainPrintln l) s = Some (s\<lparr>out := out s @ [l]\<rparr>)"

datatype actor = Worker thread_name | Main

fun dl_exec :: "actor \<Rightarrow> dl_state \<Rightarrow> dl_state option" where
  "dl_exec (Worker t) s =
     (if alive s t \<and> tpc s t < length (closure t)
      then map_option (\<lambda>s'. s'\<lparr>tpc := (tpc s)(t := Suc (tpc s t))\<rparr>)
             (exec_stmt (closure t ! tpc s t) s)
      else None)"
| "dl_exec Main s =
     (if mpc s < length dl_main
      then map_option (\<lambda>s'. s'\<lparr>mpc := Suc (mpc s)\<rparr>) (exec_main (dl_main ! mpc s) s)
      else None)"

definition dl_step :: "dl_state \<Rightarrow> dl_state \<Rightarrow> bool" where
  "dl_step s s' \<longleftrightarrow> (\<exists>a. dl_exec a s = Some s')"

text \<open>A schedule: which actor takes each step.\<close>

fun dl_run :: "actor list \<Rightarrow> dl_state \<Rightarrow> dl_state option" where
  "dl_run [] s = Some s"
| "dl_run (a # as) s = (case dl_exec a s of None \<Rightarrow> None | Some s' \<Rightarrow> dl_run as s')"

lemma dl_run_reach:
  "reach s0 dl_step s \<Longrightarrow> dl_run as s = Some s' \<Longrightarrow> reach s0 dl_step s'"
proof (induction as arbitrary: s)
  case Nil
  then show ?case by simp
next
  case (Cons a as)
  from Cons.prems(2) obtain u where u: "dl_exec a s = Some u" "dl_run as u = Some s'"
    by (auto split: option.splits)
  then have "dl_step s u" by (auto simp: dl_step_def)
  with Cons.IH [OF reach_step [OF Cons.prems(1)] u(2)] show ?case by blast
qed

section \<open>The invariant\<close>

fun first :: "thread_name \<Rightarrow> mutex_id" where
  "first Thread_A = MUTEX_A"
| "first Thread_B = MUTEX_B"

text \<open>Whether a thread that has executed \<open>p\<close> statements holds the guard of a mutex.\<close>

definition holds :: "mutex_id \<Rightarrow> thread_name \<Rightarrow> nat \<Rightarrow> bool" where
  "holds m t p \<longleftrightarrow> (if m = first t then 2 \<le> p \<and> p < 9 else 6 \<le> p \<and> p < 8)"

definition dl_inv :: "dl_state \<Rightarrow> bool" where
  "dl_inv s \<longleftrightarrow>
     (\<forall>m. mutex.guards (mtx s m) (\<lambda>t. holds m t (tpc s t))) \<and>
     (\<forall>t. tpc s t \<le> 9) \<and> mpc s \<le> 5 \<and>
     (\<forall>t. \<not> alive s t \<longrightarrow> tpc s t = 0) \<and>
     (alive s Thread_A \<longleftrightarrow> 1 \<le> mpc s) \<and> (alive s Thread_B \<longleftrightarrow> 2 \<le> mpc s) \<and>
     (3 \<le> mpc s \<longrightarrow> tpc s Thread_A = 9) \<and> (4 \<le> mpc s \<longrightarrow> tpc s Thread_B = 9) \<and>
     (''This is not printed'' \<in> set (out s) \<longleftrightarrow> mpc s = 5)"

lemma length_threads [simp]: "length thread_a = 9" "length thread_b = 9"
  by (simp_all add: thread_a_def thread_b_def)

lemma length_closure [simp]: "length (closure t) = 9"
  by (cases t) simp_all

lemma length_dl_main [simp]: "length dl_main = 5"
  by (simp add: dl_main_def)

lemma less9: "(p::nat) < 9 \<longleftrightarrow> p = 0 \<or> p = 1 \<or> p = 2 \<or> p = 3 \<or> p = 4 \<or> p = 5 \<or> p = 6 \<or> p = 7 \<or> p = 8"
  by auto

lemma less5: "(p::nat) < 5 \<longleftrightarrow> p = 0 \<or> p = 1 \<or> p = 2 \<or> p = 3 \<or> p = 4"
  by auto

fun second :: "thread_name \<Rightarrow> mutex_id" where
  "second Thread_A = MUTEX_B"
| "second Thread_B = MUTEX_A"

text \<open>Which statements of a closure touch the mutexes.\<close>

lemma closure_nth:
  assumes "p < 9"
  shows "closure t ! p =
    (if p = 1 then LockM (first t) else if p = 3 then Sleep
     else if p = 5 then LockM (second t) else if p = 7 then DropGuard (second t)
     else if p = 8 then DropGuard (first t) else closure t ! p)"
    and "p \<in> {0, 2, 4, 6} \<Longrightarrow> \<exists>l. closure t ! p = Println l \<and> l \<noteq> ''This is not printed''"
  using assms unfolding less9
  by (cases t; elim disjE; simp add: thread_a_def thread_b_def)+

lemma dl_inv_init: "dl_inv dl_init"
proof -
  have "mutex.guards (mtx dl_init m) (\<lambda>t. holds m t (tpc dl_init t))" for m
    by (intro mutex.guards_start) (auto simp: dl_init_def mutex_new_def holds_def split: mutex_id.splits)
  then show ?thesis by (simp add: dl_inv_def dl_init_def)
qed

text \<open>
  What one statement of a worker does to the mutexes and the output, in terms of who holds
  what afterwards.
\<close>

lemma first_second: "first t \<noteq> second t" "m \<noteq> first t \<longleftrightarrow> m = second t"
  by (cases t; cases m; simp)+

lemma worker_guards:
  assumes g: "\<And>m. mutex.guards (mtx s m) (\<lambda>u. holds m u (tpc s u))"
    and p: "tpc s t < 9" and e: "exec_stmt (closure t ! tpc s t) s = Some s'"
  shows "mutex.guards (mtx s' m) (\<lambda>u. holds m u (((tpc s)(t := Suc (tpc s t))) u))"
proof -
  let ?p = "tpc s t"
  let ?h' = "\<lambda>m u. holds m u (((tpc s)(t := Suc ?p)) u)"
  consider "?p = 1" | "?p = 5" | "?p = 7" | "?p = 8" | "?p = 3" | "?p \<in> {0, 2, 4, 6}"
    using p unfolding less9 by auto
  then show ?thesis
  proof cases
    case 1
    then obtain m' where m': "mutex_try_lock (mtx s (first t)) = Some m'"
        and s': "s' = s\<lparr>mtx := (mtx s)(first t := m')\<rparr>"
      using e closure_nth(1) [of 1 t] by auto
    show ?thesis
    proof (cases "m = first t")
      case True
      then show ?thesis
        using s' 1
        by (simp, intro mutex.guards_enter [OF g m', of _ t]) (auto simp: holds_def)
    next
      case False
      then show ?thesis
        using s' 1 by (simp, intro mutex.guards_cong [OF g]) (auto simp: holds_def)
    qed
  next
    case 2
    then obtain m' where m': "mutex_try_lock (mtx s (second t)) = Some m'"
        and s': "s' = s\<lparr>mtx := (mtx s)(second t := m')\<rparr>"
      using e closure_nth(1) [of 5 t] by auto
    show ?thesis
    proof (cases "m = second t")
      case True
      then show ?thesis
        using s' 2 first_second(1) [of t]
        by (simp, intro mutex.guards_enter [OF g m', of _ t]) (auto simp: holds_def)
    next
      case False
      then show ?thesis
        using s' 2 first_second(2) [of m t] by (simp, intro mutex.guards_cong [OF g]) (auto simp: holds_def)
    qed
  next
    case 3
    then have s': "s' = s\<lparr>mtx := (mtx s)(second t := mutex_unlock (mtx s (second t)))\<rparr>"
      using e closure_nth(1) [of 7 t] by auto
    show ?thesis
    proof (cases "m = second t")
      case True
      then show ?thesis
        using s' 3 first_second(1) [of t]
        by (simp, intro mutex.guards_leave [OF g, of _ t]) (auto simp: holds_def)
    next
      case False
      then show ?thesis
        using s' 3 first_second(2) [of m t] by (simp, intro mutex.guards_cong [OF g]) (auto simp: holds_def)
    qed
  next
    case 4
    then have s': "s' = s\<lparr>mtx := (mtx s)(first t := mutex_unlock (mtx s (first t)))\<rparr>"
      using e closure_nth(1) [of 8 t] by auto
    show ?thesis
    proof (cases "m = first t")
      case True
      then show ?thesis
        using s' 4 by (simp, intro mutex.guards_leave [OF g, of _ t]) (auto simp: holds_def)
    next
      case False
      then show ?thesis
        using s' 4 by (simp, intro mutex.guards_cong [OF g]) (auto simp: holds_def)
    qed
  next
    case 5
    then have "mtx s' = mtx s" using e closure_nth(1) [of 3 t] by auto
    with 5 show ?thesis by (simp, intro mutex.guards_cong [OF g]) (auto simp: holds_def)
  next
    case 6
    then have "mtx s' = mtx s" using e closure_nth(2) [of ?p t] p by auto
    with 6 show ?thesis by (simp, intro mutex.guards_cong [OF g]) (auto simp: holds_def)
  qed
qed

section \<open>Every step keeps it\<close>

lemma exec_stmt_frame:
  assumes "exec_stmt c s = Some s'"
  shows "alive s' = alive s" "mpc s' = mpc s"
    and "(\<And>l. c \<noteq> Println l) \<Longrightarrow> out s' = out s"
  using assms by (cases c; auto)+

lemma worker_out:
  assumes "p < 9" and "exec_stmt (closure t ! p) s = Some s'"
  shows "''This is not printed'' \<in> set (out s') \<longleftrightarrow> ''This is not printed'' \<in> set (out s)"
proof (cases "p \<in> {0, 2, 4, 6}")
  case True
  with closure_nth(2) [OF assms(1) True, of t] assms(2) show ?thesis by auto
next
  case False
  then have "p = 1 \<or> p = 3 \<or> p = 5 \<or> p = 7 \<or> p = 8" using assms(1) by auto
  then have "\<And>l. closure t ! p \<noteq> Println l"
    using closure_nth(1) [OF assms(1), of t] by auto
  with exec_stmt_frame(3) [OF assms(2)] show ?thesis by simp
qed

lemma dl_exec_WorkerE:
  assumes "dl_exec (Worker t) s = Some s'"
  obtains s1 where "alive s t" "tpc s t < 9" "exec_stmt (closure t ! tpc s t) s = Some s1"
    "s' = s1\<lparr>tpc := (tpc s)(t := Suc (tpc s t))\<rparr>"
  using assms by (auto split: if_splits)

lemma dl_inv_worker:
  assumes inv: "dl_inv s" and e: "dl_exec (Worker t) s = Some s'"
  shows "dl_inv s'"
proof -
  obtain s1 where a: "alive s t" and p: "tpc s t < 9"
    and x: "exec_stmt (closure t ! tpc s t) s = Some s1"
    and s': "s' = s1\<lparr>tpc := (tpc s)(t := Suc (tpc s t))\<rparr>"
    using dl_exec_WorkerE [OF e] by blast
  have "mutex.guards (mtx s1 m) (\<lambda>u. holds m u (((tpc s)(t := Suc (tpc s t))) u))" for m
    using inv by (intro worker_guards [OF _ p x]) (auto simp: dl_inv_def)
  moreover have "3 \<le> mpc s \<Longrightarrow> t \<noteq> Thread_A" "4 \<le> mpc s \<Longrightarrow> t \<noteq> Thread_B"
    using inv p by (auto simp: dl_inv_def)
  ultimately show ?thesis
    using inv a p worker_out [OF p x] exec_stmt_frame(1,2) [OF x]
    unfolding s' dl_inv_def by (simp add: thread_all) (cases t; auto)
qed

lemma dl_main_nth: "dl_main ! 0 = Spawn Thread_A" "dl_main ! 1 = Spawn Thread_B"
    "dl_main ! 2 = Join Thread_A" "dl_main ! 3 = Join Thread_B"
    "dl_main ! 4 = MainPrintln ''This is not printed''"
  by (simp_all add: dl_main_def)

lemma dl_inv_main:
  assumes inv: "dl_inv s" and e: "dl_exec Main s = Some s'"
  shows "dl_inv s'"
proof -
  have "mpc s < 5" using e by (auto split: if_splits)
  then show ?thesis
    using inv e dl_main_nth unfolding less5 dl_inv_def
    by (elim disjE) (auto simp: thread_all split: if_splits)
qed

text \<open>The statements still to execute: at most 23, and every step executes one.\<close>

definition dl_work :: "dl_state \<Rightarrow> nat" where
  "dl_work s = (9 - tpc s Thread_A) + (9 - tpc s Thread_B) + (5 - mpc s)"

lemma dl_work_exec:
  assumes "dl_exec a s = Some s'"
  shows "dl_work s' < dl_work s"
proof (cases a)
  case (Worker t)
  obtain s1 where p: "tpc s t < 9" and x: "exec_stmt (closure t ! tpc s t) s = Some s1"
    and s': "s' = s1\<lparr>tpc := (tpc s)(t := Suc (tpc s t))\<rparr>"
    using dl_exec_WorkerE [OF assms [unfolded Worker]] by blast
  show ?thesis
    using p exec_stmt_frame(2) [OF x] unfolding s' dl_work_def by (cases t) simp_all
next
  case Main
  with assms have "mpc s < 5" "mpc s' = Suc (mpc s)" and "tpc s' = tpc s"
    by (auto split: if_splits) (cases "dl_main ! mpc s"; auto split: if_splits)
  then show ?thesis by (simp add: dl_work_def)
qed

interpretation dl: step_invariant dl_init dl_step dl_inv
  by unfold_locales (metis actor.exhaust dl_inv_init dl_inv_worker dl_inv_main dl_step_def)+

interpretation dlm: step_measure dl_init dl_step dl_inv dl_work
  by unfold_locales (auto simp: dl_step_def intro: dl_work_exec)

section \<open>Where it can stop\<close>

declare dl_exec.simps [simp del]

definition stuck :: "dl_state \<Rightarrow> bool" where
  "stuck s \<longleftrightarrow> dl_exec (Worker Thread_A) s = None \<and> dl_exec (Worker Thread_B) s = None \<and>
     dl_exec Main s = None"

text \<open>Both threads hold their first mutex and wait for the other one; main waits to join.\<close>

definition deadlocked :: "dl_state \<Rightarrow> bool" where
  "deadlocked s \<longleftrightarrow> tpc s Thread_A = 5 \<and> tpc s Thread_B = 5 \<and> mpc s = 2"

definition completed :: "dl_state \<Rightarrow> bool" where
  "completed s \<longleftrightarrow> tpc s Thread_A = 9 \<and> tpc s Thread_B = 9 \<and> mpc s = 5"

lemma stuck_no_step: "stuck s \<Longrightarrow> \<not> dl_step s s'"
  unfolding stuck_def dl_step_def
  by (metis actor.exhaust option.distinct(1) thread_name.exhaust)

text \<open>A worker that cannot move waits for a mutex somebody holds, or is not running.\<close>

lemma worker_blocked:
  assumes inv: "dl_inv s" and n: "dl_exec (Worker t) s = None"
  shows "\<not> alive s t \<or> tpc s t = 9 \<or>
    (tpc s t = 1 \<and> (\<exists>u. holds (first t) u (tpc s u))) \<or>
    (tpc s t = 5 \<and> (\<exists>u. holds (second t) u (tpc s u)))"
proof (cases "alive s t \<and> tpc s t < 9")
  case False
  moreover have "tpc s t \<le> 9" using inv by (simp add: dl_inv_def)
  ultimately show ?thesis by auto
next
  case True
  then have x: "exec_stmt (closure t ! tpc s t) s = None" using n by (auto simp: dl_exec.simps)
  have g: "mutex_try_lock (mtx s m) = None \<Longrightarrow> \<exists>u. holds m u (tpc s u)" for m
    using inv mutex.guards_blocked [of "mtx s m" "\<lambda>u. holds m u (tpc s u)"] by (simp add: dl_inv_def)
  have c: "\<exists>m. closure t ! tpc s t = LockM m \<and> mutex_try_lock (mtx s m) = None"
    using x by (cases "closure t ! tpc s t") auto
  have "tpc s t \<notin> {0, 2, 4, 6}"
  proof
    assume "tpc s t \<in> {0, 2, 4, 6}"
    with closure_nth(2) [of "tpc s t" t] True c show False by fastforce
  qed
  then consider "tpc s t = 1" | "tpc s t = 3" | "tpc s t = 5" | "tpc s t = 7" | "tpc s t = 8"
    using True unfolding less9 by auto
  then show ?thesis
    using c g [of "first t"] g [of "second t"] closure_nth(1) [of 1 t] closure_nth(1) [of 3 t]
      closure_nth(1) [of 5 t] closure_nth(1) [of 7 t] closure_nth(1) [of 8 t]
    by cases auto
qed

lemma stuck_cases:
  assumes inv: "dl_inv s" and st: "stuck s"
  shows "deadlocked s \<or> completed s"
proof -
  have a: "\<not> alive s t \<or> tpc s t = 9 \<or> (tpc s t = 1 \<and> (\<exists>u. holds (first t) u (tpc s u))) \<or>
      (tpc s t = 5 \<and> (\<exists>u. holds (second t) u (tpc s u)))" for t
    using st worker_blocked [OF inv, of t] by (cases t) (simp_all add: stuck_def)
  have m: "dl_exec Main s = None" using st by (simp add: stuck_def)
  have mpc: "mpc s = 2 \<and> tpc s Thread_A \<noteq> 9 \<or> mpc s = 3 \<and> tpc s Thread_B \<noteq> 9 \<or> mpc s = 5"
  proof (cases "mpc s < 5")
    case False
    then show ?thesis using inv by (simp add: dl_inv_def)
  next
    case True
    then show ?thesis
      using m dl_main_nth unfolding less5 by (elim disjE) (auto simp: dl_exec.simps split: if_splits)
  qed
  have al: "alive s Thread_A" "alive s Thread_B" using mpc inv by (auto simp: dl_inv_def)
  have ex: "(\<exists>u. Q u) \<longleftrightarrow> Q Thread_A \<or> Q Thread_B" for Q
    using enum_ex_UNIV [of Q] unfolding enum_ex_thread_name_def by simp
  define p q n where "p = tpc s Thread_A" and "q = tpc s Thread_B" and "n = mpc s"
  have A: "p = 9 \<or> p = 1 \<and> 6 \<le> q \<and> q < 8 \<or> p = 5 \<and> 2 \<le> q \<and> q < 9"
    using a [of Thread_A] al unfolding ex by (auto simp: holds_def p_def q_def)
  have B: "q = 9 \<or> q = 1 \<and> 6 \<le> p \<and> p < 8 \<or> q = 5 \<and> 2 \<le> p \<and> p < 9"
    using a [of Thread_B] al unfolding ex by (auto simp: holds_def p_def q_def)
  have "3 \<le> n \<longrightarrow> p = 9" "4 \<le> n \<longrightarrow> q = 9" using inv by (simp_all add: dl_inv_def p_def q_def n_def)
  with mpc A B show ?thesis
    unfolding deadlocked_def completed_def p_def [symmetric] q_def [symmetric] n_def [symmetric]
    by presburger
qed

text \<open>Both threads have their first mutex and neither has its second.\<close>

definition committed :: "dl_state \<Rightarrow> bool" where
  "committed s \<longleftrightarrow> (\<forall>t. 2 \<le> tpc s t \<and> tpc s t \<le> 5)"

lemma committed_worker:
  assumes inv: "dl_inv s" and c: "committed s" and e: "dl_exec (Worker t) s = Some s'"
  shows "committed s'"
proof -
  obtain s1 where x: "exec_stmt (closure t ! tpc s t) s = Some s1"
    and s': "s' = s1\<lparr>tpc := (tpc s)(t := Suc (tpc s t))\<rparr>"
    using dl_exec_WorkerE [OF e] by blast
  have "tpc s t \<noteq> 5"
  proof
    assume 5: "tpc s t = 5"
    then obtain m' where "mutex_try_lock (mtx s (second t)) = Some m'"
      using x closure_nth(1) [of 5 t] by auto
    moreover have "holds (second t) (if t = Thread_A then Thread_B else Thread_A)
        (tpc s (if t = Thread_A then Thread_B else Thread_A))"
      using c by (cases t) (simp_all add: committed_def holds_def thread_all)
    ultimately show False
      using inv mutex.guards_try_free [of "mtx s (second t)" "\<lambda>u. holds (second t) u (tpc s u)"]
      by (auto simp: dl_inv_def)
  qed
  moreover have "tpc s t \<le> 5" "2 \<le> tpc s t" using c by (simp_all add: committed_def)
  ultimately have "2 \<le> Suc (tpc s t)" "Suc (tpc s t) \<le> 5" by auto
  with c show ?thesis unfolding s' by (simp add: committed_def)
qed

lemma committed_main:
  assumes "committed s" and "dl_exec Main s = Some s'"
  shows "committed s'"
proof -
  have "tpc s' = tpc s"
    using assms(2) by (auto simp: dl_exec.simps split: if_splits)
      (cases "dl_main ! mpc s"; auto split: if_splits)
  with assms(1) show ?thesis by (simp add: committed_def)
qed

lemma committed_steps:
  assumes "dl_step\<^sup>*\<^sup>* s s'" and "dl_inv s" and "committed s"
  shows "committed s'"
  using assms
proof (induction rule: rtranclp_induct)
  case base
  then show ?case by simp
next
  case (step u v)
  then have "dl_inv u" "committed u" using dl.inv_steps by auto
  with step.hyps(2) show ?case
    unfolding dl_step_def by (metis actor.exhaust committed_main committed_worker)
qed

section \<open>Properties\<close>

text \<open>
  The schedule in which each thread takes its first mutex before the other takes its second,
  and one in which thread A is done before thread B starts.
\<close>

definition deadlock_schedule :: "actor list" where
  "deadlock_schedule = [Main, Main] @ replicate 5 (Worker Thread_A) @ replicate 5 (Worker Thread_B)"

definition lucky_schedule :: "actor list" where
  "lucky_schedule = [Main, Main] @ replicate 9 (Worker Thread_A) @ replicate 9 (Worker Thread_B) @
     replicate 3 Main"

lemmas dl_eval = dl_exec.simps dl_main_def thread_a_def thread_b_def dl_init_def mutex_new_def
  mutex_try_lock_def mutex_unlock_def numeral_eq_Suc

lemma deadlock_run:
  "\<exists>s. dl_run deadlock_schedule dl_init = Some s \<and> deadlocked s \<and>
     locked (mtx s MUTEX_A) \<and> locked (mtx s MUTEX_B)"
  by (simp add: deadlock_schedule_def deadlocked_def dl_eval)

lemma lucky_run: "\<exists>s. dl_run lucky_schedule dl_init = Some s \<and> completed s"
  by (simp add: lucky_schedule_def completed_def dl_eval)

lemma deadlocked_stuck:
  assumes inv: "dl_inv s" and d: "deadlocked s"
  shows "stuck s"
proof -
  have "holds MUTEX_A Thread_A (tpc s Thread_A)" "holds MUTEX_B Thread_B (tpc s Thread_B)"
    using d by (simp_all add: deadlocked_def holds_def)
  then have "mutex_try_lock (mtx s m) = None" for m
    using inv mutex.guards_blocked [of "mtx s m" "\<lambda>u. holds m u (tpc s u)"]
    by (cases m) (auto simp: dl_inv_def)
  with d closure_nth(1) [of 5 Thread_A] closure_nth(1) [of 5 Thread_B] dl_main_nth show ?thesis
    by (simp add: stuck_def deadlocked_def dl_exec.simps)
qed

text \<open>
  C19: The program can deadlock. There is an interleaving after which both threads hold
  their first mutex and wait for the other one, main waits to join thread A, nothing can ever
  take a step again, and the last line has not been printed.
\<close>

theorem deadlock_reachable:
  "\<exists>s. reach dl_init dl_step s \<and> deadlocked s \<and> (\<forall>s'. \<not> dl_step s s') \<and>
     locked (mtx s MUTEX_A) \<and> locked (mtx s MUTEX_B) \<and>
     ''This is not printed'' \<notin> set (out s)"
proof -
  obtain s where r: "dl_run deadlock_schedule dl_init = Some s"
    and s: "deadlocked s" "locked (mtx s MUTEX_A)" "locked (mtx s MUTEX_B)"
    using deadlock_run by blast
  have re: "reach dl_init dl_step s" by (rule dl_run_reach [OF reach_start r])
  then have inv: "dl_inv s" by (rule dl.inv_reach)
  with s(1) have "''This is not printed'' \<notin> set (out s)" by (auto simp: dl_inv_def deadlocked_def)
  with re s stuck_no_step [OF deadlocked_stuck [OF inv s(1)]] show ?thesis by blast
qed

text \<open>
  C26: The deadlock is the only way to hang. Every execution stops within 23 steps, and a
  state in which it has stopped is either the deadlock, with the last line not printed, or
  the completed program, with both mutexes free and the last line printed.
\<close>

theorem deadlock_or_completes:
  assumes "reach dl_init dl_step s"
  shows "(\<forall>n s'. (dl_step ^^ n) s s' \<longrightarrow> n \<le> 23) \<and>
    (stuck s \<longrightarrow>
       deadlocked s \<and> ''This is not printed'' \<notin> set (out s) \<or>
       completed s \<and> ''This is not printed'' \<in> set (out s) \<and> (\<forall>m. \<not> locked (mtx s m)))"
proof -
  have inv: "dl_inv s" using dl.inv_reach [OF assms] .
  have "dl_work s \<le> 23" by (simp add: dl_work_def)
  moreover have "completed s \<Longrightarrow> \<not> locked (mtx s m)" for m
    using inv mutex.guards_def [of "mtx s m" "\<lambda>u. holds m u (tpc s u)"]
    by (auto simp: dl_inv_def completed_def holds_def thread_all)
  moreover have "''This is not printed'' \<in> set (out s) \<longleftrightarrow> mpc s = 5" using inv by (simp add: dl_inv_def)
  ultimately show ?thesis
    using dlm.run_bounded [OF inv] stuck_cases [OF inv]
    by (fastforce simp: deadlocked_def completed_def)
qed

lemma deadlock_or_completes_witness:
  "\<exists>s. reach dl_init dl_step s \<and> completed s \<and> \<not> locked (mtx s MUTEX_A)"
proof -
  obtain s where r: "dl_run lucky_schedule dl_init = Some s" and c: "completed s"
    using lucky_run by blast
  have re: "reach dl_init dl_step s" by (rule dl_run_reach [OF reach_start r])
  have "\<not> deadlocked s" using c by (simp add: completed_def deadlocked_def)
  moreover have "stuck s"
    using c by (simp add: stuck_def completed_def dl_exec.simps)
  ultimately show ?thesis using deadlock_or_completes [OF re] c re by blast
qed

text \<open>
  The fate of the last line. The program can also run to its end and print the line that
  says it is not printed. Once both threads hold their first mutex and neither its second,
  no execution prints it any more: the deadlock is then unavoidable.
\<close>

theorem last_line_fate:
  "(\<exists>s. reach dl_init dl_step s \<and> ''This is not printed'' \<in> set (out s)) \<and>
   (\<forall>s s'. reach dl_init dl_step s \<longrightarrow> committed s \<longrightarrow> dl_step\<^sup>*\<^sup>* s s' \<longrightarrow>
      ''This is not printed'' \<notin> set (out s') \<and> (stuck s' \<longrightarrow> deadlocked s'))"
proof (intro conjI allI impI)
  obtain s where r: "dl_run lucky_schedule dl_init = Some s" and c: "completed s"
    using lucky_run by blast
  have "reach dl_init dl_step s" by (rule dl_run_reach [OF reach_start r])
  with dl.inv_reach [OF this] c
  show "\<exists>s. reach dl_init dl_step s \<and> ''This is not printed'' \<in> set (out s)"
    by (auto simp: dl_inv_def completed_def)
next
  fix s s'
  assume "reach dl_init dl_step s" and c: "committed s" and r: "dl_step\<^sup>*\<^sup>* s s'"
  then have inv: "dl_inv s" "dl_inv s'" using dl.inv_reach dl.inv_steps by blast+
  have c': "committed s'" by (rule committed_steps [OF r inv(1) c])
  with inv(2) show "''This is not printed'' \<notin> set (out s')"
    by (auto simp: dl_inv_def committed_def thread_all)
  assume "stuck s'"
  with stuck_cases [OF inv(2)] c' show "deadlocked s'"
    by (auto simp: completed_def committed_def thread_all)
qed

lemma last_line_fate_witness:
  "\<exists>s. reach dl_init dl_step s \<and> committed s \<and> ''This is not printed'' \<notin> set (out s)"
proof -
  obtain s where r: "dl_run deadlock_schedule dl_init = Some s" and d: "deadlocked s"
    using deadlock_run by blast
  have re: "reach dl_init dl_step s" by (rule dl_run_reach [OF reach_start r])
  have c: "committed s" using d by (simp add: committed_def deadlocked_def thread_all)
  with last_line_fate [THEN conjunct2, rule_format, OF re c rtranclp.rtrancl_refl] re
  show ?thesis by blast
qed

end
