(* ===== verification/Epoll.thy ===== *)
theory Epoll
  imports Memory "HOL-Library.Multiset"
begin

text \<open>
  The event queue of \<^verbatim>\<open>minimio\<close> (\<^verbatim>\<open>lib.rs\<close> and \<^verbatim>\<open>linux.rs\<close>): interests, the event record the
  kernel fills in, the five checked wrappers of the C library's calls, \<open>Registrator\<close> and
  \<open>Selector\<close>. The kernel is not part of the sources: its calls are the fields of \<open>libc\<close>, a
  parameter of every operation, each mapping a kernel state to a return value and the next
  state.
\<close>

section \<open>Interests (lib.rs)\<close>

definition WRITABLE :: u8 where "WRITABLE = 1"
definition READABLE :: u8 where "READABLE = 2"

datatype Interests = Interests u8

definition Interests_READABLE :: Interests where "Interests_READABLE = Interests READABLE"
definition Interests_WRITABLE :: Interests where "Interests_WRITABLE = Interests WRITABLE"

fun is_readable :: "Interests \<Rightarrow> bool" where
  "is_readable (Interests b) = (b AND READABLE \<noteq> 0)"

fun is_writable :: "Interests \<Rightarrow> bool" where
  "is_writable (Interests b) = (b AND WRITABLE \<noteq> 0)"

lemma interests_simps [simp]:
  "is_readable Interests_READABLE" "\<not> is_writable Interests_READABLE"
  "is_writable Interests_WRITABLE" "\<not> is_readable Interests_WRITABLE"
  by (simp_all add: Interests_READABLE_def Interests_WRITABLE_def READABLE_def WRITABLE_def)

section \<open>Events\<close>

definition EPOLL_CTL_ADD :: i32 where "EPOLL_CTL_ADD = 1"
definition EPOLL_CTL_DEL :: i32 where "EPOLL_CTL_DEL = 2"
definition EPOLLIN :: i32 where "EPOLLIN = 1"
definition EPOLLONESHOT :: i32 where "EPOLLONESHOT = 0x40000000"

text \<open>\<open>#[repr(C, packed)] struct Event\<close>: a \<open>u32\<close> at offset 0, a \<open>usize\<close> at offset 4.\<close>

record Event =
  events :: u32
  epoll_data :: u64

definition Event_new :: "i32 \<Rightarrow> u64 \<Rightarrow> Event" where
  "Event_new evs token = \<lparr>events = evs, epoll_data = token\<rparr>"

definition Event_data :: "Event \<Rightarrow> u64" where
  "Event_data e = epoll_data e"

definition EVENT_SIZE :: nat where "EVENT_SIZE = 12"

definition event_bytes :: "Event \<Rightarrow> u8 list" where
  "event_bytes e = le_bytes 4 (events e) @ le_bytes 8 (epoll_data e)"

definition event_of_bytes :: "u8 list \<Rightarrow> Event" where
  "event_of_bytes bs = \<lparr>events = of_le_bytes (take 4 bs), epoll_data = of_le_bytes (drop 4 bs)\<rparr>"

lemma length_event_bytes [simp]: "length (event_bytes e) = EVENT_SIZE"
  by (simp add: event_bytes_def EVENT_SIZE_def)

lemma event_of_bytes_event_bytes [simp]: "event_of_bytes (event_bytes e) = e"
  by (simp add: event_of_bytes_def event_bytes_def of_le_bytes_le_bytes)

section \<open>A vector of events\<close>

text \<open>
  \<open>Vec<Event>\<close>: its heap buffer (12 bytes for each element of the capacity) and its length.
  Bytes the kernel has not written are taken to be zero; the theorems read written events only.
\<close>

record event_vec =
  vec_mem :: mem_block
  vec_len :: nat

type_synonym Events = event_vec
type_synonym Token = u64

definition vec_ptr :: "event_vec \<Rightarrow> nat" where
  "vec_ptr v = blk_base (vec_mem v)"

definition vec_cap :: "event_vec \<Rightarrow> nat" where
  "vec_cap v = length (blk_data (vec_mem v)) div EVENT_SIZE"

definition vec_with_capacity :: "nat \<Rightarrow> nat \<Rightarrow> event_vec" where
  "vec_with_capacity base n =
     \<lparr>vec_mem = \<lparr>blk_base = base, blk_data = replicate (EVENT_SIZE * n) 0\<rparr>, vec_len = 0\<rparr>"

definition vec_clear :: "event_vec \<Rightarrow> event_vec" where
  "vec_clear v = v\<lparr>vec_len := 0\<rparr>"

text \<open>\<open>Vec::set_len\<close> is unsafe: the new length must not exceed the capacity.\<close>

definition vec_set_len :: "nat \<Rightarrow> event_vec \<Rightarrow> event_vec outcome" where
  "vec_set_len n v =
     (if n \<le> vec_cap v then Inr (v\<lparr>vec_len := n\<rparr>) else Inl (UB ''set_len beyond the capacity''))"

definition vec_get :: "event_vec \<Rightarrow> nat \<Rightarrow> Event outcome" where
  "vec_get v i =
     (if i < vec_len v
      then obind (load_bytes load8 (vec_mem v) (vec_ptr v + EVENT_SIZE * i) EVENT_SIZE)
             (\<lambda>bs. Inr (event_of_bytes bs))
      else Inl (Panic ''index out of bounds''))"

text \<open>The kernel writes an array of events at a user address.\<close>

definition write_events :: "Event list \<Rightarrow> event_vec \<Rightarrow> event_vec outcome" where
  "write_events evs v =
     obind (store_bytes store8 (vec_mem v) (vec_ptr v) (concat (map event_bytes evs)))
       (\<lambda>m. Inr (v\<lparr>vec_mem := m\<rparr>))"

lemma length_concat_events [simp]:
  "length (concat (map event_bytes evs)) = EVENT_SIZE * length evs"
  by (induction evs) simp_all

lemma write_events_len:
  "write_events evs v = Inr v' \<Longrightarrow> vec_len v' = vec_len v \<and> vec_cap v' = vec_cap v \<and> vec_ptr v' = vec_ptr v"
  unfolding write_events_def
  by (auto simp: obind_eq_Inr vec_cap_def vec_ptr_def dest: store_bytes_base)

lemma events_fit: "EVENT_SIZE * n \<le> length (blk_data (vec_mem v)) \<longleftrightarrow> n \<le> vec_cap v"
  unfolding vec_cap_def EVENT_SIZE_def by (simp add: less_eq_div_iff_mult_less_eq mult.commute)

text \<open>The write is inside the buffer exactly when the events fit into the capacity.\<close>

lemma write_events_ok:
  assumes "length evs \<le> vec_cap v"
  shows "\<exists>v'. write_events evs v = Inr v'"
proof -
  have "EVENT_SIZE * length evs \<le> length (blk_data (vec_mem v))"
    using assms by (simp add: events_fit)
  then have "\<exists>m. store_bytes store8 (vec_mem v) (vec_ptr v) (concat (map event_bytes evs)) = Inr m"
    by (intro blk.store_bytes_ok) (simp add: blk_mapped_def blk_end_def vec_ptr_def)
  then show ?thesis by (auto simp: write_events_def)
qed

lemma write_events_fits:
  assumes "write_events evs v = Inr v'"
  shows "length evs \<le> vec_cap v"
proof (cases "EVENT_SIZE * length evs")
  case 0
  then show ?thesis by (simp add: EVENT_SIZE_def)
next
  case (Suc k)
  from assms obtain m where
    m: "store_bytes store8 (vec_mem v) (vec_ptr v) (concat (map event_bytes evs)) = Inr m"
    by (auto simp: write_events_def obind_eq_Inr)
  have "blk_mapped (vec_mem v) (vec_ptr v + k)"
    by (rule blk.store_bytes_in_bounds [OF m]) (use Suc in simp)
  with Suc have "EVENT_SIZE * length evs \<le> length (blk_data (vec_mem v))"
    by (simp add: blk_mapped_def blk_end_def vec_ptr_def)
  then show ?thesis by (simp add: events_fit)
qed

lemma read_event:
  assumes "load_bytes load8 m a (EVENT_SIZE * length evs) = Inr (concat (map event_bytes evs))"
    and "i < length evs"
  shows "load_bytes load8 m (a + EVENT_SIZE * i) EVENT_SIZE = Inr (event_bytes (evs ! i))"
  using assms
proof (induction evs arbitrary: a i)
  case Nil
  then show ?case by simp
next
  case (Cons e evs)
  have "load_bytes load8 m a (EVENT_SIZE + EVENT_SIZE * length evs) =
      Inr (event_bytes e @ concat (map event_bytes evs))"
    using Cons.prems(1) by simp
  then obtain xs ys where "load_bytes load8 m a EVENT_SIZE = Inr xs"
      "load_bytes load8 m (a + EVENT_SIZE) (EVENT_SIZE * length evs) = Inr ys"
      "xs @ ys = event_bytes e @ concat (map event_bytes evs)"
    unfolding load_bytes_append by (auto simp: obind_eq_Inr)
  moreover from this have "length xs = length (event_bytes e)"
    by (simp add: length_load_bytes)
  ultimately have e: "load_bytes load8 m a EVENT_SIZE = Inr (event_bytes e)"
    and r: "load_bytes load8 m (a + EVENT_SIZE) (EVENT_SIZE * length evs) =
        Inr (concat (map event_bytes evs))" by auto
  show ?case
  proof (cases i)
    case 0
    with e show ?thesis by simp
  next
    case (Suc j)
    with Cons.IH [OF r, of j] Cons.prems(2) show ?thesis by (simp add: algebra_simps)
  qed
qed

lemma vec_get_written:
  assumes w: "write_events evs v = Inr v'" and i: "i < length evs" and l: "vec_len v'' = length evs"
    and m: "vec_mem v'' = vec_mem v'"
  shows "vec_get v'' i = Inr (evs ! i)"
proof -
  from w obtain m' where
    "store_bytes store8 (vec_mem v) (vec_ptr v) (concat (map event_bytes evs)) = Inr m'"
    and v': "v' = v\<lparr>vec_mem := m'\<rparr>" by (auto simp: write_events_def obind_eq_Inr)
  then have "load_bytes load8 m' (vec_ptr v) (EVENT_SIZE * length evs) = Inr (concat (map event_bytes evs))"
    using blk.load_store_bytes by fastforce
  from read_event [OF this i] show ?thesis
    using l i m v' write_events_len [OF w] by (simp add: vec_get_def vec_ptr_def)
qed

section \<open>The C library's calls and their wrappers\<close>

text \<open>
  \<open>sys_epoll_wait\<close> also returns the events the kernel writes through the pointer it was
  given. \<open>last_errno\<close> is the error number that \<open>std::io::Error::last_os_error\<close> reads.
\<close>

record 'k libc =
  sys_epoll_create :: "i32 \<Rightarrow> 'k \<Rightarrow> i32 \<times> 'k"
  sys_close :: "i32 \<Rightarrow> 'k \<Rightarrow> i32 \<times> 'k"
  sys_epoll_ctl :: "i32 \<Rightarrow> i32 \<Rightarrow> i32 \<Rightarrow> Event \<Rightarrow> 'k \<Rightarrow> i32 \<times> 'k"
  sys_epoll_wait :: "i32 \<Rightarrow> i32 \<Rightarrow> i32 \<Rightarrow> 'k \<Rightarrow> (i32 \<times> Event list) \<times> 'k"
  sys_eventfd :: "u32 \<Rightarrow> i32 \<Rightarrow> 'k \<Rightarrow> i32 \<times> 'k"
  last_errno :: "'k \<Rightarrow> i32"

type_synonym 'a io_result = "i32 + 'a"

definition epoll_create :: "'k libc \<Rightarrow> 'k \<Rightarrow> i32 io_result \<times> 'k" where
  "epoll_create L k =
     (let (ret, k') = sys_epoll_create L 1 k
      in (if sint ret < 0 then Inl (last_errno L k') else Inr ret, k'))"

definition epoll_ctl :: "'k libc \<Rightarrow> i32 \<Rightarrow> i32 \<Rightarrow> i32 \<Rightarrow> Event \<Rightarrow> 'k \<Rightarrow> unit io_result \<times> 'k" where
  "epoll_ctl L epfd opn fd ev k =
     (let (ret, k') = sys_epoll_ctl L epfd opn fd ev k
      in (if sint ret < 0 then Inl (last_errno L k') else Inr (), k'))"

definition close_fd :: "'k libc \<Rightarrow> i32 \<Rightarrow> 'k \<Rightarrow> i32 io_result \<times> 'k" where
  "close_fd L fd k =
     (let (ret, k') = sys_close L fd k
      in (if sint ret < 0 then Inl (last_errno L k') else Inr ret, k'))"

definition eventfd :: "'k libc \<Rightarrow> u32 \<Rightarrow> i32 \<Rightarrow> 'k \<Rightarrow> i32 io_result \<times> 'k" where
  "eventfd L initva flags k =
     (let (ret, k') = sys_eventfd L initva flags k
      in (if sint ret < 0 then Inl (last_errno L k') else Inr ret, k'))"

text \<open>
  \<open>epoll_wait\<close> passes the pointer of the slice it is given, not its length: what the kernel
  writes goes to the buffer of the vector.
\<close>

definition epoll_wait ::
    "'k libc \<Rightarrow> i32 \<Rightarrow> event_vec \<Rightarrow> i32 \<Rightarrow> i32 \<Rightarrow> 'k \<Rightarrow> (i32 io_result \<times> event_vec \<times> 'k) outcome" where
  "epoll_wait L epfd v maxevents timeout k =
     (let ((ret, evs), k') = sys_epoll_wait L epfd maxevents timeout k
      in obind (write_events evs v)
           (\<lambda>v'. Inr (if sint ret < 0 then Inl (last_errno L k') else Inr ret, v', k')))"

text \<open>
  What the four scalar wrappers have in common: the call is made once, its state change is
  kept, and the sign of what it returns decides between the error number and a value.
\<close>

locale checked_call =
  fixes call :: "'k \<Rightarrow> i32 \<times> 'k"
    and errno :: "'k \<Rightarrow> i32"
    and val :: "i32 \<Rightarrow> 'a"
    and wrapper :: "'k \<Rightarrow> 'a io_result \<times> 'k"
  assumes wrapper_eq: "wrapper k =
    (if sint (fst (call k)) < 0 then Inl (errno (snd (call k))) else Inr (val (fst (call k))), snd (call k))"
begin

lemma wrapper_state: "snd (wrapper k) = snd (call k)"
  by (simp add: wrapper_eq)

lemma wrapper_Ok: "fst (wrapper k) = Inr a \<longleftrightarrow> 0 \<le> sint (fst (call k)) \<and> a = val (fst (call k))"
  by (auto simp: wrapper_eq)

lemma wrapper_Err: "fst (wrapper k) = Inl e \<longleftrightarrow> sint (fst (call k)) < 0 \<and> e = errno (snd (wrapper k))"
  by (auto simp: wrapper_eq)

lemma wrapper_cases:
  obtains k' a r where "wrapper k = (Inr a, k')" "call k = (r, k')" "0 \<le> sint r" "a = val r"
  | k' r where "wrapper k = (Inl (errno k'), k')" "call k = (r, k')" "sint r < 0"
  using wrapper_eq [of k] by (cases "call k") (auto split: if_splits)

end

interpretation create: checked_call "sys_epoll_create L 1" "last_errno L" "\<lambda>r. r" "epoll_create L" for L
  by unfold_locales (simp add: epoll_create_def split_beta Let_def)

interpretation ctl: checked_call "sys_epoll_ctl L epfd opn fd ev" "last_errno L" "\<lambda>_. ()"
    "epoll_ctl L epfd opn fd ev" for L epfd opn fd ev
  by unfold_locales (simp add: epoll_ctl_def split_beta Let_def)

interpretation closing: checked_call "sys_close L fd" "last_errno L" "\<lambda>r. r" "close_fd L fd" for L fd
  by unfold_locales (simp add: close_fd_def split_beta Let_def)

interpretation evfd: checked_call "sys_eventfd L initva flags" "last_errno L" "\<lambda>r. r"
    "eventfd L initva flags" for L initva flags
  by unfold_locales (simp add: eventfd_def split_beta Let_def)

section \<open>Registrator and Selector\<close>

record Registrator = reg_fd :: i32

record Selector = sel_fd :: i32

text \<open>The stream is the raw file descriptor \<open>as_raw_fd\<close> gives.\<close>

definition register_writable :: "Interests \<Rightarrow> 'k \<Rightarrow> (unit io_result \<times> 'k) outcome" where
  "register_writable interest k =
     (if is_writable interest then Inl (Panic ''not implemented'') else Inr (Inr (), k))"

definition register ::
    "'k libc \<Rightarrow> Registrator \<Rightarrow> i32 \<Rightarrow> u64 \<Rightarrow> Interests \<Rightarrow> 'k \<Rightarrow> (unit io_result \<times> 'k) outcome" where
  "register L r stream_fd token interest k =
     (if is_readable interest
      then case epoll_ctl L (reg_fd r) EPOLL_CTL_ADD stream_fd
                  (Event_new (EPOLLIN OR EPOLLONESHOT) token) k of
             (Inl e, k') \<Rightarrow> Inr (Inl e, k')
           | (Inr _, k') \<Rightarrow> register_writable interest k'
      else register_writable interest k)"

definition Selector_new :: "'k libc \<Rightarrow> 'k \<Rightarrow> Selector io_result \<times> 'k" where
  "Selector_new L k =
     (case epoll_create L k of
        (Inl e, k') \<Rightarrow> (Inl e, k')
      | (Inr fd, k') \<Rightarrow> (Inr \<lparr>sel_fd = fd\<rparr>, k'))"

definition select ::
    "'k libc \<Rightarrow> Selector \<Rightarrow> event_vec \<Rightarrow> i32 option \<Rightarrow> 'k \<Rightarrow> (unit io_result \<times> event_vec \<times> 'k) outcome" where
  "select L s v timeout_ms k =
     (let v0 = vec_clear v;
          timeout = (case timeout_ms of None \<Rightarrow> - 1 | Some t \<Rightarrow> t)
      in obind (epoll_wait L (sel_fd s) v0 1024 timeout k)
           (\<lambda>(r, v', k'). case r of
              Inl e \<Rightarrow> Inr (Inl e, v', k')
            | Inr n \<Rightarrow> obind (vec_set_len (unat (scast n :: u64)) v') (\<lambda>v''. Inr (Inr (), v'', k'))))"

text \<open>
  The documented behaviour of \<open>epoll_wait(2)\<close> the code relies on: on success as many events
  as it returns have been written, at most \<open>maxevents\<close>; on failure none.
\<close>

definition wait_contract :: "'k libc \<Rightarrow> bool" where
  "wait_contract L \<longleftrightarrow> (\<forall>epfd maxevents timeout k ret evs k'.
     sys_epoll_wait L epfd maxevents timeout k = ((ret, evs), k') \<longrightarrow>
       (if sint ret < 0 then evs = []
        else int (length evs) = sint ret \<and> sint ret \<le> sint maxevents))"

lemma wait_contractD:
  assumes "wait_contract L" and "sys_epoll_wait L epfd maxevents timeout k = ((ret, evs), k')"
  shows "sint ret < 0 \<Longrightarrow> evs = []"
    and "0 \<le> sint ret \<Longrightarrow> int (length evs) = sint ret \<and> sint ret \<le> sint maxevents"
  using assms unfolding wait_contract_def by (metis linorder_not_less)+

lemma usize_of_ret:
  fixes r :: i32
  assumes "0 \<le> sint r"
  shows "unat (scast r :: u64) = nat (sint r)"
proof -
  have "sint r < 2 ^ 31" using sint_lt [of r] by simp
  then have "uint (scast r :: u64) = sint r"
    using assms by (simp only: scast_eq uint_word_of_int) simp
  then show ?thesis by (simp flip: nat_uint_eq)
qed

lemma store_bytes_fault:
  assumes "store_bytes store8 m a bs = Inl e"
  shows "e = UB ''write outside the allocation''"
  using assms by (induction bs arbitrary: m a) (auto simp: obind_eq_Inl store8_def split: if_splits)

lemma select_returns:
  assumes w: "sys_epoll_wait L (sel_fd s) 1024 (case t of None \<Rightarrow> - 1 | Some t \<Rightarrow> t) k = ((ret, evs), k')"
    and c: "wait_contract L" and fit: "length evs \<le> vec_cap v"
  shows "\<exists>r v'. select L s v t k = Inr (r, v', k') \<and>
    (if sint ret < 0 then r = Inl (last_errno L k') \<and> vec_len v' = 0
     else r = Inr () \<and> vec_len v' = length evs \<and> int (length evs) = sint ret \<and>
       (\<forall>i < length evs. vec_get v' i = Inr (evs ! i)))"
proof -
  have "length evs \<le> vec_cap (vec_clear v)" using fit by (simp add: vec_clear_def vec_cap_def)
  then obtain v1 where v1: "write_events evs (vec_clear v) = Inr v1"
    using write_events_ok by blast
  have l: "vec_len v1 = 0" "vec_cap v1 = vec_cap v"
    using write_events_len [OF v1] by (simp_all add: vec_clear_def vec_cap_def)
  show ?thesis
  proof (cases "sint ret < 0")
    case True
    with w v1 l show ?thesis by (simp add: select_def epoll_wait_def)
  next
    case False
    then have n: "int (length evs) = sint ret" using wait_contractD [OF c w] by simp
    then have u: "unat (scast ret :: u64) = length evs" using usize_of_ret [of ret] by simp
    have "vec_get (v1\<lparr>vec_len := length evs\<rparr>) i = Inr (evs ! i)" if "i < length evs" for i
      by (rule vec_get_written [OF v1 that]) simp_all
    with False w v1 l fit n u show ?thesis
      by (simp add: select_def epoll_wait_def vec_set_len_def)
  qed
qed

lemma select_overflows:
  assumes "sys_epoll_wait L (sel_fd s) 1024 (case t of None \<Rightarrow> - 1 | Some t \<Rightarrow> t) k = ((ret, evs), k')"
    and "vec_cap v < length evs"
  shows "select L s v t k = Inl (UB ''write outside the allocation'')"
proof -
  have "vec_cap (vec_clear v) < length evs" using assms(2) by (simp add: vec_clear_def vec_cap_def)
  then obtain e where e: "write_events evs (vec_clear v) = Inl e"
    using write_events_fits [of evs "vec_clear v"] by (cases "write_events evs (vec_clear v)") auto
  then have "e = UB ''write outside the allocation''"
    by (auto simp: write_events_def obind_eq_Inl dest: store_bytes_fault)
  with e assms(1) show ?thesis by (simp add: select_def epoll_wait_def)
qed

text \<open>
  The documented behaviour of one-shot registrations. \<open>armed k q\<close> has, for the epoll instance
  \<open>q\<close>, the descriptor and the token of each registration that has not been reported. A
  successful addition adds one to the instance it names, for the descriptor it names; a wait
  that returns without an error reports some of its own instance, which are disabled by that,
  and at least one if it has no timeout; the other instances and calls that fail change nothing.
  A wait that blocks for ever has no result: the contract speaks of the calls that return.
\<close>

type_synonym registrations = "i32 \<Rightarrow> (i32 \<times> u64) multiset"

definition oneshot_epoll :: "('k, 'x) libc_scheme \<Rightarrow> ('k \<Rightarrow> registrations) \<Rightarrow> bool" where
  "oneshot_epoll L armed \<longleftrightarrow>
     (\<forall>q fd x k ret k'. sys_epoll_ctl L q EPOLL_CTL_ADD fd (Event_new (EPOLLIN OR EPOLLONESHOT) x) k = (ret, k') \<longrightarrow>
        armed k' = (if sint ret < 0 then armed k
                    else (armed k)(q := add_mset (fd, x) (armed k q)))) \<and>
     (\<forall>q n t k ret evs k'. sys_epoll_wait L q n t k = ((ret, evs), k') \<longrightarrow>
        (if sint ret < 0 then evs = [] \<and> armed k' = armed k
         else int (length evs) = sint ret \<and> sint ret \<le> sint n \<and> (t = - 1 \<longrightarrow> 0 < sint ret) \<and>
           (\<exists>gone. armed k = (armed k')(q := gone + armed k' q) \<and>
              mset (map epoll_data evs) = image_mset snd gone)))"

lemma oneshot_epoll_add:
  assumes "oneshot_epoll L armed"
    and "sys_epoll_ctl L q EPOLL_CTL_ADD fd (Event_new (EPOLLIN OR EPOLLONESHOT) x) k = (ret, k')"
  shows "armed k' = (if sint ret < 0 then armed k else (armed k)(q := add_mset (fd, x) (armed k q)))"
  using assms unfolding oneshot_epoll_def by blast

lemma oneshot_epoll_waited:
  assumes "oneshot_epoll L armed" and "sys_epoll_wait L q n t k = ((ret, evs), k')"
  shows "if sint ret < 0 then evs = [] \<and> armed k' = armed k
     else int (length evs) = sint ret \<and> sint ret \<le> sint n \<and> (t = - 1 \<longrightarrow> 0 < sint ret) \<and>
       (\<exists>gone. armed k = (armed k')(q := gone + armed k' q) \<and>
          mset (map epoll_data evs) = image_mset snd gone)"
  using assms unfolding oneshot_epoll_def by blast

text \<open>The tokens that wait in one instance.\<close>

definition tokens :: "('k \<Rightarrow> registrations) \<Rightarrow> i32 \<Rightarrow> 'k \<Rightarrow> u64 multiset" where
  "tokens armed q k = image_mset snd (armed k q)"

text \<open>A kernel that has \<open>n\<close> descriptors ready and keeps the contract.\<close>

definition ready_kernel :: "nat \<Rightarrow> 'k libc" where
  "ready_kernel n =
     \<lparr>sys_epoll_create = (\<lambda>_ k. (3, k)), sys_close = (\<lambda>_ k. (0, k)),
      sys_epoll_ctl = (\<lambda>_ _ _ _ k. (0, k)),
      sys_epoll_wait = (\<lambda>_ m _ k.
        let c = min n (nat (sint m))
        in if sint m \<le> 0 then ((- 1, []), k)
           else ((of_nat c, replicate c (Event_new EPOLLIN 7)), k)),
      sys_eventfd = (\<lambda>_ _ k. (4, k)), last_errno = (\<lambda>_. 22)\<rparr>"

lemma sint_of_nat_i32: "c < 2 ^ 31 \<Longrightarrow> sint (of_nat c :: i32) = int c"
  by (simp add: signed_of_nat signed_take_bit_int_eq_self)

lemma ready_kernel_contract: "wait_contract (ready_kernel n)"
proof -
  have "sint (of_nat (min n (nat (sint m))) :: i32) = int (min n (nat (sint m)))" for m :: i32
    using sint_lt [of m] by (intro sint_of_nat_i32) simp
  then show ?thesis by (auto simp: wait_contract_def ready_kernel_def Let_def split: if_splits)
qed

text \<open>
  A kernel that keeps the contract of the registrations: a list of instances, descriptors and
  tokens. A wait reports the latest of its instance, and fails when there is none.
\<close>

type_synonym listed = "(i32 \<times> i32 \<times> u64) list"

definition listed_armed :: "listed \<Rightarrow> registrations" where
  "listed_armed k q = image_mset snd (filter_mset (\<lambda>e. fst e = q) (mset k))"

definition listed_wait :: "i32 \<Rightarrow> i32 \<Rightarrow> listed \<Rightarrow> (i32 \<times> Event list) \<times> listed" where
  "listed_wait q n k =
     (case filter (\<lambda>e. fst e = q) k of
        [] \<Rightarrow> ((- 1, []), k)
      | e # _ \<Rightarrow> if sint n \<le> 0 then ((- 1, []), k)
          else ((1, [Event_new EPOLLIN (snd (snd e))]), remove1 e k))"

definition listed_kernel :: "listed libc" where
  "listed_kernel =
     \<lparr>sys_epoll_create = (\<lambda>_ k. (3, [])), sys_close = (\<lambda>_ k. (0, k)),
      sys_epoll_ctl = (\<lambda>q _ fd e k. if sint fd < 0 then (- 1, k) else (0, (q, fd, epoll_data e) # k)),
      sys_epoll_wait = (\<lambda>q n _ k. listed_wait q n k),
      sys_eventfd = (\<lambda>_ _ k. (4, k)), last_errno = (\<lambda>_. 9)\<rparr>"

lemma listed_wait_reports:
  assumes "listed_wait q n k = ((ret, evs), k')"
  shows "if sint ret < 0 then evs = [] \<and> k' = k
    else int (length evs) = sint ret \<and> sint ret \<le> sint n \<and> 0 < sint ret \<and>
      (\<exists>gone. listed_armed k = (listed_armed k')(q := gone + listed_armed k' q) \<and>
         mset (map epoll_data evs) = image_mset snd gone)"
proof (cases "filter (\<lambda>e. fst e = q) k")
  case Nil
  with assms show ?thesis by (auto simp: listed_wait_def)
next
  case (Cons e es)
  then have "e \<in> set (filter (\<lambda>e. fst e = q) k)" by simp
  then have e: "e \<in> set k" "fst e = q" by simp_all
  show ?thesis
  proof (cases "sint n \<le> 0")
    case True
    with assms Cons show ?thesis by (auto simp: listed_wait_def)
  next
    case False
    with assms Cons have r: "ret = 1" "evs = [Event_new EPOLLIN (snd (snd e))]" "k' = remove1 e k"
      by (auto simp: listed_wait_def)
    have "mset k = add_mset e (mset k')" using e(1) by (simp add: r(3))
    then have "listed_armed k = (listed_armed k')(q := {#snd e#} + listed_armed k' q)"
      using e(2) by (intro ext) (simp add: listed_armed_def)
    moreover have "mset (map epoll_data evs) = image_mset snd {#snd e#}" by (simp add: r Event_new_def)
    ultimately have "\<exists>gone. listed_armed k = (listed_armed k')(q := gone + listed_armed k' q) \<and>
        mset (map epoll_data evs) = image_mset snd gone" by blast
    with False r(1,2) show ?thesis by simp
  qed
qed

lemma listed_kernel_oneshot: "oneshot_epoll listed_kernel listed_armed"
  unfolding oneshot_epoll_def
proof (intro conjI allI impI)
  fix q fd x k ret k'
  assume "sys_epoll_ctl listed_kernel q EPOLL_CTL_ADD fd (Event_new (EPOLLIN OR EPOLLONESHOT) x) k = (ret, k')"
  then show "listed_armed k' = (if sint ret < 0 then listed_armed k
      else (listed_armed k)(q := add_mset (fd, x) (listed_armed k q)))"
    by (auto simp: listed_kernel_def listed_armed_def Event_new_def split: if_splits)
next
  fix q n t k ret evs k'
  assume "sys_epoll_wait listed_kernel q n t k = ((ret, evs), k')"
  then have "listed_wait q n k = ((ret, evs), k')" by (simp add: listed_kernel_def)
  from listed_wait_reports [OF this]
  show "if sint ret < 0 then evs = [] \<and> listed_armed k' = listed_armed k
    else int (length evs) = sint ret \<and> sint ret \<le> sint n \<and> (t = - 1 \<longrightarrow> 0 < sint ret) \<and>
      (\<exists>gone. listed_armed k = (listed_armed k')(q := gone + listed_armed k' q) \<and>
         mset (map epoll_data evs) = image_mset snd gone)" by (auto split: if_splits)
qed

section \<open>Properties\<close>

text \<open>
  C30: The array of events the kernel writes is the array Rust reads. The packed record is 12
  bytes with the token at offset 4, events that fit into the capacity are written inside the
  buffer, and once the length is set each element reads back as the event written.
\<close>

theorem events_roundtrip:
  assumes "length evs \<le> vec_cap v" and "i < length evs"
  shows "\<exists>v'. write_events evs v = Inr v' \<and>
    vec_get (v'\<lparr>vec_len := length evs\<rparr>) i = Inr (evs ! i) \<and>
    length (event_bytes (evs ! i)) = 12 \<and>
    of_le_bytes (drop 4 (event_bytes (evs ! i))) = Event_data (evs ! i)"
proof -
  from write_events_ok [OF assms(1)] obtain v' where v': "write_events evs v = Inr v'" ..
  moreover have "vec_get (v'\<lparr>vec_len := length evs\<rparr>) i = Inr (evs ! i)"
    by (rule vec_get_written [OF v' assms(2)]) simp_all
  moreover have "of_le_bytes (drop 4 (event_bytes (evs ! i))) = Event_data (evs ! i)"
    by (simp add: event_bytes_def Event_data_def of_le_bytes_le_bytes)
  ultimately show ?thesis by (simp add: EVENT_SIZE_def)
qed

lemma events_roundtrip_witness:
  "\<exists>v'. write_events [Event_new 1 5, Event_new 1 4] (vec_with_capacity 4096 10) = Inr v' \<and>
     vec_get (v'\<lparr>vec_len := 2\<rparr>) 1 = Inr (Event_new 1 4)"
  using events_roundtrip [of "[Event_new 1 5, Event_new 1 4]" "vec_with_capacity 4096 10" 1]
  by (auto simp: vec_cap_def vec_with_capacity_def EVENT_SIZE_def numeral_2_eq_2)

text \<open>
  \<open>register\<close>. Interest in reading makes exactly one \<open>EPOLL_CTL_ADD\<close> with the one-shot
  flag and the token, and returns its error; interest in writing panics without a call; with
  both bits set, a successful addition stays in the kernel and the panic follows.
\<close>

theorem register_behaviour:
  "register L r fd token Interests_READABLE k =
     (let (ret, k') = sys_epoll_ctl L (reg_fd r) 1 fd \<lparr>events = 0x40000001, epoll_data = token\<rparr> k
      in Inr (if sint ret < 0 then Inl (last_errno L k') else Inr (), k')) \<and>
   register L r fd token Interests_WRITABLE k = Inl (Panic ''not implemented'') \<and>
   register L r fd token (Interests (READABLE OR WRITABLE)) k =
     (let (ret, k') = sys_epoll_ctl L (reg_fd r) 1 fd \<lparr>events = 0x40000001, epoll_data = token\<rparr> k
      in if sint ret < 0 then Inr (Inl (last_errno L k'), k') else Inl (Panic ''not implemented''))"
proof -
  have e: "Event_new (EPOLLIN OR EPOLLONESHOT) token = \<lparr>events = 0x40000001, epoll_data = token\<rparr>"
    by (simp add: Event_new_def EPOLLIN_def EPOLLONESHOT_def)
  have rw: "is_readable (Interests (READABLE OR WRITABLE))" "is_writable (Interests (READABLE OR WRITABLE))"
    by (simp_all add: READABLE_def WRITABLE_def)
  show ?thesis
    unfolding register_def e using rw
    by (simp add: epoll_ctl_def EPOLL_CTL_ADD_def register_writable_def split_beta Let_def
        del: is_readable.simps is_writable.simps)
qed

text \<open>
  C27: \<open>select\<close> on a kernel that keeps its contract. With room for 1024 events it never faults;
  it returns the kernel's error with the vector empty, or leaves exactly the reported events
  in the vector, in order.
\<close>

theorem select_correct:
  assumes "wait_contract L" and "1024 \<le> vec_cap v"
    and "sys_epoll_wait L (sel_fd s) 1024 (case t of None \<Rightarrow> - 1 | Some t \<Rightarrow> t) k = ((ret, evs), k')"
  shows "\<exists>r v'. select L s v t k = Inr (r, v', k') \<and>
    (if sint ret < 0 then r = Inl (last_errno L k') \<and> vec_len v' = 0
     else r = Inr () \<and> vec_len v' = length evs \<and> int (length evs) = sint ret \<and>
       (\<forall>i < length evs. vec_get v' i = Inr (evs ! i)))"
proof (rule select_returns [OF assms(3,1)])
  show "length evs \<le> vec_cap v"
    using wait_contractD [OF assms(1,3)] assms(2) by (cases "sint ret < 0") auto
qed

lemma select_correct_witness:
  "\<exists>v'. select (ready_kernel 2) \<lparr>sel_fd = 3\<rparr> (vec_with_capacity 4096 1024) None () = Inr (Inr (), v', ()) \<and>
     vec_len v' = 2 \<and> vec_get v' 1 = Inr (Event_new EPOLLIN 7)"
proof -
  have e: "sys_epoll_wait (ready_kernel 2) (sel_fd \<lparr>sel_fd = 3\<rparr>) 1024
      (case None of None \<Rightarrow> - 1 | Some t \<Rightarrow> t) () = ((2, replicate 2 (Event_new EPOLLIN 7)), ())"
    by (simp add: ready_kernel_def)
  have "1024 \<le> vec_cap (vec_with_capacity 4096 1024)"
    by (simp add: vec_cap_def vec_with_capacity_def EVENT_SIZE_def)
  from select_correct [OF ready_kernel_contract this e] show ?thesis
    by (auto simp: numeral_2_eq_2)
qed

text \<open>
  C14: What \<open>select\<close> needs. It passes 1024 to the kernel whatever the vector can hold, so it
  is free of undefined behaviour on every kernel that keeps its contract exactly when the
  caller's vector has a capacity of at least 1024 events.
\<close>

theorem select_safe_iff:
  fixes v :: event_vec and k :: 'k
  shows "(\<forall>(L :: 'k libc) t m. wait_contract L \<longrightarrow> select L s v t k \<noteq> Inl (UB m)) \<longleftrightarrow> 1024 \<le> vec_cap v"
proof
  assume safe: "\<forall>(L :: 'k libc) t m. wait_contract L \<longrightarrow> select L s v t k \<noteq> Inl (UB m)"
  show "1024 \<le> vec_cap v"
  proof (rule ccontr)
    assume "\<not> 1024 \<le> vec_cap v"
    then have m: "min (Suc (vec_cap v)) 1024 = Suc (vec_cap v)" by simp
    then have "sys_epoll_wait (ready_kernel (Suc (vec_cap v)) :: 'k libc) (sel_fd s) 1024
        (case None of None \<Rightarrow> - 1 | Some t \<Rightarrow> t) k =
        ((of_nat (Suc (vec_cap v)), replicate (Suc (vec_cap v)) (Event_new EPOLLIN 7)), k)"
      by (simp add: ready_kernel_def Let_def del: of_nat_Suc replicate_Suc)
    from select_overflows [OF this, of v] safe ready_kernel_contract show False by force
  qed
next
  assume cap: "1024 \<le> vec_cap v"
  show "\<forall>(L :: 'k libc) t m. wait_contract L \<longrightarrow> select L s v t k \<noteq> Inl (UB m)"
  proof (intro allI impI)
    fix L :: "'k libc" and t m
    assume c: "wait_contract L"
    obtain ret evs k' where w: "sys_epoll_wait L (sel_fd s) 1024
        (case t of None \<Rightarrow> - 1 | Some t \<Rightarrow> t) k = ((ret, evs), k')" by (metis surj_pair)
    have "length evs \<le> vec_cap v"
      using wait_contractD [OF c w] cap by (cases "sint ret < 0") auto
    from select_returns [OF w c this] show "select L s v t k \<noteq> Inl (UB m)" by auto
  qed
qed

lemma select_safe_iff_witness:
  "\<exists>(L :: unit libc) t m. wait_contract L \<and>
     select L \<lparr>sel_fd = 3\<rparr> (vec_with_capacity 4096 10) t () = Inl (UB m)"
  using select_safe_iff [of "\<lparr>sel_fd = 3\<rparr>" "vec_with_capacity 4096 10" "()"]
  by (auto simp: vec_cap_def vec_with_capacity_def EVENT_SIZE_def)

end
