(* ===== verification/EpollExample.thy ===== *)
theory EpollExample
  imports Epoll Decimal
begin

text \<open>
  The program of \<^verbatim>\<open>minimio/src/example.rs\<close>: five requests to a server that answers with a
  chosen delay, one one-shot registration for each, and a loop that waits for events until
  the counter is zero. The program declares its own copy of the event record and of the C
  calls; the record of theory \<open>Epoll\<close> is the same, and \<open>net\<close> extends its calls by the two
  operations of the standard library's \<open>TcpStream\<close>.
\<close>

section \<open>The program\<close>

record 'k net = "'k libc" +
  sys_connect :: "string \<Rightarrow> 'k \<Rightarrow> i32 io_result \<times> 'k"
  sys_write_all :: "i32 \<Rightarrow> string \<Rightarrow> 'k \<Rightarrow> unit io_result \<times> 'k"

datatype line = Received Event | Finished

record 'k ex_state =
  ex_streams :: "i32 list"
  ex_counter :: i32
  ex_out :: "line list"
  ex_kernel :: 'k

definition server_addr :: string where
  "server_addr = ''flash.siwalik.in:80''"

definition crlf :: string where
  "crlf = [char_of (13::nat), char_of (10::nat)]"

text \<open>\<open>(5 - x) * 1000\<close> on \<open>usize\<close>: the subtraction is checked.\<close>

definition delay :: "nat \<Rightarrow> nat outcome" where
  "delay x = (if x \<le> 5 then Inr ((5 - x) * 1000) else Inl (Panic ''attempt to subtract with overflow''))"

definition request_text :: "nat \<Rightarrow> string" where
  "request_text d =
     ''GET /delay/'' @ show_nat d @ ''/url/http://www.google.com HTTP/1.1'' @ crlf @
     ''Host: flash.siwalik.in'' @ crlf @ ''Connection: close'' @ crlf @ crlf"

text \<open>The text of the system's error is left out of the panic messages.\<close>

definition os_error :: fault where
  "os_error = Panic ''[-] last_os_error''"

definition unwrap_error :: fault where
  "unwrap_error = Panic ''called Result::unwrap() on an Err value''"

text \<open>The body of \<open>for x in 1..6\<close>.\<close>

definition send_request :: "'k net \<Rightarrow> i32 \<Rightarrow> nat \<Rightarrow> 'k ex_state \<Rightarrow> 'k ex_state outcome" where
  "send_request N queue x s =
     (case sys_connect N server_addr (ex_kernel s) of
        (Inl e, k1) \<Rightarrow> Inl unwrap_error
      | (Inr fd, k1) \<Rightarrow>
          obind (delay x) (\<lambda>d.
            case sys_write_all N fd (request_text d) k1 of
              (Inl e, k2) \<Rightarrow> Inl unwrap_error
            | (Inr _, k2) \<Rightarrow>
                (let (ret, k3) = sys_epoll_ctl N queue EPOLL_CTL_ADD fd
                       \<lparr>events = EPOLLIN OR EPOLLONESHOT, epoll_data = of_nat x\<rparr> k2
                 in if sint ret < 0 then Inl os_error
                    else obind (checked_sadd (ex_counter s) 1)
                      (\<lambda>c. Inr (s\<lparr>ex_streams := ex_streams s @ [fd], ex_counter := c,
                                   ex_kernel := k3\<rparr>)))))"

text \<open>The elements a \<open>for\<close> loop takes from a vector, and the body of the loop over them.\<close>

fun vec_elems :: "event_vec \<Rightarrow> nat list \<Rightarrow> Event list outcome" where
  "vec_elems v [] = Inr []"
| "vec_elems v (i # is) = obind (vec_get v i) (\<lambda>e. obind (vec_elems v is) (\<lambda>es. Inr (e # es)))"

definition receive :: "Event \<Rightarrow> 'k ex_state \<Rightarrow> 'k ex_state outcome" where
  "receive e s =
     obind (checked_sadd (ex_counter s) (- 1))
       (\<lambda>c. Inr (s\<lparr>ex_out := ex_out s @ [Received e], ex_counter := c\<rparr>))"

text \<open>The body of \<open>while event_counter > 0\<close>; \<open>base\<close> is where the vector's buffer lies.\<close>

definition wait_round :: "'k net \<Rightarrow> nat \<Rightarrow> i32 \<Rightarrow> 'k ex_state \<Rightarrow> 'k ex_state outcome" where
  "wait_round N base queue s =
     (let ((ret, evs), k') = sys_epoll_wait N queue 10 (- 1) (ex_kernel s)
      in obind (write_events evs (vec_with_capacity base 10)) (\<lambda>v1.
         if sint ret < 0 then Inl os_error
         else obind (vec_set_len (unat (scast ret :: u64)) v1) (\<lambda>v2.
           obind (vec_elems v2 [0..<vec_len v2]) (\<lambda>es. ofold receive es (s\<lparr>ex_kernel := k'\<rparr>)))))"

partial_function (option) wait_loop ::
    "'k net \<Rightarrow> nat \<Rightarrow> i32 \<Rightarrow> 'k ex_state \<Rightarrow> 'k ex_state outcome option" where
  "wait_loop N base queue s =
     (if 0 < sint (ex_counter s)
      then (case wait_round N base queue s of
              Inl e \<Rightarrow> Some (Inl e)
            | Inr s' \<Rightarrow> wait_loop N base queue s')
      else Some (Inr s))"

text \<open>After the loop: the queue is closed, then the streams are dropped, which closes them.\<close>

definition finish :: "'k net \<Rightarrow> i32 \<Rightarrow> 'k ex_state \<Rightarrow> 'k ex_state outcome" where
  "finish N queue s =
     (let (ret, k1) = sys_close N queue (ex_kernel s)
      in if sint ret < 0 then Inl os_error
         else Inr (s\<lparr>ex_out := ex_out s @ [Finished], ex_streams := [],
                ex_kernel := fold (\<lambda>fd k. snd (sys_close N fd k)) (ex_streams s) k1\<rparr>))"

definition ex_main :: "'k net \<Rightarrow> nat \<Rightarrow> 'k \<Rightarrow> 'k ex_state outcome option" where
  "ex_main N base k =
     (let (queue, k1) = sys_epoll_create N 1 k
      in if sint queue < 0 then Some (Inl os_error)
         else case ofold (send_request N queue) [1..<6]
                   \<lparr>ex_streams = [], ex_counter = 0, ex_out = [], ex_kernel = k1\<rparr> of
                Inl e \<Rightarrow> Some (Inl e)
              | Inr s \<Rightarrow> map_option (\<lambda>r. obind r (finish N queue)) (wait_loop N base queue s))"

section \<open>What the program relies on\<close>

text \<open>
  One-shot registrations; a new instance has none, and the operations of the stream leave them
  as they are. The operations may fail at any time.
\<close>

definition oneshot_kernel :: "'k net \<Rightarrow> ('k \<Rightarrow> registrations) \<Rightarrow> bool" where
  "oneshot_kernel N armed \<longleftrightarrow> oneshot_epoll N armed \<and>
     (\<forall>k q k'. sys_epoll_create N 1 k = (q, k') \<longrightarrow> 0 \<le> sint q \<longrightarrow> armed k' q = {#}) \<and>
     (\<forall>a k r k'. sys_connect N a k = (r, k') \<longrightarrow> armed k' = armed k) \<and>
     (\<forall>fd t k r k'. sys_write_all N fd t k = (r, k') \<longrightarrow> armed k' = armed k)"

text \<open>
  Operations that do not fail: \<open>good\<close> is a set of kernel states from which every call succeeds,
  and which no call leaves. A wait succeeds when something is registered.
\<close>

definition calls_succeed :: "'k net \<Rightarrow> ('k \<Rightarrow> registrations) \<Rightarrow> ('k \<Rightarrow> bool) \<Rightarrow> bool" where
  "calls_succeed N armed good \<longleftrightarrow> (\<forall>k. good k \<longrightarrow>
     (\<forall>r k'. sys_epoll_create N 1 k = (r, k') \<longrightarrow> 0 \<le> sint r \<and> good k') \<and>
     (\<forall>a r k'. sys_connect N a k = (r, k') \<longrightarrow> \<not> isl r \<and> good k') \<and>
     (\<forall>fd t r k'. sys_write_all N fd t k = (r, k') \<longrightarrow> \<not> isl r \<and> good k') \<and>
     (\<forall>q fd e r k'. sys_epoll_ctl N q EPOLL_CTL_ADD fd e k = (r, k') \<longrightarrow> 0 \<le> sint r \<and> good k') \<and>
     (\<forall>q n r evs k'. sys_epoll_wait N q n (- 1) k = ((r, evs), k') \<longrightarrow> 0 < sint n \<longrightarrow>
        armed k q \<noteq> {#} \<longrightarrow> 0 \<le> sint r \<and> good k') \<and>
     (\<forall>fd r k'. sys_close N fd k = (r, k') \<longrightarrow> 0 \<le> sint r \<and> good k'))"

text \<open>The panics of the program, each on the error of a call.\<close>

definition call_failure :: "fault \<Rightarrow> bool" where
  "call_failure f \<longleftrightarrow> f = unwrap_error \<or> f = os_error"

definition reliable :: "'k net \<Rightarrow> ('k \<Rightarrow> registrations) \<Rightarrow> ('k \<Rightarrow> bool) \<Rightarrow> 'k \<Rightarrow> bool" where
  "reliable N armed good k \<longleftrightarrow> calls_succeed N armed good \<and> good k"

lemma reliableD:
  assumes "reliable N armed good k"
  shows "sys_epoll_create N 1 k = (r, k') \<Longrightarrow> 0 \<le> sint r \<and> reliable N armed good k'"
    and "sys_connect N a k = (io, k') \<Longrightarrow> \<not> isl io \<and> reliable N armed good k'"
    and "sys_write_all N fd tx k = (iw, k') \<Longrightarrow> \<not> isl iw \<and> reliable N armed good k'"
    and "sys_epoll_ctl N q EPOLL_CTL_ADD fd e k = (r, k') \<Longrightarrow> 0 \<le> sint r \<and> reliable N armed good k'"
    and "sys_epoll_wait N q n (- 1) k = ((r, evs), k') \<Longrightarrow> 0 < sint n \<Longrightarrow> armed k q \<noteq> {#} \<Longrightarrow>
      0 \<le> sint r \<and> reliable N armed good k'"
    and "sys_close N fd k = (r, k') \<Longrightarrow> 0 \<le> sint r \<and> reliable N armed good k'"
proof -
  have c: "calls_succeed N armed good" and g: "good k" using assms by (simp_all add: reliable_def)
  note d = c [unfolded calls_succeed_def, THEN spec, THEN mp, OF g]
  have r: "reliable N armed good u" if "good u" for u using c that by (simp add: reliable_def)
  show "sys_epoll_create N 1 k = (r, k') \<Longrightarrow> 0 \<le> sint r \<and> reliable N armed good k'"
    using d r by (metis (lifting))
  show "sys_connect N a k = (io, k') \<Longrightarrow> \<not> isl io \<and> reliable N armed good k'"
    using d r by (metis (lifting))
  show "sys_write_all N fd tx k = (iw, k') \<Longrightarrow> \<not> isl iw \<and> reliable N armed good k'"
    using d r by (metis (lifting))
  show "sys_epoll_ctl N q EPOLL_CTL_ADD fd e k = (r, k') \<Longrightarrow> 0 \<le> sint r \<and> reliable N armed good k'"
    using d r by (metis (lifting))
  show "sys_epoll_wait N q n (- 1) k = ((r, evs), k') \<Longrightarrow> 0 < sint n \<Longrightarrow> armed k q \<noteq> {#} \<Longrightarrow>
      0 \<le> sint r \<and> reliable N armed good k'"
    using d r by (metis (lifting))
  show "sys_close N fd k = (r, k') \<Longrightarrow> 0 \<le> sint r \<and> reliable N armed good k'"
    using d r by (metis (lifting))
qed

section \<open>The two loops\<close>

lemma kernel_created:
  "oneshot_kernel N armed \<Longrightarrow> sys_epoll_create N 1 k = (q, k') \<Longrightarrow> 0 \<le> sint q \<Longrightarrow> tokens armed q k' = {#}"
  by (simp add: oneshot_kernel_def tokens_def)

lemma kernel_stream:
  assumes "oneshot_kernel N armed"
  shows "sys_connect N a k = (r, k') \<Longrightarrow> tokens armed q k' = tokens armed q k"
    and "sys_write_all N fd t k = (r', k') \<Longrightarrow> tokens armed q k' = tokens armed q k"
proof -
  have c: "\<forall>a k r k'. sys_connect N a k = (r, k') \<longrightarrow> armed k' = armed k"
    and w: "\<forall>fd t k r k'. sys_write_all N fd t k = (r, k') \<longrightarrow> armed k' = armed k"
    using assms unfolding oneshot_kernel_def by blast+
  show "sys_connect N a k = (r, k') \<Longrightarrow> tokens armed q k' = tokens armed q k"
    using c by (auto simp: tokens_def)
  show "sys_write_all N fd t k = (r', k') \<Longrightarrow> tokens armed q k' = tokens armed q k"
    using w by (auto simp: tokens_def)
qed

lemma kernel_added:
  assumes "oneshot_kernel N armed" and "0 \<le> sint r"
    and "sys_epoll_ctl N q EPOLL_CTL_ADD fd \<lparr>events = EPOLLIN OR EPOLLONESHOT, epoll_data = x\<rparr> k = (r, k')"
  shows "tokens armed q k' = add_mset x (tokens armed q k)"
proof -
  have "oneshot_epoll N armed" using assms(1) by (simp add: oneshot_kernel_def)
  from oneshot_epoll_add [OF this, of q fd x k r k'] assms(2,3) show ?thesis
    by (simp add: Event_new_def tokens_def)
qed

lemma kernel_waited:
  assumes "oneshot_kernel N armed" and "sys_epoll_wait N q n (- 1) k = ((r, evs), k')"
  shows "if sint r < 0 then evs = []
    else int (length evs) = sint r \<and> 1 \<le> sint r \<and> sint r \<le> sint n \<and>
      tokens armed q k = mset (map epoll_data evs) + tokens armed q k'"
proof (cases "sint r < 0")
  case True
  with oneshot_epoll_waited [OF _ assms(2), of armed] assms(1) show ?thesis
    by (simp add: oneshot_kernel_def)
next
  case False
  with oneshot_epoll_waited [OF _ assms(2), of armed] assms(1) obtain gone where
    g: "int (length evs) = sint r" "sint r \<le> sint n" "0 < sint r"
      "armed k = (armed k')(q := gone + armed k' q)" "mset (map epoll_data evs) = image_mset snd gone"
    by (auto simp: oneshot_kernel_def)
  have "tokens armed q k = mset (map epoll_data evs) + tokens armed q k'"
    unfolding tokens_def g(5) by (subst g(4)) simp
  with False g(1-3) show ?thesis by simp
qed

lemma vec_elems_collect:
  "(\<And>i. i \<in> set is \<Longrightarrow> vec_get v i = Inr (f i)) \<Longrightarrow> vec_elems v is = Inr (map f is)"
  by (induction "is") simp_all

text \<open>The progress of the wait loop: what was received and what is still registered.\<close>

definition waiting :: "('k \<Rightarrow> u64 multiset) \<Rightarrow> u64 multiset \<Rightarrow> 'k ex_state \<Rightarrow> bool" where
  "waiting pending all s \<longleftrightarrow>
     sint (ex_counter s) = int (size (pending (ex_kernel s))) \<and>
     (\<exists>evs. ex_out s = map Received evs \<and>
        mset (map epoll_data evs) + pending (ex_kernel s) = all)"

lemma receive_all:
  assumes "int (length es) \<le> sint (ex_counter s)"
  shows "\<exists>c. ofold receive es s = Inr (s\<lparr>ex_out := ex_out s @ map Received es, ex_counter := c\<rparr>) \<and>
    sint c = sint (ex_counter s) - int (length es)"
  using assms
proof (induction es arbitrary: s)
  case Nil
  show ?case by (rule exI [of _ "ex_counter s"]) simp
next
  case (Cons e es)
  have b: "0 < sint (ex_counter s)" "sint (ex_counter s) < 2 ^ 31"
    using Cons.prems sint_lt [of "ex_counter s"] by simp_all
  then obtain c where c: "checked_sadd (ex_counter s) (- 1) = Inr c"
    by (simp add: checked_sadd_def)
  then have sc: "sint c = sint (ex_counter s) - 1" by (simp add: sint_checked_sadd)
  let ?s = "s\<lparr>ex_out := ex_out s @ [Received e], ex_counter := c\<rparr>"
  have "int (length es) \<le> sint (ex_counter ?s)" using Cons.prems sc by simp
  from Cons.IH [OF this] obtain c' where
      "ofold receive es ?s = Inr (?s\<lparr>ex_out := ex_out ?s @ map Received es, ex_counter := c'\<rparr>)"
      "sint c' = sint (ex_counter ?s) - int (length es)" by blast
  moreover have "receive e s = Inr ?s" using c by (simp add: receive_def)
  ultimately show ?case using sc by (intro exI [of _ c']) simp
qed

lemma wait_round_progress:
  assumes o: "oneshot_kernel N armed" and w: "waiting (tokens armed queue) all s"
    and pos: "0 < sint (ex_counter s)"
  shows "wait_round N base queue s = Inl os_error \<and> \<not> reliable N armed good (ex_kernel s) \<or>
    (\<exists>s'. wait_round N base queue s = Inr s' \<and> waiting (tokens armed queue) all s' \<and>
       size (tokens armed queue (ex_kernel s')) < size (tokens armed queue (ex_kernel s)) \<and>
       (reliable N armed good (ex_kernel s) \<longrightarrow> reliable N armed good (ex_kernel s')))"
proof -
  let ?p = "tokens armed queue"
  obtain ret evs k' where
    sys: "sys_epoll_wait N queue 10 (- 1) (ex_kernel s) = ((ret, evs), k')" by (metis surj_pair)
  have r: "if sint ret < 0 then evs = []
      else int (length evs) = sint ret \<and> 1 \<le> sint ret \<and> sint ret \<le> 10 \<and>
        ?p (ex_kernel s) = mset (map epoll_data evs) + ?p k'"
    using kernel_waited [OF o sys] by (auto split: if_splits)
  have "armed (ex_kernel s) queue \<noteq> {#}" using w pos by (auto simp: waiting_def tokens_def)
  then have rel: "reliable N armed good (ex_kernel s) \<Longrightarrow> 0 \<le> sint ret \<and> reliable N armed good k'"
    using reliableD(5) [OF _ sys] by simp
  from r have cap: "length evs \<le> vec_cap (vec_with_capacity base 10)"
    by (simp add: vec_cap_def vec_with_capacity_def EVENT_SIZE_def split: if_splits)
  from write_events_ok [OF cap] obtain v1 where
    v1: "write_events evs (vec_with_capacity base 10) = Inr v1" ..
  show ?thesis
  proof (cases "sint ret < 0")
    case True
    with rel have "\<not> reliable N armed good (ex_kernel s)" by force
    with True sys v1 show ?thesis by (simp add: wait_round_def)
  next
    case False
    with r have n: "int (length evs) = sint ret" "1 \<le> sint ret"
      and p: "?p (ex_kernel s) = mset (map epoll_data evs) + ?p k'" by simp_all
    have u: "unat (scast ret :: u64) = length evs" using usize_of_ret [of ret] n by simp
    have set: "vec_set_len (length evs) v1 = Inr (v1\<lparr>vec_len := length evs\<rparr>)"
      using write_events_len [OF v1] cap by (simp add: vec_set_len_def)
    have "vec_elems (v1\<lparr>vec_len := length evs\<rparr>) [0..<length evs] = Inr (map ((!) evs) [0..<length evs])"
      by (intro vec_elems_collect vec_get_written [OF v1]) simp_all
    then have el: "vec_elems (v1\<lparr>vec_len := length evs\<rparr>) [0..<length evs] = Inr evs"
      by (simp add: map_nth)
    have "int (length evs) \<le> sint (ex_counter (s\<lparr>ex_kernel := k'\<rparr>))"
      using w p by (simp add: waiting_def)
    from receive_all [OF this] obtain c where
      c: "ofold receive evs (s\<lparr>ex_kernel := k'\<rparr>) =
          Inr (s\<lparr>ex_kernel := k', ex_out := ex_out s @ map Received evs, ex_counter := c\<rparr>)"
        "sint c = sint (ex_counter s) - int (length evs)" by auto
    let ?s = "s\<lparr>ex_kernel := k', ex_out := ex_out s @ map Received evs, ex_counter := c\<rparr>"
    have "wait_round N base queue s = Inr ?s"
      using False sys v1 u set el c(1) by (simp add: wait_round_def)
    moreover have "waiting ?p all ?s"
    proof -
      from w obtain es where es: "ex_out s = map Received es"
          "mset (map epoll_data es) + ?p (ex_kernel s) = all"
          "sint (ex_counter s) = int (size (?p (ex_kernel s)))" by (auto simp: waiting_def)
      then show ?thesis
        using p c(2) unfolding waiting_def
        by (intro conjI exI [of _ "es @ evs"]) (simp_all add: ac_simps)
    qed
    moreover have "size (?p k') < size (?p (ex_kernel s))" using p n by (cases evs) simp_all
    ultimately show ?thesis using rel by auto
  qed
qed

lemma wait_loop_returns:
  assumes "oneshot_kernel N armed" and "waiting (tokens armed queue) all s"
  shows "wait_loop N base queue s = Some (Inl os_error) \<and> \<not> reliable N armed good (ex_kernel s) \<or>
    (\<exists>s'. wait_loop N base queue s = Some (Inr s') \<and> waiting (tokens armed queue) all s' \<and>
       tokens armed queue (ex_kernel s') = {#} \<and>
       (reliable N armed good (ex_kernel s) \<longrightarrow> reliable N armed good (ex_kernel s')))"
  using assms(2)
proof (induction "size (tokens armed queue (ex_kernel s))" arbitrary: s rule: less_induct)
  case less
  show ?case
  proof (cases "0 < sint (ex_counter s)")
    case False
    then have "tokens armed queue (ex_kernel s) = {#}" using less.prems by (auto simp: waiting_def)
    with False less.prems show ?thesis by (simp add: wait_loop.simps)
  next
    case True
    consider (err) "wait_round N base queue s = Inl os_error" "\<not> reliable N armed good (ex_kernel s)"
      | (ok) s' where "wait_round N base queue s = Inr s'" "waiting (tokens armed queue) all s'"
          "size (tokens armed queue (ex_kernel s')) < size (tokens armed queue (ex_kernel s))"
          "reliable N armed good (ex_kernel s) \<longrightarrow> reliable N armed good (ex_kernel s')"
      using wait_round_progress [OF assms(1) less.prems True] by blast
    then show ?thesis
    proof cases
      case err
      with True show ?thesis by (simp add: wait_loop.simps [of _ _ _ s])
    next
      case ok
      then have "wait_loop N base queue s = wait_loop N base queue s'"
        using True by (simp add: wait_loop.simps [of _ _ _ s])
      with less.hyps [OF ok(3,2)] ok(4) show ?thesis by auto
    qed
  qed
qed

text \<open>The five registrations.\<close>

lemma send_request_registers:
  assumes o: "oneshot_kernel N armed" and x: "x \<le> 5" and w: "waiting (tokens armed queue) all s"
    and out: "ex_out s = []" and c: "sint (ex_counter s) < 5"
  shows "(\<exists>f. send_request N queue x s = Inl f \<and> call_failure f \<and>
      \<not> reliable N armed good (ex_kernel s)) \<or>
    (\<exists>s'. send_request N queue x s = Inr s' \<and>
       waiting (tokens armed queue) (add_mset (of_nat x) all) s' \<and>
       ex_out s' = [] \<and> sint (ex_counter s') = sint (ex_counter s) + 1 \<and>
       (reliable N armed good (ex_kernel s) \<longrightarrow> reliable N armed good (ex_kernel s')))"
proof -
  let ?p = "tokens armed queue" and ?rel = "reliable N armed good"
  obtain r1 k1 where 1: "sys_connect N server_addr (ex_kernel s) = (r1, k1)" by (metis surj_pair)
  note p1 = kernel_stream(1) [OF o 1, of queue] and g1 = reliableD(2) [OF _ 1, of armed good]
  show ?thesis
  proof (cases r1)
    case (Inl e)
    with 1 g1 show ?thesis by (auto simp: send_request_def call_failure_def)
  next
    case (Inr fd)
    obtain r2 k2 where 2: "sys_write_all N fd (request_text ((5 - x) * 1000)) k1 = (r2, k2)"
      by (metis surj_pair)
    note p2 = kernel_stream(2) [OF o 2, of queue] and g2 = reliableD(3) [OF _ 2, of armed good]
    show ?thesis
    proof (cases r2)
      case (Inl e)
      with 1 2 Inr x g1 g2 show ?thesis by (auto simp: send_request_def call_failure_def delay_def)
    next
      case r2: (Inr u)
      obtain r3 k3 where 3: "sys_epoll_ctl N queue EPOLL_CTL_ADD fd
          \<lparr>events = EPOLLIN OR EPOLLONESHOT, epoll_data = of_nat x\<rparr> k2 = (r3, k3)" by (metis surj_pair)
      note g3 = reliableD(4) [OF _ 3, of armed good]
      show ?thesis
      proof (cases "sint r3 < 0")
        case True
        with g1 g2 g3 have "\<not> ?rel (ex_kernel s)" by force
        with True 1 2 3 Inr r2 x show ?thesis by (auto simp: send_request_def call_failure_def delay_def)
      next
        case False
        then have p3: "?p k3 = add_mset (of_nat x) (?p (ex_kernel s))"
          using kernel_added [OF o _ 3] p1 p2 by simp
        have "0 \<le> sint (ex_counter s)" using w by (simp add: waiting_def)
        then obtain c' where c': "checked_sadd (ex_counter s) 1 = Inr c'"
          using c by (simp add: checked_sadd_def)
        then have sc: "sint c' = sint (ex_counter s) + 1" by (simp add: sint_checked_sadd)
        let ?s = "s\<lparr>ex_streams := ex_streams s @ [fd], ex_counter := c', ex_kernel := k3\<rparr>"
        have "send_request N queue x s = Inr ?s"
          using 1 2 3 Inr r2 x False c' by (simp add: send_request_def delay_def)
        moreover have "waiting ?p (add_mset (of_nat x) all) ?s"
          using w p3 sc out by (simp add: waiting_def)
        ultimately show ?thesis using sc out g1 g2 g3 by auto
      qed
    qed
  qed
qed

lemma send_requests:
  assumes o: "oneshot_kernel N armed"
  shows "set xs \<subseteq> {..5} \<Longrightarrow> waiting (tokens armed queue) all s \<Longrightarrow> ex_out s = [] \<Longrightarrow>
    sint (ex_counter s) + int (length xs) \<le> 5 \<Longrightarrow>
    (\<exists>f. ofold (send_request N queue) xs s = Inl f \<and> call_failure f \<and>
      \<not> reliable N armed good (ex_kernel s)) \<or>
    (\<exists>s'. ofold (send_request N queue) xs s = Inr s' \<and>
       waiting (tokens armed queue) (mset (map of_nat xs) + all) s' \<and>
       (reliable N armed good (ex_kernel s) \<longrightarrow> reliable N armed good (ex_kernel s')))"
proof (induction xs arbitrary: s all)
  case Nil
  then show ?case by simp
next
  case (Cons x xs)
  have "x \<le> 5" "sint (ex_counter s) < 5" using Cons.prems by auto
  from send_request_registers [OF o this(1) Cons.prems(2,3) this(2), of good]
  consider (err) f where "send_request N queue x s = Inl f" "call_failure f"
      "\<not> reliable N armed good (ex_kernel s)"
    | (ok) s' where "send_request N queue x s = Inr s'"
        "waiting (tokens armed queue) (add_mset (of_nat x) all) s'"
        "ex_out s' = []" "sint (ex_counter s') = sint (ex_counter s) + 1"
        "reliable N armed good (ex_kernel s) \<longrightarrow> reliable N armed good (ex_kernel s')" by blast
  then show ?case
  proof cases
    case err
    then show ?thesis by simp
  next
    case ok
    with Cons.IH [OF _ ok(2,3)] Cons.prems show ?thesis by auto
  qed
qed

text \<open>What is left of \<open>main\<close> once the requests are registered.\<close>

definition ex_rest :: "'k net \<Rightarrow> nat \<Rightarrow> i32 \<Rightarrow> 'k ex_state \<Rightarrow> 'k ex_state outcome option" where
  "ex_rest N base queue s = map_option (\<lambda>r. obind r (finish N queue)) (wait_loop N base queue s)"

lemma ex_rest_receives:
  assumes "oneshot_kernel N armed" and "waiting (tokens armed queue) all s"
  shows "\<exists>r. ex_rest N base queue s = Some r \<and>
    ((\<exists>f. r = Inl f \<and> call_failure f \<and> \<not> reliable N armed good (ex_kernel s)) \<or>
     (\<exists>evs s'. r = Inr s' \<and> ex_out s' = map Received evs @ [Finished] \<and>
        mset (map epoll_data evs) = all \<and> sint (ex_counter s') = 0))"
proof -
  consider (err) "wait_loop N base queue s = Some (Inl os_error)" "\<not> reliable N armed good (ex_kernel s)"
    | (ok) s' where "wait_loop N base queue s = Some (Inr s')" "waiting (tokens armed queue) all s'"
        "tokens armed queue (ex_kernel s') = {#}"
        "reliable N armed good (ex_kernel s) \<longrightarrow> reliable N armed good (ex_kernel s')"
    using wait_loop_returns [OF assms] by blast
  then show ?thesis
  proof cases
    case err
    then show ?thesis by (simp add: ex_rest_def call_failure_def)
  next
    case ok
    then obtain evs where evs: "ex_out s' = map Received evs" "mset (map epoll_data evs) = all"
        "sint (ex_counter s') = 0" by (auto simp: waiting_def)
    obtain r k where c: "sys_close N queue (ex_kernel s') = (r, k)" by (metis surj_pair)
    show ?thesis
    proof (cases "sint r < 0")
      case True
      with reliableD(6) [OF _ c] ok(4) have "\<not> reliable N armed good (ex_kernel s)" by force
      with True ok(1) c show ?thesis by (simp add: ex_rest_def finish_def call_failure_def)
    next
      case False
      with ok(1) evs c show ?thesis by (auto simp: ex_rest_def finish_def)
    qed
  qed
qed

section \<open>Properties\<close>

text \<open>
  C15: The program ends. On a kernel with one-shot registrations it stops after finitely many
  waits. If it panics, the panic is one of the two on the error of a call, and not all calls
  succeed; otherwise it has received each of the five tokens exactly once, in the order in
  which the kernel reported them, then printed the last line, with the counter at zero. So no
  event is lost or counted twice, and where every call succeeds the program never panics.
\<close>

theorem ex_main_receives_all:
  assumes "oneshot_kernel N armed"
  shows "\<exists>r. ex_main N base k = Some r \<and>
    (case r of
       Inl f \<Rightarrow> (f = unwrap_error \<or> f = os_error) \<and> \<not> (calls_succeed N armed good \<and> good k)
     | Inr s \<Rightarrow> sint (ex_counter s) = 0 \<and> (\<exists>evs. ex_out s = map Received evs @ [Finished] \<and>
         mset (map epoll_data evs) = {#1, 2, 3, 4, 5#}))"
proof -
  obtain queue k1 where q: "sys_epoll_create N 1 k = (queue, k1)" by (metis surj_pair)
  note g = reliableD(1) [OF _ q, of armed good]
  have "\<exists>r. ex_main N base k = Some r \<and>
    ((\<exists>f. r = Inl f \<and> call_failure f \<and> \<not> reliable N armed good k) \<or>
     (\<exists>evs s. r = Inr s \<and> ex_out s = map Received evs @ [Finished] \<and>
        mset (map epoll_data evs) = {#1, 2, 3, 4, 5#} \<and> sint (ex_counter s) = 0))"
  proof (cases "sint queue < 0")
    case True
    with q g show ?thesis by (auto simp: ex_main_def call_failure_def)
  next
    case False
    let ?s0 = "\<lparr>ex_streams = [], ex_counter = 0, ex_out = [], ex_kernel = k1\<rparr>"
    let ?all = "mset (map of_nat [1..<6]) + {#} :: u64 multiset"
    have "tokens armed queue k1 = {#}" using kernel_created [OF assms q] False by simp
    then have "waiting (tokens armed queue) {#} ?s0" by (simp add: waiting_def)
    moreover have "set [1..<6::nat] \<subseteq> {..5}" by auto
    ultimately consider
        (err) f where "ofold (send_request N queue) [1..<6] ?s0 = Inl f" "call_failure f"
          "\<not> reliable N armed good k1"
      | (ok) s where "ofold (send_request N queue) [1..<6] ?s0 = Inr s"
          "waiting (tokens armed queue) ?all s" "reliable N armed good k1 \<longrightarrow> reliable N armed good (ex_kernel s)"
      using send_requests [OF assms, of "[1..<6]" queue "{#}" ?s0 good] by simp blast
    then show ?thesis
    proof cases
      case err
      with q False g show ?thesis by (auto simp: ex_main_def)
    next
      case ok
      have all: "?all = {#1, 2, 3, 4, 5#}" by (simp add: upt_conv_Cons)
      have "ex_main N base k = ex_rest N base queue s"
        using ok(1) q False by (simp add: ex_main_def ex_rest_def)
      with ex_rest_receives [OF assms ok(2), of base good] ok(3) g show ?thesis unfolding all by auto
    qed
  qed
  then show ?thesis by (auto simp: call_failure_def reliable_def)
qed

text \<open>
  The sample kernel answers in the order of the delays, the latest registration first, and here
  none of its calls fails.
\<close>

definition delayed_kernel :: "listed net" where
  "delayed_kernel =
     \<lparr>sys_epoll_create = sys_epoll_create listed_kernel, sys_close = sys_close listed_kernel,
      sys_epoll_ctl = (\<lambda>q _ fd e k. (0, (q, fd, epoll_data e) # k)),
      sys_epoll_wait = sys_epoll_wait listed_kernel, sys_eventfd = sys_eventfd listed_kernel,
      last_errno = last_errno listed_kernel,
      sys_connect = (\<lambda>_ k. (Inr 5, k)), sys_write_all = (\<lambda>_ _ k. (Inr (), k))\<rparr>"

lemma delayed_kernel_oneshot: "oneshot_kernel delayed_kernel listed_armed"
proof -
  have w: "sys_epoll_wait delayed_kernel = sys_epoll_wait listed_kernel" by (simp add: delayed_kernel_def)
  have "oneshot_epoll delayed_kernel listed_armed"
    unfolding oneshot_epoll_def w
  proof (intro conjI allI impI)
    fix q fd x k ret k'
    assume "sys_epoll_ctl delayed_kernel q EPOLL_CTL_ADD fd (Event_new (EPOLLIN OR EPOLLONESHOT) x) k = (ret, k')"
    then show "listed_armed k' = (if sint ret < 0 then listed_armed k
        else (listed_armed k)(q := add_mset (fd, x) (listed_armed k q)))"
      by (auto simp: delayed_kernel_def listed_armed_def Event_new_def)
  qed (rule oneshot_epoll_waited [OF listed_kernel_oneshot])
  then show ?thesis
    by (auto simp: oneshot_kernel_def delayed_kernel_def listed_kernel_def listed_armed_def)
qed

lemma delayed_kernel_succeeds: "calls_succeed delayed_kernel listed_armed (\<lambda>_. True)"
proof -
  have "0 \<le> sint r" if "listed_wait q n k = ((r, evs), k')" "0 < sint n" "listed_armed k q \<noteq> {#}"
    for q n k r evs k'
  proof -
    have "filter (\<lambda>e. fst e = q) k \<noteq> []"
      using that(3) by (metis image_mset_empty listed_armed_def mset.simps(1) mset_filter)
    with that show ?thesis by (auto simp: listed_wait_def split: list.splits)
  qed
  then show ?thesis by (auto simp: calls_succeed_def delayed_kernel_def listed_kernel_def)
qed

lemma ex_main_receives_all_witness:
  "\<exists>evs s. ex_main delayed_kernel 4096 [] = Some (Inr s) \<and> ex_out s = map Received evs @ [Finished] \<and>
     mset (map epoll_data evs) = {#1, 2, 3, 4, 5#}"
proof -
  obtain r where r: "ex_main delayed_kernel 4096 [] = Some r"
    and c: "case r of Inl f \<Rightarrow> (f = unwrap_error \<or> f = os_error) \<and>
        \<not> (calls_succeed delayed_kernel listed_armed (\<lambda>_. True) \<and> True)
      | Inr s \<Rightarrow> sint (ex_counter s) = 0 \<and> (\<exists>evs. ex_out s = map Received evs @ [Finished] \<and>
          mset (map epoll_data evs) = {#1, 2, 3, 4, 5#})"
    using ex_main_receives_all [OF delayed_kernel_oneshot, of 4096 "[]" "\<lambda>_. True"] by blast
  from c delayed_kernel_succeeds obtain s where "r = Inr s" by (cases r) simp_all
  with r c show ?thesis by auto
qed

text \<open>
  The delays descend with the token: request \<open>x\<close> of the five asks for \<open>(5 - x)\<close> seconds,
  the number in its text is that delay, and the subtraction never overflows.
\<close>

theorem request_delays:
  assumes "1 \<le> x" and "x < 6"
  shows "\<exists>d. delay x = Inr d \<and> d = 5000 - 1000 * x \<and>
    (\<exists>rest. request_text d = ''GET /delay/'' @ show_nat d @ rest) \<and> parse_nat (show_nat d) = d"
  using assms by (auto simp: delay_def request_text_def parse_show_nat)

lemma request_delays_witness: "delay 2 = Inr 3000"
  using request_delays [of 2] by auto

end
