(* ===== verification/Destructors.thy ===== *)
theory Destructors
  imports Prelude
begin

text \<open>
  Destructors that free memory by hand, \<^verbatim>\<open>constructors-destructors/src/destructors.rs\<close>: a heap of
  cells, the drop glue the compiler generates for a type (the type's own \<open>drop\<close>, then the
  drop of its fields), and the three smart pointers \<open>MyBox\<close>, \<open>SuperBox\<close> and
  \<open>OverideSuperBox\<close> over any content type built from them.
\<close>

section \<open>The heap and the types\<close>

text \<open>
  A cell holds a plain number, a box (its raw pointer), or an optional box. A cell that is
  not mapped is free.
\<close>

datatype val = Num u8 | Ptr nat | OptPtr "nat option"

type_synonym heap = "nat \<rightharpoonup> val"

datatype ty = U8 | TMyBox ty | TSuperBox ty | TOverideSuperBox ty

text \<open>\<open>Global.deallocate\<close>, and the read of a value through a raw pointer.\<close>

definition deallocate :: "nat \<Rightarrow> heap \<Rightarrow> heap outcome" where
  "deallocate a h = (if h a = None then Inl (UB ''double free'') else Inr (h(a := None)))"

definition read_cell :: "heap \<Rightarrow> nat \<Rightarrow> val outcome" where
  "read_cell h a = (case h a of None \<Rightarrow> Inl (UB ''use after free'') | Some v \<Rightarrow> Inr v)"

section \<open>Drop glue\<close>

text \<open>Whether dropping a value of the type runs any code.\<close>

fun needs_drop :: "ty \<Rightarrow> bool" where
  "needs_drop U8 = False"
| "needs_drop (TMyBox t) = True"
| "needs_drop (TSuperBox t) = True"
| "needs_drop (TOverideSuperBox t) = True"

text \<open>
  \<open>drop_in_place(p)\<close> runs the glue \<open>d\<close> on the value at \<open>p\<close>; for a type without glue it does
  nothing, and does not read.
\<close>

definition drop_in_place :: "bool \<Rightarrow> (val \<Rightarrow> heap \<Rightarrow> heap outcome) \<Rightarrow> nat \<Rightarrow> heap \<Rightarrow> heap outcome" where
  "drop_in_place nd d a h = (if nd then obind (read_cell h a) (\<lambda>v. d v h) else Inr h)"

definition MyBox_drop :: "bool \<Rightarrow> (val \<Rightarrow> heap \<Rightarrow> heap outcome) \<Rightarrow> nat \<Rightarrow> heap \<Rightarrow> heap outcome" where
  "MyBox_drop nd d a h = obind (drop_in_place nd d a h) (deallocate a)"

definition SuperBox_drop :: "nat \<Rightarrow> heap \<Rightarrow> heap outcome" where
  "SuperBox_drop a h = deallocate a h"

text \<open>
  \<open>self.my_box.take().unwrap()\<close>, the deallocation, and \<open>mem::forget\<close>: what is left in the
  field is \<open>None\<close>, whose glue does nothing.
\<close>

definition OverideSuperBox_drop :: "nat option \<Rightarrow> heap \<Rightarrow> (nat option \<times> heap) outcome" where
  "OverideSuperBox_drop b h =
     (case b of
        None \<Rightarrow> Inl (Panic ''called Option::unwrap() on a None value'')
      | Some a \<Rightarrow> obind (deallocate a h) (\<lambda>h'. Inr (None, h')))"

text \<open>
  The glue of a type: its own \<open>drop\<close>, then the glue of its fields. The field of \<open>MyBox\<close> is a
  raw pointer, which has none; the field of \<open>SuperBox\<close> is a \<open>MyBox\<close>; the field of
  \<open>OverideSuperBox\<close> is an optional \<open>MyBox\<close>.
\<close>

fun glue :: "ty \<Rightarrow> val \<Rightarrow> heap \<Rightarrow> heap outcome" where
  "glue U8 v h = Inr h"
| "glue (TMyBox t) v h =
     (case v of Ptr a \<Rightarrow> MyBox_drop (needs_drop t) (glue t) a h | _ \<Rightarrow> Inl (UB ''invalid value''))"
| "glue (TSuperBox t) v h =
     (case v of
        Ptr a \<Rightarrow> obind (SuperBox_drop a h) (MyBox_drop (needs_drop t) (glue t) a)
      | _ \<Rightarrow> Inl (UB ''invalid value''))"
| "glue (TOverideSuperBox t) v h =
     (case v of
        OptPtr b \<Rightarrow> obind (OverideSuperBox_drop b h) (\<lambda>(b', h').
          case b' of None \<Rightarrow> Inr h' | Some a \<Rightarrow> MyBox_drop (needs_drop t) (glue t) a h')
      | _ \<Rightarrow> Inl (UB ''invalid value''))"

section \<open>The contract of a destructor\<close>

text \<open>
  \<open>own v h as\<close>: the value owns exactly the cells \<open>as\<close>. A destructor frees them, each once, and
  touches nothing else; ownership depends on the owned cells only.
\<close>

locale destructor =
  fixes d :: "val \<Rightarrow> heap \<Rightarrow> heap outcome"
    and own :: "val \<Rightarrow> heap \<Rightarrow> nat list \<Rightarrow> bool"
  assumes drop_frees: "own v h as \<Longrightarrow> d v h = Inr (h |` (- set as))"
    and own_distinct: "own v h as \<Longrightarrow> distinct as \<and> set as \<subseteq> dom h"
    and own_frame: "own v h as \<Longrightarrow> (\<And>a. a \<in> set as \<Longrightarrow> h' a = h a) \<Longrightarrow> own v h' as"
begin

lemma drop_twice_not_owned: "own v h as \<Longrightarrow> as \<noteq> [] \<Longrightarrow> \<not> own v (h |` (- set as)) as"
  using own_distinct [of v "h |` (- set as)" as] by (cases as) auto

end

text \<open>Values of two types that share nothing can be dropped one after the other.\<close>

locale destructor_pair = d1: destructor d1 own1 + d2: destructor d2 own2
  for d1 own1 d2 own2
begin

lemma drop_both:
  assumes "own1 v h as" and "own2 w h bs" and "set as \<inter> set bs = {}"
  shows "obind (d1 v h) (d2 w) = Inr (h |` (- (set as \<union> set bs)))"
proof -
  have "own2 w (h |` (- set as)) bs"
    by (rule d2.own_frame [OF assms(2)]) (use assms(3) in \<open>auto simp: restrict_map_def\<close>)
  from d2.drop_frees [OF this] d1.drop_frees [OF assms(1)] show ?thesis
    by (simp add: Compl_Un Int_commute)
qed

end

section \<open>What each type owns\<close>

text \<open>
  A box over a content with a correct destructor: the box's cell comes first, then what the
  content owns.
\<close>

definition box_own :: "(val \<Rightarrow> heap \<Rightarrow> nat list \<Rightarrow> bool) \<Rightarrow> val \<Rightarrow> heap \<Rightarrow> nat list \<Rightarrow> bool" where
  "box_own own v h as \<longleftrightarrow>
     (\<exists>a w bs. v = Ptr a \<and> as = a # bs \<and> h a = Some w \<and> a \<notin> set bs \<and> own w h bs)"

fun owns :: "ty \<Rightarrow> val \<Rightarrow> heap \<Rightarrow> nat list \<Rightarrow> bool" where
  "owns U8 v h as \<longleftrightarrow> (\<exists>n. v = Num n) \<and> as = []"
| "owns (TMyBox t) v h as \<longleftrightarrow> box_own (owns t) v h as"
| "owns (TSuperBox t) v h as \<longleftrightarrow> box_own (owns t) v h as"
| "owns (TOverideSuperBox t) v h as \<longleftrightarrow>
     (\<exists>a. v = OptPtr (Some a) \<and> box_own (owns t) (Ptr a) h as)"

lemma box_ownE:
  assumes "box_own own v h as"
  obtains a w bs where "v = Ptr a" "as = a # bs" "h a = Some w" "a \<notin> set bs" "own w h bs"
  using assms by (auto simp: box_own_def)

lemma owns_dom: "owns t v h as \<Longrightarrow> distinct as \<and> set as \<subseteq> dom h"
  by (induction t arbitrary: v as) (fastforce simp: box_own_def)+

lemma u8_destructor: "destructor (glue U8) (owns U8)"
  by unfold_locales auto

lemma box_destructor:
  assumes d: "destructor (glue t) (owns t)"
  shows "destructor (glue (TMyBox t)) (owns (TMyBox t))"
proof
  fix v h as
  assume "owns (TMyBox t) v h as"
  then obtain a w bs where v: "v = Ptr a" "as = a # bs" and w: "h a = Some w" "a \<notin> set bs"
      and o: "owns t w h bs" by (auto elim: box_ownE)
  have g: "glue t w h = Inr (h |` (- set bs))" by (rule destructor.drop_frees [OF d o])
  have "drop_in_place (needs_drop t) (glue t) a h = Inr (h |` (- set bs))"
    using g w o by (cases t) (simp_all add: drop_in_place_def read_cell_def)
  moreover have "(h |` (- set bs)) a = Some w" using w by simp
  moreover have "(h |` (- set bs))(a := None) = h |` (- set as)"
    using v by (auto simp: restrict_map_def)
  ultimately show "glue (TMyBox t) v h = Inr (h |` (- set as))"
    using v by (simp add: MyBox_drop_def deallocate_def)
  from destructor.own_distinct [OF d o] w v show "distinct as \<and> set as \<subseteq> dom h" by auto
  fix h'
  assume "\<And>a. a \<in> set as \<Longrightarrow> h' a = h a"
  with v w destructor.own_frame [OF d o] show "owns (TMyBox t) v h' as"
    by (auto simp: box_own_def)
qed

definition box_type :: "nat \<Rightarrow> ty" where
  "box_type n = (TMyBox ^^ n) U8"

lemma box_type_destructor: "destructor (glue (box_type n)) (owns (box_type n))"
  by (induction n) (simp_all add: box_type_def u8_destructor box_destructor del: glue.simps owns.simps)

interpretation boxes: destructor "glue (box_type n)" "owns (box_type n)" for n
  by (rule box_type_destructor)

interpretation two_boxes: destructor_pair
    "glue (box_type n)" "owns (box_type n)" "glue (box_type m)" "owns (box_type m)" for n m
  by unfold_locales

section \<open>Properties\<close>

text \<open>
  C21: \<open>MyBox\<close> is a correct destructor at every nesting depth: dropping a box that owns the
  cells \<open>as\<close> frees each of them exactly once, leaves every other cell alone and has no
  undefined behaviour; so two boxes that share nothing can be dropped in either order.
\<close>

theorem mybox_drop_correct:
  assumes "owns (box_type n) v h as" and "owns (box_type m) w h bs" and "set as \<inter> set bs = {}"
  shows "glue (box_type n) v h = Inr (h |` (- set as)) \<and>
    obind (glue (box_type n) v h) (glue (box_type m) w) = Inr (h |` (- (set as \<union> set bs))) \<and>
    obind (glue (box_type m) w h) (glue (box_type n) v) = Inr (h |` (- (set as \<union> set bs)))"
  using assms boxes.drop_frees [OF assms(1)] two_boxes.drop_both [OF assms]
    two_boxes.drop_both [OF assms(2,1)] by (simp add: Int_commute Un_commute)

lemma mybox_drop_correct_witness:
  "glue (box_type 2) (Ptr 1) [1 \<mapsto> Ptr 2, 2 \<mapsto> Num 7, 5 \<mapsto> Num 9] = Inr [5 \<mapsto> Num 9]"
proof -
  let ?h = "[1 \<mapsto> Ptr 2, 2 \<mapsto> Num 7, 5 \<mapsto> Num 9] :: heap"
  have "owns (box_type 2) (Ptr 1) ?h [1, 2]" "owns (box_type 1) (Ptr 5) ?h [5]"
    by (simp_all add: box_type_def box_own_def numeral_2_eq_2)
  from mybox_drop_correct [OF this] have
    "glue (box_type 2) (Ptr 1) ?h = Inr (?h |` (- {1, 2}))" by simp
  moreover have "?h |` (- {1, 2}) = [5 \<mapsto> Num 9]" by (auto simp: restrict_map_def)
  ultimately show ?thesis by simp
qed

text \<open>
  C32: \<open>SuperBox\<close> blows up. Dropping a live one is undefined behaviour whatever it contains:
  the glue of its field runs after the cell has been freed, so it reads the freed cell when
  the content has a destructor and frees it a second time when it has none.
\<close>

theorem superbox_drop_faults:
  assumes "owns (TSuperBox t) v h as"
  shows "glue (TSuperBox t) v h =
    Inl (UB (if needs_drop t then ''use after free'' else ''double free''))"
  using assms
  by (auto elim!: box_ownE simp: SuperBox_drop_def deallocate_def MyBox_drop_def drop_in_place_def
      read_cell_def)

lemma superbox_drop_faults_witness:
  "glue (TSuperBox U8) (Ptr 1) [1 \<mapsto> Num 7] = Inl (UB ''double free'') \<and>
   glue (TSuperBox (TMyBox U8)) (Ptr 1) [1 \<mapsto> Ptr 2, 2 \<mapsto> Num 7] = Inl (UB ''use after free'')"
  using superbox_drop_faults [of U8 "Ptr 1" "[1 \<mapsto> Num 7]" "[1]"]
    superbox_drop_faults [of "TMyBox U8" "Ptr 1" "[1 \<mapsto> Ptr 2, 2 \<mapsto> Num 7]" "[1, 2]"]
  by (simp add: box_own_def)

text \<open>
  \<open>OverideSuperBox\<close> repairs it by taking the box out of the option: dropping a live one
  frees exactly the box's own cell, without undefined behaviour. The contents are not dropped,
  so every cell they own stays allocated (a leak when there is one), and a value whose box has
  already been taken panics instead of freeing twice.
\<close>

theorem overide_superbox_drop:
  assumes "owns (TOverideSuperBox t) v h (a # bs)"
  shows "glue (TOverideSuperBox t) v h = Inr (h(a := None)) \<and> a \<in> dom h \<and>
    (\<forall>w. h a = Some w \<longrightarrow> owns t w h bs \<and> set bs \<subseteq> dom (h(a := None))) \<and>
    glue (TOverideSuperBox t) (OptPtr None) h = Inl (Panic ''called Option::unwrap() on a None value'')"
  using assms
  by (auto elim!: box_ownE simp: OverideSuperBox_drop_def deallocate_def dest: owns_dom)

lemma overide_superbox_drop_witness:
  "glue (TOverideSuperBox (TMyBox U8)) (OptPtr (Some 1)) [1 \<mapsto> Ptr 2, 2 \<mapsto> Num 7] = Inr [2 \<mapsto> Num 7]"
proof -
  let ?h = "[1 \<mapsto> Ptr 2, 2 \<mapsto> Num 7] :: heap"
  have "owns (TOverideSuperBox (TMyBox U8)) (OptPtr (Some 1)) ?h [1, 2]"
    by (simp add: box_own_def)
  from overide_superbox_drop [OF this] have
    "glue (TOverideSuperBox (TMyBox U8)) (OptPtr (Some 1)) ?h = Inr (?h(1 := None))" by blast
  moreover have "?h(1 := None) = [2 \<mapsto> Num 7]" by auto
  ultimately show ?thesis by (simp del: glue.simps)
qed

end
