(* ===== verification/DropOrder.thy ===== *)
theory DropOrder
  imports Destructors Decimal "HOL-Library.Multiset"
begin

text \<open>
  When values are dropped: the drop scopes of \<^verbatim>\<open>c10_type_system/destructors.rs\<close>, whose values
  print a label when they are dropped, and the structs of \<^verbatim>\<open>drop_check/src/main.rs\<close>, whose
  inspector borrows from its sibling field. The program's functions are terms of a small
  language of the constructs they use; its evaluator collects what is printed.
\<close>

section \<open>The expressions and statements of the program\<close>

text \<open>A condition over temporaries: \<open>PrintOnDrop(l).0 == s\<close>, and the lazy \<open>||\<close>.\<close>

datatype cond = Is string string | Or cond cond

text \<open>
  A pattern of a tuple parameter binds a component to a variable, or leaves it in the
  parameter.
\<close>

datatype pat = Bind | Wild

type_synonym param = "(pat \<times> string) list"

text \<open>
  \<open>LetVar l\<close> binds a new \<open>PrintOnDrop(l)\<close>; \<open>IfElse c l\<close> has the temporary \<open>PrintOnDrop(l)\<close> as the last
  expression of its block and \<open>unreachable!()\<close> in its else branch; \<open>Call\<close> calls a function
  with an empty body on tuples built in place.
\<close>

datatype stmt = LetVar string | Block "stmt list" | IfElse cond string | Expr cond | Call "param list"

text \<open>The last expression: a \<open>match\<close> on a temporary, with a guard on its first arm.\<close>

datatype tail = Match string cond

record fn_def =
  body :: "stmt list"
  tail_expr :: tail

definition patterns_in_parameters :: "string list \<Rightarrow> string list \<Rightarrow> param list" where
  "patterns_in_parameters a b = [zip [Bind, Wild] a, zip [Wild, Bind] b]"

definition patterns_in_parameters2 :: "string list \<Rightarrow> string list \<Rightarrow> param list" where
  "patterns_in_parameters2 a b = [zip [Bind, Bind] a, zip [Bind, Bind] b]"

definition drop_scope :: fn_def where
  "drop_scope =
     \<lparr>body =
        [Call (patterns_in_parameters [''0'', ''1''] [''2'', ''3'']),
         Call (patterns_in_parameters2 [''0'', ''1''] [''2'', ''3'']),
         LetVar ''Dropped last in outer scope'',
         Block [LetVar ''Dropped in inner scope''],
         LetVar ''Dropped first in outer scope'',
         LetVar ''local var'',
         IfElse (Is ''If condition'' ''If condition'') ''If body'',
         Expr (Or (Or (Is ''first operand'' '''') (Is ''second operand'' ''''))
                  (Is ''third operand'' ''''))],
      tail_expr = Match ''Matched value in final expression'' (Is ''guard condition'' '''')\<rparr>"

section \<open>Evaluation\<close>

text \<open>
  A condition's value, the temporaries that live on in the enclosing scope (in order of
  creation), what has been printed, and the labels of the values created. The second operand
  of \<open>||\<close> is a scope of its own.
\<close>

fun eval_cond :: "cond \<Rightarrow> bool \<times> string list \<times> string list \<times> string list" where
  "eval_cond (Is l s) = (l = s, [l], [], [l])"
| "eval_cond (Or a b) =
     (let (va, ta, oa, ma) = eval_cond a
      in if va then (True, ta, oa, ma)
         else let (vb, tb, ob, mb) = eval_cond b
              in (vb, ta, oa @ ob @ rev tb, ma @ mb))"

text \<open>A condition or expression statement drops its temporaries in reverse when it is over.\<close>

definition close_cond :: "cond \<Rightarrow> bool \<times> string list \<times> string list" where
  "close_cond c = (let (v, t, out, made) = eval_cond c in (v, out @ rev t, made))"

text \<open>
  The variables a pattern binds come after the parameter itself, so they are dropped before
  what is left of it, whose components go in their order.
\<close>

definition drop_param :: "param \<Rightarrow> string list" where
  "drop_param p =
     rev (map snd (filter (\<lambda>f. fst f = Bind) p)) @ map snd (filter (\<lambda>f. fst f = Wild) p)"

definition drop_params :: "param list \<Rightarrow> string list" where
  "drop_params ps = concat (map drop_param (rev ps))"

text \<open>
  A statement gives the variables it declares, what it prints, and the labels of the values
  it creates. Leaving a block drops its variables in reverse order of declaration.
\<close>

fun exec :: "stmt \<Rightarrow> (string list \<times> string list \<times> string list) outcome"
  and exec_list :: "stmt list \<Rightarrow> (string list \<times> string list \<times> string list) outcome" where
  "exec (LetVar l) = Inr ([l], [], [l])"
| "exec (Block ss) =
     obind (exec_list ss) (\<lambda>(vars, out, made). Inr ([], out @ rev vars, made))"
| "exec (IfElse c l) =
     (let (v, out, made) = close_cond c
      in if v then Inr ([], out @ [l], made @ [l])
         else Inl (Panic ''internal error: entered unreachable code''))"
| "exec (Expr c) = (let (v, out, made) = close_cond c in Inr ([], out, made))"
| "exec (Call ps) = Inr ([], drop_params ps, map snd (concat ps))"
| "exec_list [] = Inr ([], [], [])"
| "exec_list (s # ss) =
     obind (exec s) (\<lambda>(v1, o1, m1). obind (exec_list ss) (\<lambda>(v2, o2, m2).
       Inr (v1 @ v2, o1 @ o2, m1 @ m2)))"

text \<open>
  A function: the guard's temporaries are dropped before the arm is chosen, then the local
  variables, then the temporaries of the final expression.
\<close>

definition call_function :: "fn_def \<Rightarrow> (string list \<times> string list) outcome" where
  "call_function f =
     obind (exec_list (body f)) (\<lambda>(vars, out, made).
       case tail_expr f of Match l g \<Rightarrow>
         (let (v, og, mg) = close_cond g
          in Inr (out @ og @ rev vars @ [l], made @ [l] @ mg)))"

lemma eval_cond_linear:
  "case eval_cond c of (v, t, out, made) \<Rightarrow> mset t + mset out = mset made"
proof (induction c)
  case (Is l s)
  then show ?case by simp
next
  case (Or a b)
  obtain va ta oa ma where a: "eval_cond a = (va, ta, oa, ma)" by (metis surj_pair)
  obtain vb tb ob mb where b: "eval_cond b = (vb, tb, ob, mb)" by (metis surj_pair)
  from Or a b have "mset ta + mset oa = mset ma" "mset tb + mset ob = mset mb" by simp_all
  then show ?case by (simp add: a b) (metis union_assoc union_commute)
qed

lemma close_cond_linear: "close_cond c = (v, out, made) \<Longrightarrow> mset out = mset made"
  using eval_cond_linear [of c] by (auto simp: close_cond_def Let_def ac_simps split: prod.splits)

lemma mset_drop_param: "mset (drop_param p) = mset (map snd p)"
proof (induction p)
  case Nil
  then show ?case by (simp add: drop_param_def)
next
  case (Cons f p)
  then show ?case by (cases "fst f") (simp_all add: drop_param_def)
qed

lemma mset_drop_params: "mset (drop_params ps) = mset (map snd (concat ps))"
  by (induction ps) (simp_all add: drop_params_def mset_drop_param)

lemma exec_linear:
  "exec s = Inr (vars, out, made) \<Longrightarrow> mset vars + mset out = mset made"
  "exec_list ss = Inr (vars, out, made) \<Longrightarrow> mset vars + mset out = mset made"
proof (induction s and ss arbitrary: vars out made and vars out made rule: exec_exec_list.induct)
  case (2 ss)
  then obtain v o1 where "exec_list ss = Inr (v, o1, made)" "out = o1 @ rev v" "vars = []"
    by (auto simp: obind_eq_Inr)
  with "2.IH" show ?case by (simp add: union_commute)
next
  case (3 c l)
  obtain v o1 m1 where c: "close_cond c = (v, o1, m1)" by (metis surj_pair)
  with 3 close_cond_linear [OF c] show ?case by (auto split: if_splits)
next
  case (4 c)
  obtain v o1 m1 where c: "close_cond c = (v, o1, m1)" by (metis surj_pair)
  with 4 close_cond_linear [OF c] show ?case by auto
next
  case (5 ps)
  then have "vars = []" "out = drop_params ps" "made = map snd (concat ps)" by simp_all
  then show ?case using mset_drop_params [of ps] by simp
next
  case (7 s ss)
  then obtain v1 o1 m1 v2 o2 m2 where s: "exec s = Inr (v1, o1, m1)" "exec_list ss = Inr (v2, o2, m2)"
      "vars = v1 @ v2" "out = o1 @ o2" "made = m1 @ m2"
    by (auto simp: obind_eq_Inr)
  from "7.IH"(1) [OF s(1)] "7.IH"(2) [OF s(1) refl refl s(2)] s(3-5) show ?case
    by (simp add: ac_simps)
qed simp_all

section \<open>The inspectors of drop\_check\<close>

text \<open>
  \<open>Inspector(&days, s)\<close>: the address it borrows from and its text. \<open>drop_check1\<close>'s destructor
  reads through the reference; those of \<open>drop_check2\<close>, \<open>3\<close> and \<open>4\<close> print the text only.
\<close>

type_synonym inspector = "nat \<times> string"

definition Inspector_drop1 :: "inspector \<Rightarrow> heap \<Rightarrow> string outcome" where
  "Inspector_drop1 i h =
     obind (read_cell h (fst i)) (\<lambda>v. case v of
       Num n \<Rightarrow> Inr (''I was only '' @ show_nat (unat n) @ '' days from retirement!'')
     | _ \<Rightarrow> Inl (UB ''invalid value''))"

definition Inspector_drop2 :: "inspector \<Rightarrow> heap \<Rightarrow> string outcome" where
  "Inspector_drop2 i h = Inr (''Inspector(_, '' @ snd i @ '') knows when *not* to inspect.'')"

record world =
  inspector :: "inspector option"
  days :: nat

text \<open>The glue of each field, and of the struct: its fields in the order of their declaration.\<close>

datatype field = InspectorField | DaysField

fun drop_field ::
    "(inspector \<Rightarrow> heap \<Rightarrow> string outcome) \<Rightarrow> world \<Rightarrow> field \<Rightarrow> heap \<times> string list \<Rightarrow> (heap \<times> string list) outcome" where
  "drop_field d w InspectorField (h, out) =
     (case inspector w of None \<Rightarrow> Inr (h, out) | Some i \<Rightarrow> obind (d i h) (\<lambda>l. Inr (h, out @ [l])))"
| "drop_field d w DaysField (h, out) = obind (deallocate (days w) h) (\<lambda>h'. Inr (h', out))"

definition drop_world ::
    "(inspector \<Rightarrow> heap \<Rightarrow> string outcome) \<Rightarrow> field list \<Rightarrow> world \<Rightarrow> heap \<Rightarrow> (heap \<times> string list) outcome" where
  "drop_world d order w h = ofold (drop_field d w) order (h, [])"

definition world_fields :: "field list" where
  "world_fields = [InspectorField, DaysField]"

text \<open>\<open>Box::new(1)\<close> at the fresh address \<open>a\<close>; the functions end by dropping their world.\<close>

definition drop_check1 :: "nat \<Rightarrow> heap \<Rightarrow> (heap \<times> string list) outcome" where
  "drop_check1 a h =
     drop_world Inspector_drop1 world_fields \<lparr>inspector = None, days = a\<rparr> (h(a \<mapsto> Num 1))"

definition drop_check2 :: "nat \<Rightarrow> heap \<Rightarrow> (heap \<times> string list) outcome" where
  "drop_check2 a h =
     drop_world Inspector_drop2 world_fields \<lparr>inspector = None, days = a\<rparr> (h(a \<mapsto> Num 1))"

definition drop_check4 :: "nat \<Rightarrow> heap \<Rightarrow> (heap \<times> string list) outcome" where
  "drop_check4 a h =
     drop_world Inspector_drop2 world_fields
       \<lparr>inspector = Some (a, ''gadget''), days = a\<rparr> (h(a \<mapsto> Num 1))"

text \<open>
  What \<open>may_dangle\<close> asserts: the destructor does not look at the memory behind the reference.
  Then the order in which the fields are dropped is immaterial.
\<close>

locale may_dangle =
  fixes d :: "inspector \<Rightarrow> heap \<Rightarrow> string outcome"
  assumes no_access: "d i h = d i h'"
    and no_fault: "\<exists>l. d i h = Inr l"
begin

lemma any_order:
  "drop_world d [DaysField, InspectorField] w h = drop_world d [InspectorField, DaysField] w h"
proof (cases "inspector w")
  case None
  then show ?thesis by (cases "deallocate (days w) h") (simp_all add: drop_world_def)
next
  case (Some i)
  from no_fault obtain l where "d i h = Inr l" by blast
  then have "d i h' = Inr l" for h' by (simp add: no_access [of i h' h])
  with Some show ?thesis by (cases "deallocate (days w) h") (simp_all add: drop_world_def)
qed

lemma drop_frees_days:
  assumes "h (days w) \<noteq> None"
  shows "\<exists>out. drop_world d [InspectorField, DaysField] w h = Inr (h(days w := None), out)"
proof (cases "inspector w")
  case None
  with assms show ?thesis by (simp add: drop_world_def deallocate_def)
next
  case (Some i)
  with no_fault [of i h] assms show ?thesis by (auto simp: drop_world_def deallocate_def)
qed

end

interpretation insp2: may_dangle Inspector_drop2
  by unfold_locales (simp_all add: Inspector_drop2_def)

section \<open>Properties\<close>

text \<open>
  Every value is dropped exactly once: if a function of the language returns, what it has printed
  is a permutation of the labels of the values it created.
\<close>

lemma every_value_dropped_once:
  assumes "call_function f = Inr (out, made)"
  shows "mset out = mset made"
proof -
  obtain l g where t: "tail_expr f = Match l g" by (cases "tail_expr f")
  obtain v og mg where g: "close_cond g = (v, og, mg)" by (metis surj_pair)
  from assms t g obtain vars o1 m1 where b: "exec_list (body f) = Inr (vars, o1, m1)"
      "out = o1 @ og @ rev vars @ [l]" "made = m1 @ [l] @ mg"
    by (auto simp: call_function_def obind_eq_Inr)
  from exec_linear(2) [OF b(1)] close_cond_linear [OF g] b(2,3) show ?thesis
    by (simp add: ac_simps)
qed


text \<open>
  The drop checker's examples. The programs as written drop without fault, free the box
  and print what their inspectors say; \<open>drop_check4\<close> would do the same if \<open>days\<close> were dropped
  first, but the inspector of \<open>drop_check1\<close> would then read the freed box: that is why the
  assignment the comment shows has to be rejected.
\<close>

theorem drop_check_examples:
  assumes "h a = None"
  shows "drop_check1 a h = Inr (h, []) \<and> drop_check2 a h = Inr (h, []) \<and>
    drop_check4 a h = Inr (h, [''Inspector(_, gadget) knows when *not* to inspect.'']) \<and>
    drop_world Inspector_drop2 [DaysField, InspectorField]
      \<lparr>inspector = Some (a, ''gadget''), days = a\<rparr> (h(a \<mapsto> Num 1)) = drop_check4 a h \<and>
    drop_world Inspector_drop1 [DaysField, InspectorField]
      \<lparr>inspector = Some (a, ''gadget''), days = a\<rparr> (h(a \<mapsto> Num 1)) = Inl (UB ''use after free'')"
proof -
  have h: "h(a := None) = h" using assms by auto
  have "drop_world Inspector_drop2 [DaysField, InspectorField]
      \<lparr>inspector = Some (a, ''gadget''), days = a\<rparr> (h(a \<mapsto> Num 1)) = drop_check4 a h"
    unfolding drop_check4_def world_fields_def by (rule insp2.any_order)
  then show ?thesis
    using h assms by (simp add: drop_check1_def drop_check2_def drop_check4_def drop_world_def
        world_fields_def deallocate_def read_cell_def Inspector_drop1_def Inspector_drop2_def)
qed

lemma drop_check_examples_witness: "drop_check1 3 Map.empty = Inr (Map.empty, [])"
  using drop_check_examples [of Map.empty 3] by simp

end
