(* ===== verification/CStrings.thy ===== *)
theory CStrings
  imports Memory Decimal
begin

text \<open>
  C strings crossing the boundary, \<^verbatim>\<open>idiom/ffi.rs\<close>: a log function that borrows the caller's
  buffer, one that copies it and forgets the terminating NUL, and two functions that pass an
  owned C string to \<open>seterr\<close>. Memory is a buffer whose bytes may be uninitialised; reading
  such a byte is undefined behaviour.
\<close>

section \<open>Buffers with uninitialised bytes\<close>

record ubuf =
  ub_base :: nat
  ub_data :: "u8 option list"

definition ub_end :: "ubuf \<Rightarrow> nat" where
  "ub_end m = ub_base m + length (ub_data m)"

definition ub_mapped :: "ubuf \<Rightarrow> nat \<Rightarrow> bool" where
  "ub_mapped m a \<longleftrightarrow> ub_base m \<le> a \<and> a < ub_end m"

definition uload :: "ubuf \<Rightarrow> nat \<Rightarrow> u8 outcome" where
  "uload m a =
     (if ub_mapped m a
      then case ub_data m ! (a - ub_base m) of
             None \<Rightarrow> Inl (UB ''read of uninitialised memory'')
           | Some b \<Rightarrow> Inr b
      else Inl (UB ''read outside the allocation''))"

definition ustore :: "ubuf \<Rightarrow> nat \<Rightarrow> u8 \<Rightarrow> ubuf outcome" where
  "ustore m a b =
     (if ub_mapped m a then Inr (m\<lparr>ub_data := (ub_data m)[a - ub_base m := Some b]\<rparr>)
      else Inl (UB ''write outside the allocation''))"

lemma ustore_eq_Inr:
  "ustore m a b = Inr m' \<longleftrightarrow>
     ub_mapped m a \<and> m' = m\<lparr>ub_data := (ub_data m)[a - ub_base m := Some b]\<rparr>"
  by (auto simp: ustore_def)

interpretation ub: byte_memory uload ustore ub_mapped
proof unfold_locales
  fix m a b m' c
  assume s: "ustore m a b = Inr m'"
  then show "uload m' a = Inr b"
    by (auto simp: ustore_eq_Inr uload_def ub_mapped_def ub_end_def)
  show "ub_mapped m' c = ub_mapped m c"
    using s by (auto simp: ustore_eq_Inr ub_mapped_def ub_end_def)
  show "uload m' c = uload m c" if "c \<noteq> a"
    using s that by (auto simp: ustore_eq_Inr uload_def ub_mapped_def ub_end_def nth_list_update)
qed (auto simp: ustore_def split: if_splits)

lemma uload_mapped: "uload m a = Inr b \<Longrightarrow> ub_base m \<le> a \<and> a < ub_end m"
  by (auto simp: uload_def ub_mapped_def split: if_splits)

section \<open>The C and standard library functions used\<close>

text \<open>\<open>strlen\<close>: bytes before the first NUL; running off the buffer is undefined.\<close>

function strlen :: "ubuf \<Rightarrow> nat \<Rightarrow> nat outcome" where
  "strlen m a =
     obind (uload m a) (\<lambda>b. if b = 0 then Inr 0 else obind (strlen m (Suc a)) (\<lambda>n. Inr (Suc n)))"
  by pat_completeness auto

termination
  by (relation "measure (\<lambda>(m, a). ub_end m - a)") (auto dest!: uload_mapped)

declare strlen.simps [simp del]

text \<open>\<open>core::str::from_utf8\<close>: the well-formed sequences of the Unicode standard.\<close>

definition byte_in :: "nat \<Rightarrow> nat \<Rightarrow> u8 \<Rightarrow> bool" where
  "byte_in lo hi b \<longleftrightarrow> lo \<le> unat b \<and> unat b \<le> hi"

fun utf8_valid :: "u8 list \<Rightarrow> bool" where
  "utf8_valid [] = True"
| "utf8_valid (b # bs) =
     (if byte_in 0 0x7F b then utf8_valid bs
      else if byte_in 0xC2 0xDF b then
        (case bs of c # r \<Rightarrow> byte_in 0x80 0xBF c \<and> utf8_valid r | _ \<Rightarrow> False)
      else if byte_in 0xE0 0xEF b then
        (case bs of c # d # r \<Rightarrow>
           byte_in (if unat b = 0xE0 then 0xA0 else 0x80) (if unat b = 0xED then 0x9F else 0xBF) c \<and>
           byte_in 0x80 0xBF d \<and> utf8_valid r
         | _ \<Rightarrow> False)
      else if byte_in 0xF0 0xF4 b then
        (case bs of c # d # e # r \<Rightarrow>
           byte_in (if unat b = 0xF0 then 0x90 else 0x80) (if unat b = 0xF4 then 0x8F else 0xBF) c \<and>
           byte_in 0x80 0xBF d \<and> byte_in 0x80 0xBF e \<and> utf8_valid r
         | _ \<Rightarrow> False)
      else False)"

text \<open>\<open>CString::from_vec_with_nul\<close>: the only NUL has to be the last byte.\<close>

datatype nul_error = InteriorNul nat | NotNulTerminated

fun first_nul :: "u8 list \<Rightarrow> nat option" where
  "first_nul [] = None"
| "first_nul (b # bs) = (if b = 0 then Some 0 else map_option Suc (first_nul bs))"

definition from_vec_with_nul :: "u8 list \<Rightarrow> nul_error + u8 list" where
  "from_vec_with_nul v =
     (case first_nul v of
        None \<Rightarrow> Inl NotNulTerminated
      | Some p \<Rightarrow> if Suc p = length v then Inr (butlast v) else Inl (InteriorNul p))"

text \<open>\<open>CString::new\<close>: \<open>NulError\<close> with the position and the bytes, or the bytes with a NUL.\<close>

definition CString_new :: "u8 list \<Rightarrow> (nat \<times> u8 list) + u8 list" where
  "CString_new v = (case first_nul v of None \<Rightarrow> Inr (v @ [0]) | Some p \<Rightarrow> Inl (p, v))"

lemma first_nul_None: "first_nul bs = None \<longleftrightarrow> 0 \<notin> set bs"
  by (induction bs) auto

lemma first_nul_append: "0 \<notin> set bs \<Longrightarrow> first_nul (bs @ cs) = map_option ((+) (length bs)) (first_nul cs)"
  by (induction bs) (cases "first_nul cs"; simp)+

definition text_bytes :: "string \<Rightarrow> u8 list" where
  "text_bytes s = map of_char s"

section \<open>The log functions\<close>

text \<open>
  What is printed, one list of bytes for each line. \<open>CStr::from_ptr\<close> finds the NUL and borrows
  the bytes before it.
\<close>

definition print_text :: "u8 list \<Rightarrow> u8 list" where
  "print_text bs = (if utf8_valid bs then bs else text_bytes ''FFI string conversion failed'')"

definition mylib_log :: "ubuf \<Rightarrow> nat \<Rightarrow> i32 \<Rightarrow> u8 list list outcome" where
  "mylib_log m msg level =
     obind (strlen m msg) (\<lambda>n. obind (load_bytes uload m msg n) (\<lambda>bs. Inr [print_text bs]))"

text \<open>
  \<open>mylib_log_ugly\<close>: \<open>fresh\<close> is the content of the memory that \<open>Vec::with_capacity\<close> returns, at
  an address \<open>base\<close>. The text of the unwrap panics is shortened.
\<close>

definition mylib_log_ugly :: "ubuf \<Rightarrow> nat \<Rightarrow> u8 option list \<Rightarrow> nat \<Rightarrow> i32 \<Rightarrow> u8 list list outcome" where
  "mylib_log_ugly m base fresh msg level =
     obind (strlen m msg) (\<lambda>msg_len.
     obind (load_bytes uload m msg msg_len) (\<lambda>src.
     obind (store_bytes ustore \<lparr>ub_base = base, ub_data = take (msg_len + 1) fresh\<rparr> base src) (\<lambda>v.
     obind (load_bytes uload v base (msg_len + 1)) (\<lambda>data.
       case from_vec_with_nul data of
         Inl e \<Rightarrow> Inl (Panic ''called Result::unwrap() on an Err value'')
       | Inr bs \<Rightarrow> Inr [print_text bs]))))"

text \<open>A C string at an address: initialised bytes, the first NUL right after them.\<close>

definition c_string :: "ubuf \<Rightarrow> nat \<Rightarrow> u8 list \<Rightarrow> bool" where
  "c_string m p bs \<longleftrightarrow> 0 \<notin> set bs \<and> load_bytes uload m p (length bs + 1) = Inr (bs @ [0])"

lemma c_string_bytes: "c_string m p bs \<Longrightarrow> load_bytes uload m p (length bs) = Inr bs"
  unfolding c_string_def load_bytes_append
  by (auto simp: obind_eq_Inr dest: length_load_bytes)

lemma c_string_strlen: "c_string m p bs \<Longrightarrow> strlen m p = Inr (length bs)"
proof (induction bs arbitrary: p)
  case Nil
  then show ?case by (simp add: c_string_def strlen.simps [of m p] obind_eq_Inr)
next
  case (Cons b bs)
  then have "uload m p = Inr b" "b \<noteq> 0" "c_string m (Suc p) bs"
    by (auto simp: c_string_def obind_eq_Inr)
  with Cons.IH show ?case by (simp add: strlen.simps [of m p])
qed

lemma load_uninit_buffer:
  "load_bytes uload \<lparr>ub_base = base, ub_data = pre @ map Some bs @ post\<rparr> (base + length pre) (length bs) = Inr bs"
proof (induction bs arbitrary: pre)
  case Nil
  then show ?case by simp
next
  case (Cons b bs)
  from Cons.IH [of "pre @ [Some b]"] show ?case
    by (simp add: uload_def ub_mapped_def ub_end_def)
qed

lemma store_uninit_buffer:
  "length xs = length bs \<Longrightarrow>
   store_bytes ustore \<lparr>ub_base = base, ub_data = pre @ xs @ post\<rparr> (base + length pre) bs =
     Inr \<lparr>ub_base = base, ub_data = pre @ map Some bs @ post\<rparr>"
proof (induction bs arbitrary: pre xs)
  case Nil
  then show ?case by simp
next
  case (Cons b bs)
  then obtain x ys where xs: "xs = x # ys" "length ys = length bs" by (cases xs) auto
  have "ustore \<lparr>ub_base = base, ub_data = pre @ xs @ post\<rparr> (base + length pre) b =
      Inr \<lparr>ub_base = base, ub_data = (pre @ [Some b]) @ ys @ post\<rparr>"
    using xs by (simp add: ustore_def ub_mapped_def ub_end_def)
  with Cons.IH [OF xs(2), of "pre @ [Some b]"] show ?case by simp
qed

section \<open>Passing strings to the other side\<close>

text \<open>
  \<open>seterr\<close> of the file: prints the byte at the pointer as a signed number. A C string on the
  heap is a buffer while it is alive; dropping it leaves nothing to read.
\<close>

definition c_buffer :: "nat \<Rightarrow> u8 list \<Rightarrow> ubuf" where
  "c_buffer base bs = \<lparr>ub_base = base, ub_data = map Some bs\<rparr>"

definition dropped_buffer :: ubuf where
  "dropped_buffer = \<lparr>ub_base = 0, ub_data = []\<rparr>"

definition seterr :: "ubuf \<Rightarrow> nat \<Rightarrow> string outcome" where
  "seterr m message = obind (uload m message) (\<lambda>b. Inr (show_int (sint b)))"

text \<open>
  The owned C string is bound to a variable that lives until the function returns. The result:
  what was printed, and \<open>Ok\<close> or the \<open>NulError\<close> that \<open>?\<close> returns early.
\<close>

definition report_error_to_ffi :: "nat \<Rightarrow> u8 list \<Rightarrow> (string list \<times> (nat \<times> u8 list + unit)) outcome" where
  "report_error_to_ffi base err =
     (case CString_new err of
        Inl e \<Rightarrow> Inr ([], Inl e)
      | Inr bs \<Rightarrow> obind (seterr (c_buffer base bs) base) (\<lambda>l. Inr ([l], Inr ())))"

text \<open>
  Here the C string is a temporary of the argument of \<open>seterr(..)\<close>. \<open>end_of_call\<close> says whether
  temporaries of an argument live until the call has returned, as they do in Rust (they are
  dropped at the end of the enclosing statement), or are dropped before the call.
\<close>

definition temporary_during_call :: "bool \<Rightarrow> ubuf \<Rightarrow> ubuf" where
  "temporary_during_call end_of_call m = (if end_of_call then m else dropped_buffer)"

definition report_error_with :: "bool \<Rightarrow> nat \<Rightarrow> u8 list \<Rightarrow> (string list \<times> (nat \<times> u8 list + unit)) outcome" where
  "report_error_with end_of_call base err =
     (case CString_new err of
        Inl e \<Rightarrow> Inr ([], Inl e)
      | Inr bs \<Rightarrow>
          obind (seterr (temporary_during_call end_of_call (c_buffer base bs)) base)
            (\<lambda>l. Inr ([l], Inr ())))"

definition report_error :: "nat \<Rightarrow> u8 list \<Rightarrow> (string list \<times> (nat \<times> u8 list + unit)) outcome" where
  "report_error = report_error_with True"

section \<open>Properties\<close>

text \<open>
  C36: \<open>mylib_log\<close> prints the caller's string: if the pointer leads to a C string, exactly the
  bytes before the NUL are printed when they are UTF-8 and the fixed message otherwise. If no
  NUL follows the pointer inside the buffer, the call is undefined behaviour.
\<close>

theorem mylib_log_prints:
  "(\<forall>bs. c_string m p bs \<longrightarrow> mylib_log m p level = Inr [print_text bs]) \<and>
   ((\<forall>i. uload m (p + i) \<noteq> Inr 0) \<longrightarrow> (\<exists>e. mylib_log m p level = Inl (UB e)))"
proof (intro conjI allI impI)
  fix bs
  assume "c_string m p bs"
  then show "mylib_log m p level = Inr [print_text bs]"
    by (simp add: mylib_log_def c_string_strlen c_string_bytes)
next
  have "\<exists>e. strlen m p = Inl (UB e)" if "\<forall>i. uload m (p + i) \<noteq> Inr 0" for p
    using that
  proof (induction m p rule: strlen.induct)
    case (1 m p)
    show ?case
    proof (cases "uload m p")
      case (Inl e)
      then show ?thesis
        by (subst strlen.simps) (auto simp: uload_def split: if_splits option.splits)
    next
      case (Inr b)
      then have b: "b \<noteq> 0" using 1(2) [rule_format, of 0] by auto
      have "uload m (Suc p + i) \<noteq> Inr 0" for i using 1(2) [rule_format, of "Suc i"] by simp
      with 1(1) [OF Inr b] Inr b show ?thesis by (auto simp: strlen.simps [of m p])
    qed
  qed
  moreover assume "\<forall>i. uload m (p + i) \<noteq> Inr 0"
  ultimately show "\<exists>e. mylib_log m p level = Inl (UB e)" by (fastforce simp: mylib_log_def)
qed

lemma mylib_log_prints_witness:
  "mylib_log (c_buffer 100 [72, 105, 0]) 100 0 = Inr [[72, 105]] \<and>
   (\<exists>e. mylib_log (c_buffer 100 [72, 105]) 100 0 = Inl (UB e))"
proof -
  have "c_string (c_buffer 100 [72, 105, 0]) 100 [72, 105]"
    by (simp add: c_string_def c_buffer_def uload_def ub_mapped_def ub_end_def)
  moreover have "print_text [72, 105] = [72, 105]" by (simp add: print_text_def byte_in_def)
  moreover have "\<forall>i. uload (c_buffer 100 [72, 105]) (100 + i) \<noteq> Inr 0"
    by (auto simp: c_buffer_def uload_def ub_mapped_def ub_end_def dest!: less_2_cases)
  ultimately show ?thesis
    using mylib_log_prints [of "c_buffer 100 [72, 105, 0]" 100 0]
      mylib_log_prints [of "c_buffer 100 [72, 105]" 100 0] by fastforce
qed

text \<open>
  C20: \<open>mylib_log_ugly\<close> never copies the NUL. What happens depends on the byte that the fresh
  allocation holds after the copy: if it is uninitialised, reading it is undefined behaviour;
  if it is some other byte the conversion's \<open>unwrap\<close> panics; only a chance zero makes the
  function print what \<open>mylib_log\<close> prints.
\<close>

theorem mylib_log_ugly_last_byte:
  assumes "c_string m p bs" and "length bs < length fresh"
  shows "mylib_log_ugly m base fresh p level =
    (case fresh ! length bs of
       None \<Rightarrow> Inl (UB ''read of uninitialised memory'')
     | Some g \<Rightarrow> if g = 0 then mylib_log m p level
         else Inl (Panic ''called Result::unwrap() on an Err value''))"
proof -
  let ?n = "length bs"
  let ?v = "\<lparr>ub_base = base, ub_data = map Some bs @ [fresh ! ?n]\<rparr>"
  have nul: "0 \<notin> set bs" using assms(1) by (simp add: c_string_def)
  have "store_bytes ustore \<lparr>ub_base = base, ub_data = take ?n fresh @ [fresh ! ?n]\<rparr> base bs = Inr ?v"
    using store_uninit_buffer [of "take ?n fresh" bs base "[]" "[fresh ! ?n]"] assms(2) by simp
  then have st: "store_bytes ustore \<lparr>ub_base = base, ub_data = take (?n + 1) fresh\<rparr> base bs = Inr ?v"
    using assms(2) by (simp add: take_Suc_conv_app_nth)
  have "load_bytes uload ?v base ?n = Inr bs"
    using load_uninit_buffer [of base "[]" bs "[fresh ! ?n]"] by simp
  then have ld: "load_bytes uload ?v base (?n + 1) =
      (case fresh ! ?n of None \<Rightarrow> Inl (UB ''read of uninitialised memory'') | Some g \<Rightarrow> Inr (bs @ [g]))"
    unfolding load_bytes_append
    by (simp add: uload_def ub_mapped_def ub_end_def nth_append split: option.splits)
  have "from_vec_with_nul (bs @ [g]) = (if g = 0 then Inr bs else Inl NotNulTerminated)" for g
    using nul by (simp add: from_vec_with_nul_def first_nul_append)
  with st ld assms(1) show ?thesis
    by (simp add: mylib_log_ugly_def mylib_log_def c_string_strlen c_string_bytes split: option.splits
        del: load_bytes.simps)
qed

lemma mylib_log_ugly_last_byte_witness:
  "mylib_log_ugly (c_buffer 100 [72, 105, 0]) 500 [None, None, None] 100 0 =
     Inl (UB ''read of uninitialised memory'')"
proof -
  have "c_string (c_buffer 100 [72, 105, 0]) 100 [72, 105]"
    by (simp add: c_string_def c_buffer_def uload_def ub_mapped_def ub_end_def)
  from mylib_log_ugly_last_byte [OF this, of "[None, None, None]" 500 0] show ?thesis by simp
qed

text \<open>
  The two report functions agree. \<open>report_error\<close> passes a pointer into a temporary, which
  Rust keeps alive until the statement ends, so \<open>seterr\<close> reads valid memory: both functions
  return the \<open>NulError\<close> of a string with a NUL inside without calling \<open>seterr\<close>, and print the
  first byte as a signed number otherwise. The pointer would dangle only if the temporary were
  dropped before the call.
\<close>

theorem report_error_agree:
  assumes "0 < base"
  shows "report_error base err = report_error_to_ffi base err \<and>
    report_error_to_ffi base err =
      (case first_nul err of
         Some p \<Rightarrow> Inr ([], Inl (p, err))
       | None \<Rightarrow> Inr ([show_int (sint (hd (err @ [0])))], Inr ())) \<and>
    (0 \<notin> set err \<longrightarrow> report_error_with False base err = Inl (UB ''read outside the allocation''))"
proof -
  have "uload (c_buffer base (err @ [0])) base = Inr (hd (err @ [0]))"
    by (cases err) (simp_all add: c_buffer_def uload_def ub_mapped_def ub_end_def)
  moreover have "uload dropped_buffer base = Inl (UB ''read outside the allocation'')"
    using assms by (simp add: dropped_buffer_def uload_def ub_mapped_def ub_end_def)
  ultimately show ?thesis
    by (simp add: report_error_def report_error_with_def report_error_to_ffi_def CString_new_def
        temporary_during_call_def seterr_def first_nul_None [symmetric] split: option.splits)
qed

lemma report_error_agree_witness:
  "report_error 100 (text_bytes ''value'') = Inr ([''118''], Inr ())"
proof -
  have "show_int (118 :: int) = ''118''"
    by code_simp
  then show ?thesis
    using report_error_agree [of 100 "text_bytes ''value''"] by (simp add: text_bytes_def)
qed

end
