(* ===== verification/Strings.thy ===== *)
theory Strings
  imports Prelude
begin

text \<open>
  String building and scanning: \<open>three_vowels\<close> of \<^verbatim>\<open>use_borrowed_types_for_arguments.rs\<close>, and
  \<open>say_hello\<close>, \<open>use_push\<close> and \<open>use_format\<close> of \<^verbatim>\<open>concatenating_strings_with_format.rs\<close>. The
  characters of a string are its Unicode scalar values; an owned string is its UTF-8 bytes
  and the capacity of its buffer, with a count of the reallocations it has made.
\<close>

section \<open>Three consecutive vowels\<close>

type_synonym chars = "u32 list"

definition chars :: "string \<Rightarrow> chars" where
  "chars s = map of_char s"

definition is_vowel :: "u32 \<Rightarrow> bool" where
  "is_vowel c \<longleftrightarrow> c \<in> set (chars ''aeiou'')"

text \<open>The loop: \<open>vowels\<close> is an \<open>i32\<close>, incremented with an overflow check.\<close>

fun vowel_loop :: "i32 \<Rightarrow> chars \<Rightarrow> bool outcome" where
  "vowel_loop vowels [] = Inr False"
| "vowel_loop vowels (c # cs) =
     (if is_vowel c
      then obind (checked_sadd vowels 1)
             (\<lambda>v. if 3 \<le> sint v then Inr True else vowel_loop v cs)
      else vowel_loop 0 cs)"

definition three_vowels :: "chars \<Rightarrow> bool outcome" where
  "three_vowels word = vowel_loop 0 word"

text \<open>The sentence loop of the test: \<open>split(' ')\<close>, and the words that are printed.\<close>

fun split_on :: "'a \<Rightarrow> 'a list \<Rightarrow> 'a list list" where
  "split_on x [] = [[]]"
| "split_on x (c # cs) =
     (if c = x then [] # split_on x cs
      else case split_on x cs of w # ws \<Rightarrow> (c # w) # ws | [] \<Rightarrow> [[c]])"

definition vowel_words :: "chars \<Rightarrow> chars list outcome" where
  "vowel_words sentence =
     ofold (\<lambda>w out. obind (three_vowels w) (\<lambda>b. Inr (if b then out @ [w] else out)))
       (split_on 32 sentence) []"

text \<open>What the function decides: some three neighbouring characters are vowels.\<close>

definition vowel_run :: "chars \<Rightarrow> bool" where
  "vowel_run w \<longleftrightarrow> (\<exists>xs ys zs. w = xs @ ys @ zs \<and> length ys = 3 \<and> (\<forall>c \<in> set ys. is_vowel c))"

definition starts_with_vowels :: "nat \<Rightarrow> chars \<Rightarrow> bool" where
  "starts_with_vowels n w \<longleftrightarrow> n \<le> length w \<and> (\<forall>c \<in> set (take n w). is_vowel c)"

lemma starts_simps [simp]:
  "starts_with_vowels 0 w" "\<not> starts_with_vowels (Suc n) []"
  "starts_with_vowels (Suc n) (c # w) \<longleftrightarrow> is_vowel c \<and> starts_with_vowels n w"
  by (auto simp: starts_with_vowels_def)

lemma vowel_run_Nil [simp]: "\<not> vowel_run []"
  by (simp add: vowel_run_def)

lemma vowel_run_Cons: "vowel_run (c # w) \<longleftrightarrow> starts_with_vowels 3 (c # w) \<or> vowel_run w"
proof
  assume "vowel_run (c # w)"
  then obtain xs ys zs where s: "c # w = xs @ ys @ zs" "length ys = 3" "\<forall>c \<in> set ys. is_vowel c"
    by (auto simp: vowel_run_def)
  show "starts_with_vowels 3 (c # w) \<or> vowel_run w"
  proof (cases xs)
    case Nil
    with s show ?thesis by (simp add: starts_with_vowels_def)
  next
    case (Cons x xs')
    with s show ?thesis by (auto simp: vowel_run_def)
  qed
next
  assume "starts_with_vowels 3 (c # w) \<or> vowel_run w"
  then show "vowel_run (c # w)"
  proof
    assume "starts_with_vowels 3 (c # w)"
    then show ?thesis
      unfolding vowel_run_def starts_with_vowels_def
      by (intro exI [of _ "[]"] exI [of _ "take 3 (c # w)"] exI [of _ "drop 3 (c # w)"]) simp
  next
    assume "vowel_run w"
    then show ?thesis unfolding vowel_run_def by (metis append_Cons)
  qed
qed

lemma starts_mono: "starts_with_vowels n w \<Longrightarrow> m \<le> n \<Longrightarrow> starts_with_vowels m w"
  by (auto simp: starts_with_vowels_def dest: in_set_takeD set_take_subset_set_take [THEN subsetD, rotated])

lemma vowel_loop_run:
  "0 \<le> sint v \<Longrightarrow> sint v < 3 \<Longrightarrow>
     vowel_loop v cs = Inr (starts_with_vowels (3 - nat (sint v)) cs \<or> vowel_run cs)"
proof (induction cs arbitrary: v)
  case Nil
  then have "3 - nat (sint v) = Suc (2 - nat (sint v))" by simp
  then show ?case by simp
next
  case (Cons c cs)
  have s: "3 - nat (sint v) = Suc (2 - nat (sint v))" using Cons.prems by simp
  show ?case
  proof (cases "is_vowel c")
    case False
    have "\<not> starts_with_vowels (3 - nat (sint v)) (c # cs)" unfolding s using False by simp
    moreover have "\<not> starts_with_vowels 3 (c # cs)" using False by (simp add: numeral_3_eq_3)
    moreover have "vowel_loop 0 cs = Inr (vowel_run cs)"
      using Cons.IH [of 0] by (cases cs) (auto simp: vowel_run_Cons)
    ultimately show ?thesis using False by (simp add: vowel_run_Cons)
  next
    case True
    from Cons.prems obtain v' where v': "checked_sadd v 1 = Inr v'"
      by (simp add: checked_sadd_def)
    then have sv: "sint v' = sint v + 1" by (simp add: sint_checked_sadd)
    have "nat (sint v') = Suc (nat (sint v))" using sv Cons.prems by simp
    then have st: "2 - nat (sint v) = 3 - nat (sint v')" by simp
    show ?thesis
    proof (cases "3 \<le> sint v'")
      case True': True
      with sv Cons.prems have "nat (sint v) = 2" by simp
      then show ?thesis using True v' True' s by simp
    next
      case False
      with Cons.IH [of v'] sv Cons.prems have
        "vowel_loop v' cs = Inr (starts_with_vowels (3 - nat (sint v')) cs \<or> vowel_run cs)" by simp
      moreover have "starts_with_vowels 2 cs \<Longrightarrow> starts_with_vowels (2 - nat (sint v)) cs"
        by (erule starts_mono) (rule diff_le_self)
      ultimately show ?thesis
        using True v' False s st by (auto simp: vowel_run_Cons numeral_3_eq_3 numeral_2_eq_2)
    qed
  qed
qed

section \<open>Owned strings\<close>

text \<open>Literals of the sources are ASCII: one byte for each character.\<close>

definition str_bytes :: "string \<Rightarrow> u8 list" where
  "str_bytes s = map of_char s"

record rust_string =
  scap :: nat
  sbuf :: "u8 list"
  reallocs :: nat

text \<open>The length sums on \<open>usize\<close>, and the largest allocation, \<open>isize::MAX\<close>.\<close>

definition usize_add :: "nat \<Rightarrow> nat \<Rightarrow> nat outcome" where
  "usize_add a b = (if a + b < 2 ^ 64 then Inr (a + b) else Inl (Panic ''attempt to add with overflow''))"

definition with_capacity :: "nat \<Rightarrow> rust_string outcome" where
  "with_capacity n =
     (if n < 2 ^ 63 then Inr \<lparr>scap = n, sbuf = [], reallocs = 0\<rparr> else Inl (Panic ''capacity overflow''))"

text \<open>\<open>push_str\<close> grows the buffer when the capacity is too small (doubling it, to at least 8 bytes).\<close>

definition push_str :: "u8 list \<Rightarrow> rust_string \<Rightarrow> rust_string outcome" where
  "push_str t s =
     (let need = length (sbuf s) + length t
      in if need \<le> scap s then Inr (s\<lparr>sbuf := sbuf s @ t\<rparr>)
         else if need < 2 ^ 63
         then Inr \<lparr>scap = max 8 (max need (2 * scap s)), sbuf = sbuf s @ t, reallocs = Suc (reallocs s)\<rparr>
         else Inl (Panic ''capacity overflow''))"

definition say_hello :: "u8 list \<Rightarrow> u8 list" where
  "say_hello name = str_bytes ''Hello, '' @ name @ str_bytes ''!''"

text \<open>The manual construction shown in the comment of \<open>say_hello\<close>.\<close>

definition say_hello_manual :: "u8 list \<Rightarrow> u8 list" where
  "say_hello_manual name = (str_bytes ''Hello '' @ name) @ str_bytes ''!''"

definition grant :: "u8 list" where
  "grant = str_bytes ''grant_type=password&username=''"

definition password_key :: "u8 list" where
  "password_key = str_bytes ''&password=''"

definition use_push :: "u8 list \<Rightarrow> u8 list \<Rightarrow> rust_string outcome" where
  "use_push username password =
     obind (usize_add (length grant) (length username)) (\<lambda>a.
     obind (usize_add a (length password_key)) (\<lambda>b.
     obind (usize_add b (length password)) (\<lambda>n.
     obind (with_capacity n) (ofold push_str [grant, username, password_key, password]))))"

definition use_format :: "u8 list \<Rightarrow> u8 list \<Rightarrow> u8 list" where
  "use_format username password =
     concat [str_bytes ''grant_type=password&username='', username, str_bytes ''&password='', password]"

text \<open>Pushes into enough room do not reallocate.\<close>

lemma push_all_fits:
  "length (sbuf s) + length (concat ts) \<le> scap s \<Longrightarrow>
     ofold push_str ts s = Inr (s\<lparr>sbuf := sbuf s @ concat ts\<rparr>)"
  by (induction ts arbitrary: s) (simp_all add: push_str_def Let_def)

section \<open>Properties\<close>

text \<open>
  C40: \<open>three_vowels\<close> decides its specification on every string: the answer is true exactly
  when three consecutive characters are vowels, and its counter never overflows.
\<close>

theorem three_vowels_correct: "three_vowels w = Inr (vowel_run w)"
  using vowel_loop_run [of 0 w] by (cases w) (auto simp: three_vowels_def vowel_run_Cons)

text \<open>
  The test's inputs: \<open>Ferris\<close> has no three consecutive vowels and \<open>Curious\<close> has; of the
  words of the sentence exactly one is printed.
\<close>

theorem vowel_words_of_test:
  "three_vowels (chars ''Ferris'') = Inr False \<and> three_vowels (chars ''Curious'') = Inr True \<and>
   vowel_words (chars ''Once upon a time, there was a friendly curious crab named Ferris'') =
     Inr [chars ''curious'']"
  by code_simp

text \<open>
  The two ways to build the request body agree: as long as the total fits an allocation,
  \<open>use_push\<close> returns the string of \<open>use_format\<close> with a capacity equal to its length and
  without any reallocation; beyond that it panics.
\<close>

theorem use_push_eq_format:
  "(length (use_format u p) < 2 ^ 63 \<longrightarrow> use_push u p =
      Inr \<lparr>scap = length (use_format u p), sbuf = use_format u p, reallocs = 0\<rparr>) \<and>
   (2 ^ 63 \<le> length (use_format u p) \<longrightarrow> (\<exists>m. use_push u p = Inl (Panic m)))"
proof -
  let ?n = "length grant + length u + length password_key + length p"
  have f: "use_format u p = concat [grant, u, password_key, p]"
    by (simp add: use_format_def grant_def password_key_def)
  have "ofold push_str [grant, u, password_key, p] \<lparr>scap = ?n, sbuf = [], reallocs = 0\<rparr> =
      Inr \<lparr>scap = ?n, sbuf = use_format u p, reallocs = 0\<rparr>"
    by (subst push_all_fits) (simp_all add: f)
  then show ?thesis
    by (auto simp: use_push_def usize_add_def with_capacity_def f add.assoc)
qed

lemma use_push_eq_format_witness:
  "\<exists>s. use_push (str_bytes ''my_real_login'') (str_bytes ''with my real password'') = Inr s \<and>
     reallocs s = 0 \<and> scap s = 73"
proof -
  have "length (use_format (str_bytes ''my_real_login'') (str_bytes ''with my real password'')) = 73"
    by (simp add: use_format_def str_bytes_def)
  with use_push_eq_format [of "str_bytes ''my_real_login''" "str_bytes ''with my real password''"]
  show ?thesis by auto
qed

text \<open>
  \<open>say_hello\<close> greets with a comma; the construction its comment gives as equivalent never
  returns the same string.
\<close>

theorem say_hello_differs:
  "say_hello name = str_bytes ''Hello, '' @ name @ str_bytes ''!'' \<and>
   say_hello name \<noteq> say_hello_manual name \<and>
   length (say_hello name) = Suc (length (say_hello_manual name))"
  by (auto simp: say_hello_def say_hello_manual_def str_bytes_def)

end
