(* ===== verification/Aliasing.thy ===== *)
theory Aliasing
  imports Prelude
begin

text \<open>
  The functions of \<^verbatim>\<open>ownership/reference_aliasing/src/main.rs\<close>, over a store of \<open>u32\<close> cells so
  that the two references may name the same cell: \<open>compute_v1\<close>, \<open>compute_v2\<close>, and the
  optimised function that the comment would like to compile \<open>compute_v1\<close> to.
\<close>

type_synonym store = "nat \<Rightarrow> u32"

definition double_at :: "nat \<Rightarrow> store \<Rightarrow> store outcome" where
  "double_at output m = obind (checked_mul (m output) 2) (\<lambda>v. Inr (m(output := v)))"

definition compute_v1 :: "nat \<Rightarrow> nat \<Rightarrow> store \<Rightarrow> store outcome" where
  "compute_v1 input output m =
     (let m1 = (if 10 < m input then m(output := 1) else m)
      in if 5 < m1 input then double_at output m1 else Inr m1)"

definition compute_v2 :: "nat \<Rightarrow> nat \<Rightarrow> store \<Rightarrow> store outcome" where
  "compute_v2 input output m =
     (let temp = m output;
          temp1 = (if 10 < m input then 1 else temp)
      in obind (if 5 < m input then checked_mul temp1 2 else Inr temp1)
           (\<lambda>temp2. Inr (m(output := temp2))))"

text \<open>The optimised function of the comment.\<close>

definition compute_opt :: "nat \<Rightarrow> nat \<Rightarrow> store \<Rightarrow> store outcome" where
  "compute_opt input output m =
     (let cached_input = m input
      in if 10 < cached_input then Inr (m(output := 2))
         else if 5 < cached_input then double_at output m
         else Inr m)"

text \<open>The two calls of \<open>main\<close> with the variables at four addresses; both call \<open>compute_v1\<close>.\<close>

definition alias_main :: "store outcome" where
  "alias_main =
     obind (compute_v1 0 1 ((\<lambda>_. 0)(0 := 11, 1 := 1))) (\<lambda>m.
       compute_v1 2 3 (m(2 := 12, 3 := 2)))"

lemma checked_mul_1_2 [simp]: "checked_mul (1 :: u32) 2 = Inr 2"
  by (simp add: checked_mul_def)

lemma word_10_5: "10 < (w :: u32) \<Longrightarrow> 5 < w"
  by (rule less_trans [of _ 10]) simp_all

lemma compute_v2_opt: "compute_v2 i p m = compute_opt i p m"
  by (cases "10 < m i") (simp_all add: compute_v2_def compute_opt_def double_at_def word_10_5)

lemma compute_v1_distinct: "i \<noteq> p \<Longrightarrow> compute_v1 i p m = compute_opt i p m"
  by (cases "10 < m i") (simp_all add: compute_v1_def compute_opt_def double_at_def word_10_5)

lemma compute_v1_same:
  "compute_v1 i i m = (if 10 < m i then Inr (m(i := 1)) else compute_opt i i m)"
  by (simp add: compute_v1_def compute_opt_def)

lemma fun_upd_eq_iff': "(m :: store)(i := v) = m(i := w) \<longleftrightarrow> v = w"
  by (metis fun_upd_same)

section \<open>Properties\<close>

text \<open>
  C38: When the optimisation is valid. \<open>compute_v2\<close> is the optimised function, panics
  included, whether or not its references alias. \<open>compute_v1\<close> is it exactly when they do not
  alias or the input is at most 10: without aliasing the two agree on every store, and with it
  an input above 10 ends as 1 instead of 2.
\<close>

theorem optimisation_valid_iff:
  "compute_v2 i p m = compute_opt i p m \<and>
   (compute_v1 i p m = compute_opt i p m \<longleftrightarrow> i \<noteq> p \<or> m i \<le> 10) \<and>
   (10 < m i \<longrightarrow> compute_v1 i i m = Inr (m(i := 1)) \<and> compute_opt i i m = Inr (m(i := 2)))"
proof -
  have same: "compute_v1 i i m = compute_opt i i m \<longleftrightarrow> m i \<le> 10"
    by (auto simp: compute_v1_same compute_opt_def fun_upd_eq_iff' linorder_not_less)
  show ?thesis
  proof (intro conjI impI)
    show "compute_v2 i p m = compute_opt i p m" by (rule compute_v2_opt)
    show "compute_v1 i p m = compute_opt i p m \<longleftrightarrow> i \<noteq> p \<or> m i \<le> 10"
      using same by (cases "i = p") (simp_all add: compute_v1_distinct)
  qed (simp_all add: compute_v1_same compute_opt_def)
qed

lemma optimisation_valid_iff_witness:
  "compute_v1 7 7 ((\<lambda>_. 0)(7 := 20)) \<noteq> compute_opt 7 7 ((\<lambda>_. 0)(7 := 20)) \<and>
   compute_v1 7 7 ((\<lambda>_. 0)(7 := 20)) = Inr ((\<lambda>_. 0)(7 := 1))"
  using optimisation_valid_iff [of 7 7 "(\<lambda>_. 0)(7 := 20)"] by (simp add: fun_upd_eq_iff')

text \<open>
  Without aliasing \<open>compute_v1\<close> writes only its output: 2 for an input above 10, twice the
  old value (or an overflow panic) for one from 6 to 10, the old value below.
\<close>

theorem compute_v1_result:
  assumes "i \<noteq> p"
  shows "compute_v1 i p m =
    (if 10 < m i then Inr (m(p := 2))
     else if 5 < m i then
       (if unat (m p) < 2 ^ 31 then Inr (m(p := 2 * m p))
        else Inl (Panic ''attempt to multiply with overflow''))
     else Inr m)"
  using assms
  by (simp add: compute_v1_distinct compute_opt_def double_at_def checked_mul_def mult.commute)

lemma compute_v1_result_witness: "\<exists>m. alias_main = Inr m \<and> m 1 = 2 \<and> m 3 = 2"
  using compute_v1_result [of 0 1 "(\<lambda>_. 0)(0 := 11, 1 := 1)"]
    compute_v1_result [of 2 3 "(\<lambda>_. 0)(0 := 11, 1 := 2, 2 := 12, 3 := 2)"]
  by (simp add: alias_main_def)

end
