(* ===== verification/Layout.thy ===== *)
theory Layout
  imports Memory "HOL-Library.Multiset"
begin

text \<open>
  Type layout, \<^verbatim>\<open>data_layout/src\<close>: the sizes and alignments of the primitive types, arrays,
  \<open>#[repr(C)]\<close> structs, unions and enums of \<^verbatim>\<open>repr_rust.rs\<close> and \<^verbatim>\<open>binding.rs\<close> (the nodes of
  \<^verbatim>\<open>nodes.h\<close>), the niche optimisation of \<open>Option\<close> that \<^verbatim>\<open>main.rs\<close> prints, for a 64-bit
  target, and the raw pointer reads of \<^verbatim>\<open>main.rs\<close> and \<^verbatim>\<open>repr_rust.rs\<close> over a stack slot.
\<close>

section \<open>Sizes and alignments\<close>

text \<open>
  \<open>Scalar n k\<close>: \<open>n\<close> bytes aligned to \<open>n\<close>, with \<open>k\<close> bit patterns that are not values (the niches
  an enclosing \<open>Option\<close> may use). \<open>Struct\<close> and \<open>Union\<close> are \<open>repr(C)\<close>.
\<close>

datatype lty = Scalar nat nat | Array lty nat | Struct "lty list" | Union "lty list" | OptionOf lty

definition round_up :: "nat \<Rightarrow> nat \<Rightarrow> nat" where
  "round_up n a = (n + a - 1) div a * a"

text \<open>The fields of a struct as pairs of size and alignment, placed from an offset on.\<close>

fun offsets :: "nat \<Rightarrow> (nat \<times> nat) list \<Rightarrow> nat list" where
  "offsets off [] = []"
| "offsets off ((s, a) # fs) = round_up off a # offsets (round_up off a + s) fs"

fun struct_end :: "nat \<Rightarrow> (nat \<times> nat) list \<Rightarrow> nat" where
  "struct_end off [] = off"
| "struct_end off ((s, a) # fs) = struct_end (round_up off a + s) fs"

definition max_list :: "nat list \<Rightarrow> nat" where
  "max_list ns = foldr max ns 1"

fun align_of :: "lty \<Rightarrow> nat" where
  "align_of (Scalar n k) = n"
| "align_of (Array t n) = align_of t"
| "align_of (Struct ts) = max_list (map align_of ts)"
| "align_of (Union ts) = max_list (map align_of ts)"
| "align_of (OptionOf t) = align_of t"

text \<open>Niches of an array and a union are not used; a struct offers those of its best field.\<close>

fun niches :: "lty \<Rightarrow> nat" where
  "niches (Scalar n k) = k"
| "niches (Array t n) = 0"
| "niches (Struct ts) = foldr max (map niches ts) 0"
| "niches (Union ts) = 0"
| "niches (OptionOf t) = (if niches t = 0 then 254 else niches t - 1)"

definition struct_size :: "(nat \<times> nat) list \<Rightarrow> nat" where
  "struct_size fs = round_up (struct_end 0 fs) (max_list (map snd fs))"

fun size_of :: "lty \<Rightarrow> nat" where
  "size_of (Scalar n k) = n"
| "size_of (Array t n) = size_of t * n"
| "size_of (Struct ts) = struct_size (map (\<lambda>t. (size_of t, align_of t)) ts)"
| "size_of (Union ts) = round_up (max_list (map size_of ts)) (max_list (map align_of ts))"
| "size_of (OptionOf t) =
     (if niches t = 0 then round_up (size_of t + 1) (align_of t) else size_of t)"

definition field_offsets :: "lty list \<Rightarrow> nat list" where
  "field_offsets ts = offsets 0 (map (\<lambda>t. (size_of t, align_of t)) ts)"

fun fields_of :: "lty \<Rightarrow> lty list" where
  "fields_of (Struct ts) = ts"
| "fields_of t = []"

section \<open>The primitive types and pointers\<close>

definition lbool :: lty where "lbool = Scalar 1 254"
definition lu8 :: lty where "lu8 = Scalar 1 0"
definition lu16 :: lty where "lu16 = Scalar 2 0"
definition lu32 :: lty where "lu32 = Scalar 4 0"
definition lu64 :: lty where "lu64 = Scalar 8 0"
definition lf32 :: lty where "lf32 = Scalar 4 0"
definition lf64 :: lty where "lf64 = Scalar 8 0"
definition lunit :: lty where "lunit = Struct []"

text \<open>A reference, a box or a function pointer is not null; a raw pointer may be.\<close>

definition WIDTH :: nat where "WIDTH = 8"
definition DOUBLE_WIDTH :: nat where "DOUBLE_WIDTH = 2 * WIDTH"
definition lref :: lty where "lref = Scalar WIDTH 1"
definition lrawptr :: lty where "lrawptr = Scalar WIDTH 0"
definition lfat :: lty where "lfat = Struct [lref, lu64]"
definition lvec :: lty where "lvec = Struct [lref, lu64, lu64]"

section \<open>Arithmetic of placement\<close>

lemma round_up_ge: "0 < a \<Longrightarrow> n \<le> round_up n a"
proof -
  assume a: "0 < a"
  have "(n + a - 1) div a * a + (n + a - 1) mod a = n + a - 1" by simp
  moreover have "(n + a - 1) mod a < a" using a by simp
  ultimately show ?thesis using a unfolding round_up_def by linarith
qed

lemma round_up_less: "0 < a \<Longrightarrow> round_up n a < n + a"
proof -
  assume a: "0 < a"
  have "(n + a - 1) div a * a \<le> n + a - 1" by (rule div_times_less_eq_dividend)
  with a show ?thesis unfolding round_up_def by linarith
qed

lemma round_up_dvd [simp]: "a dvd round_up n a"
  by (simp add: round_up_def)

lemma round_up_id: "0 < a \<Longrightarrow> a dvd n \<Longrightarrow> round_up n a = n"
proof -
  assume "0 < a" "a dvd n"
  then obtain k where n: "n = a * k" by blast
  have "(a * k + a - 1) div a = k"
    using \<open>0 < a\<close> by (metis Suc_diff_1 add_diff_cancel_left' div_mult_self4 div_less diff_Suc_less
        add.commute mult.commute Nat.add_diff_assoc2 add_0 less_imp_le_nat nat_less_le not_less0
        One_nat_def Suc_leI gr0_conv_Suc Nat.add_diff_assoc)
  with n show ?thesis by (simp add: round_up_def mult.commute)
qed

lemma round_up_mono: "m \<le> n \<Longrightarrow> round_up m a \<le> round_up n a"
  unfolding round_up_def by (intro mult_le_mono1 div_le_mono) simp

text \<open>Alignments are positive.\<close>

definition placed :: "(nat \<times> nat) list \<Rightarrow> bool" where
  "placed fs \<longleftrightarrow> (\<forall>(s, a) \<in> set fs. 0 < a)"

lemma placed_simps [simp]: "placed []" "placed ((s, a) # fs) \<longleftrightarrow> 0 < a \<and> placed fs"
  by (auto simp: placed_def)

lemma struct_end_ge: "placed fs \<Longrightarrow> off + sum_list (map fst fs) \<le> struct_end off fs"
proof (induction off fs rule: struct_end.induct)
  case (1 off)
  then show ?case by simp
next
  case (2 off s a fs)
  then have "round_up off a + s + sum_list (map fst fs) \<le> struct_end (round_up off a + s) fs" by simp
  moreover have "off \<le> round_up off a" using 2 by (simp add: round_up_ge)
  ultimately show ?case by simp
qed

lemma length_offsets [simp]: "length (offsets off fs) = length fs"
  by (induction off fs rule: offsets.induct) simp_all

lemma offsets_sound:
  "placed fs \<Longrightarrow> i < length fs \<Longrightarrow>
     snd (fs ! i) dvd offsets off fs ! i \<and> off \<le> offsets off fs ! i \<and>
     offsets off fs ! i + fst (fs ! i) \<le> struct_end off fs"
proof (induction off fs arbitrary: i rule: offsets.induct)
  case (1 off)
  then show ?case by simp
next
  case (2 off s a fs)
  have ge: "off \<le> round_up off a" using 2 by (simp add: round_up_ge)
  have e: "round_up off a + s \<le> struct_end (round_up off a + s) fs"
    using struct_end_ge [of fs "round_up off a + s"] 2 by simp
  show ?case
  proof (cases i)
    case 0
    with e ge show ?thesis by simp
  next
    case (Suc j)
    with 2 have "snd (fs ! j) dvd offsets (round_up off a + s) fs ! j"
        "round_up off a + s \<le> offsets (round_up off a + s) fs ! j"
        "offsets (round_up off a + s) fs ! j + fst (fs ! j) \<le> struct_end (round_up off a + s) fs"
      by simp_all
    with Suc ge show ?thesis by simp
  qed
qed

lemma offsets_disjoint:
  "placed fs \<Longrightarrow> i < j \<Longrightarrow> j < length fs \<Longrightarrow>
     offsets off fs ! i + fst (fs ! i) \<le> offsets off fs ! j"
proof (induction off fs arbitrary: i j rule: offsets.induct)
  case (1 off)
  then show ?case by simp
next
  case (2 off s a fs)
  then obtain j' where j: "j = Suc j'" by (cases j) auto
  show ?case
  proof (cases i)
    case 0
    with 2 j offsets_sound [of fs j' "round_up off a + s"] show ?thesis by simp
  next
    case (Suc i')
    with 2 j show ?thesis by simp
  qed
qed

lemma max_list_Max: "max_list ns = Max (insert 1 (set ns))"
  by (induction ns) (simp_all add: max_list_def insert_commute)

lemma max_list_pos [simp]: "0 < max_list ns"
  by (induction ns) (simp_all add: max_list_def)

lemma max_list_ge: "n \<in> set ns \<Longrightarrow> n \<le> max_list ns"
  by (simp add: max_list_Max)

text \<open>
  Fields in an order in which every alignment divides those before it (and sizes are multiples
  of alignments, as they are for all types) leave no gap between them.
\<close>

definition descending :: "(nat \<times> nat) list \<Rightarrow> bool" where
  "descending fs \<longleftrightarrow> sorted_wrt (\<lambda>f g. snd g dvd snd f) fs \<and> (\<forall>f \<in> set fs. snd f dvd fst f)"

lemma struct_end_descending:
  "placed fs \<Longrightarrow> descending fs \<Longrightarrow> (\<forall>f \<in> set fs. snd f dvd off) \<Longrightarrow>
     struct_end off fs = off + sum_list (map fst fs)"
proof (induction off fs rule: struct_end.induct)
  case (1 off)
  then show ?case by simp
next
  case (2 off s a fs)
  then have r: "round_up off a = off" by (simp add: round_up_id)
  have "snd f dvd off + s" if "f \<in> set fs" for f
  proof -
    have "snd f dvd a" "a dvd s" "snd f dvd off" using 2(3,4) that by (auto simp: descending_def)
    then show ?thesis by (metis dvd_add dvd_trans)
  qed
  moreover have "descending fs" "placed fs" using 2(2,3) by (simp_all add: descending_def)
  ultimately show ?case using 2(1) r by simp
qed

section \<open>The types of the sources\<close>

text \<open>\<^verbatim>\<open>repr_rust.rs\<close>: \<open>A\<close> in declaration order and as the compiler orders it, the unions and the enum.\<close>

definition A_declared :: lty where "A_declared = Struct [lu8, lu32, lu16]"
definition A_reordered :: lty where "A_reordered = Struct [lu32, lu16, lu8]"

definition Foo_declared :: "lty \<Rightarrow> lty \<Rightarrow> lty" where "Foo_declared t u = Struct [lu16, t, u]"

definition Union_ty :: lty where "Union_ty = Union [lu16, Array lu8 4]"
definition SizeRoundedUp :: lty where "SizeRoundedUp = Union [lu32, Array lu16 3]"

definition MyAFields :: lty where "MyAFields = Struct [lu32]"
definition MyBFields :: lty where "MyBFields = Struct [lf32, lu64]"
definition MyCFields :: lty where "MyCFields = Struct [lu32, lu8]"
definition MyDFields :: lty where "MyDFields = Struct []"
definition MyEnumFields :: lty where
  "MyEnumFields = Union [MyAFields, MyBFields, MyCFields, MyDFields]"
definition MyEnumDiscriminant :: lty where "MyEnumDiscriminant = Scalar 4 0"
definition MyEnumRepr :: lty where "MyEnumRepr = Struct [MyEnumDiscriminant, MyEnumFields]"

text \<open>\<^verbatim>\<open>binding.rs\<close>: the nodes, and the thread types with their opaque arrays.\<close>

definition c_int :: lty where "c_int = Scalar 4 0"
definition c_char :: lty where "c_char = Scalar 1 0"
definition c_short :: lty where "c_short = Scalar 2 0"
definition c_long :: lty where "c_long = Scalar 8 0"

definition node1 :: lty where "node1 = Struct []"
definition node2 :: lty where "node2 = Struct [c_int, c_char, c_short]"
definition node3 :: lty where "node3 = Struct [c_char, c_int, c_short]"
definition node4 :: lty where "node4 = Struct [c_int, c_short]"
definition node5 :: lty where "node5 = Struct [lbool, node1, c_short]"
definition node6 :: lty where "node6 = Struct [lbool, node2, c_int]"
definition node7 :: lty where "node7 = Struct [lbool, node2, lf64, c_int]"
definition node8 :: lty where "node8 = Struct [lbool, node2, lrawptr]"

definition mbstate_t :: lty where "mbstate_t = Union [Array c_char 128, Scalar 8 0]"
definition pthread_handler_rec :: lty where
  "pthread_handler_rec = Struct [OptionOf lref, lrawptr, lrawptr]"
definition opaque_pthread :: "nat \<Rightarrow> lty" where
  "opaque_pthread n = Struct [c_long, Array c_char n]"
definition opaque_pthread_t :: lty where
  "opaque_pthread_t = Struct [c_long, lrawptr, Array c_char 8176]"
definition va_list_tag :: lty where
  "va_list_tag = Struct [Scalar 4 0, Scalar 4 0, lrawptr, lrawptr]"

text \<open>\<^verbatim>\<open>dynamically_zero_sized_type.rs\<close>.\<close>

definition MySuperSliceable :: "lty \<Rightarrow> lty" where "MySuperSliceable t = Struct [lu32, t]"
definition Nothing :: lty where "Nothing = Struct []"
definition LotsOfNothing :: lty where "LotsOfNothing = Struct [Nothing, lunit, Array lu8 0]"

text \<open>\<open>show_size!(T)\<close> prints the size of the type and of the option of it.\<close>

definition show_size :: "lty \<Rightarrow> nat \<times> nat" where
  "show_size t = (size_of t, size_of (OptionOf t))"

text \<open>\<open>Result<(), Box<i32>>\<close> has the layout of \<open>Option<Box<i32>>\<close>: the null pointer stands for \<open>Ok\<close>.\<close>

definition lresult_box :: lty where "lresult_box = OptionOf lref"

definition main_sizes :: "(nat \<times> nat) list" where
  "main_sizes = map show_size [lu32, lref, lref, lfat, lvec, lresult_box]"

section \<open>Raw pointers into a stack slot\<close>

text \<open>\<open>ptr.offset\<close>: the result must stay inside the object (or one past its end).\<close>

definition checked_offset :: "mem_block \<Rightarrow> nat \<Rightarrow> int \<Rightarrow> nat outcome" where
  "checked_offset m p k =
     (if int (blk_base m) \<le> int p + k \<and> int p + k \<le> int (blk_end m) then Inr (ptr_offset p k)
      else Inl (UB ''pointer arithmetic outside the object''))"

text \<open>
  The variable \<open>slice\<close> of \<^verbatim>\<open>main.rs\<close>: pointer, then length; what \<open>*ptr\<close> and
  \<open>*ptr.offset(-1)\<close> read, and what \<open>*ptr.offset(1)\<close> would.
\<close>

definition slice_slot :: "nat \<Rightarrow> u64 \<Rightarrow> u64 \<Rightarrow> mem_block" where
  "slice_slot base p n = \<lparr>blk_base = base, blk_data = le_bytes 8 p @ le_bytes 8 n\<rparr>"

definition slice_word :: "nat \<Rightarrow> u64 \<Rightarrow> u64 \<Rightarrow> int \<Rightarrow> u64 outcome" where
  "slice_word base p n k =
     obind (checked_offset (slice_slot base p n) base (8 * k)) (read_u64 (slice_slot base p n))"

text \<open>
  \<open>test_another\<close> of \<^verbatim>\<open>repr_rust.rs\<close>: \<open>ptr\<close> points to a temporary that holds one reference;
  \<open>ptr.byte_offset(9).read()\<close>.
\<close>

definition reference_slot :: "nat \<Rightarrow> u64 \<Rightarrow> mem_block" where
  "reference_slot base r = \<lparr>blk_base = base, blk_data = le_bytes 8 r\<rparr>"

definition offset_9_read :: "nat \<Rightarrow> u64 \<Rightarrow> u64 outcome" where
  "offset_9_read base r =
     obind (checked_offset (reference_slot base r) base 9) (read_u64 (reference_slot base r))"

lemma read_u64_le_bytes:
  assumes "a = blk_base m + length pre" and "blk_data m = pre @ le_bytes 8 w @ post"
  shows "read_u64 m a = Inr w"
proof -
  have "m = \<lparr>blk_base = blk_base m, blk_data = pre @ le_bytes 8 w @ post\<rparr>" using assms(2) by simp
  then have "load_bytes load8 m (blk_base m + length pre) 8 = Inr (le_bytes 8 w)"
    by (metis length_le_bytes load_middle)
  then show ?thesis by (simp add: read_u64_def assms(1) of_le_bytes_le_bytes)
qed

lemma reference_end:
  "int base + 9 \<le> int (blk_end (reference_slot base r)) \<longleftrightarrow> False"
  by (simp add: reference_slot_def blk_end_def)

section \<open>Properties\<close>

text \<open>
  The \<open>repr(C)\<close> algorithm gives a legal layout to any list of fields: each field lies at a
  multiple of its alignment and inside the struct, two fields never overlap, and the size is a
  multiple of the struct's alignment, which no field's alignment exceeds.
\<close>

lemma repr_c_layout_sound:
  assumes "placed fs" and "i < length fs"
  shows "snd (fs ! i) dvd offsets 0 fs ! i \<and>
    offsets 0 fs ! i + fst (fs ! i) \<le> struct_size fs \<and>
    (\<forall>j < length fs. i < j \<longrightarrow> offsets 0 fs ! i + fst (fs ! i) \<le> offsets 0 fs ! j) \<and>
    max_list (map snd fs) dvd struct_size fs \<and> snd (fs ! i) \<le> max_list (map snd fs)"
proof -
  have "struct_end 0 fs \<le> struct_size fs" by (simp add: struct_size_def round_up_ge)
  moreover have "snd (fs ! i) \<le> max_list (map snd fs)"
    using assms(2) by (intro max_list_ge) simp
  ultimately show ?thesis
    using offsets_sound [OF assms, of 0] offsets_disjoint [OF assms(1), of i _ 0]
    by (auto simp: struct_size_def)
qed

text \<open>
  Reordering fields, which Rust's default representation may do. Placing the fields by
  descending alignment is optimal: the size is the sum of the field sizes rounded up to the
  alignment, and no other order of the same fields is smaller.
\<close>

theorem reorder_optimal:
  assumes "mset gs = mset fs" and "placed fs" and "descending gs"
  shows "struct_size gs = round_up (sum_list (map fst fs)) (max_list (map snd fs)) \<and>
    struct_size gs \<le> struct_size fs"
proof -
  have set: "set gs = set fs" using assms(1) by (metis set_mset_mset)
  then have pl: "placed gs" using assms(2) by (simp add: placed_def)
  have "mset (map fst gs) = mset (map fst fs)" using assms(1) by simp
  then have sum: "sum_list (map fst gs) = sum_list (map fst fs)" by (metis sum_mset_sum_list)
  have al: "max_list (map snd gs) = max_list (map snd fs)" using set by (simp add: max_list_Max)
  have "struct_end 0 gs = sum_list (map fst fs)"
    using struct_end_descending [OF pl assms(3), of 0] sum by simp
  then show ?thesis
    using struct_end_ge [OF assms(2), of 0] al by (simp add: struct_size_def round_up_mono)
qed

lemma reorder_optimal_witness:
  "struct_size [(4, 4), (2, 2), (1, 1)] = 8 \<and> struct_size [(4, 4), (2, 2), (1, 1)] \<le> struct_size [(1, 1), (4, 4), (2, 2)]"
proof -
  have "mset [(4, 4), (2, 2), (1, 1)] = (mset [(1, 1), (4, 4), (2, 2)] :: (nat \<times> nat) multiset)" by simp
  moreover have "descending [(4, 4), (2, 2), (1, 1)]" by (simp add: descending_def)
  ultimately show ?thesis
    using reorder_optimal [of "[(4, 4), (2, 2), (1, 1)]" "[(1, 1), (4, 4), (2, 2)]"]
    by (simp add: struct_size_def round_up_def max_list_def)
qed

text \<open>
  The sizes the sources assert or print: the unions of \<open>test_c_representation\<close>, the enum
  and its equivalent struct, the two orders of \<open>A\<close>, the pointers of \<open>main\<close> and the table of
  option sizes, in which only the types without a niche grow.
\<close>

theorem asserted_sizes:
  "size_of Union_ty = 4 \<and> align_of Union_ty = 2 \<and>
   size_of SizeRoundedUp = 8 \<and> align_of SizeRoundedUp = 4 \<and>
   size_of MyEnumRepr = 24 \<and> align_of MyEnumRepr = 8 \<and>
   size_of A_declared = 12 \<and> size_of A_reordered = 8 \<and>
   size_of (Foo_declared lu32 lu16) = 12 \<and>
   size_of lref = WIDTH \<and> size_of lfat = DOUBLE_WIDTH \<and>
   size_of (Array lfat 4) = 64 \<and> size_of LotsOfNothing = 0 \<and>
   size_of (MySuperSliceable (Array lu8 8)) = 12 \<and>
   size_of (OptionOf lu64) = 16 \<and> size_of (OptionOf lref) = size_of lref \<and>
   main_sizes = [(4, 8), (8, 8), (8, 8), (16, 16), (24, 24), (8, 16)]"
  by code_simp



text \<open>
  The raw reads of the layout programs. The first word of a slice reference is its
  pointer; \<open>main\<close> looks for the length one word before it, outside the variable, which is
  undefined behaviour, while it lies one word after; and the read at offset 9 of
  \<open>test_another\<close> leaves its 8-byte slot as well.
\<close>

theorem slice_words:
  "slice_word base p n 0 = Inr p \<and> slice_word base p n 1 = Inr n \<and>
   slice_word base p n (- 1) = Inl (UB ''pointer arithmetic outside the object'') \<and>
   offset_9_read base p = Inl (UB ''pointer arithmetic outside the object'')"
proof -
  let ?m = "slice_slot base p n"
  have "read_u64 ?m base = Inr p"
    by (rule read_u64_le_bytes [where pre = "[]" and post = "le_bytes 8 n"])
      (simp_all add: slice_slot_def)
  moreover have "read_u64 ?m (base + 8) = Inr n"
    by (rule read_u64_le_bytes [where pre = "le_bytes 8 p" and post = "[]"])
      (simp_all add: slice_slot_def)
  moreover have "checked_offset ?m base 0 = Inr base" "checked_offset ?m base 8 = Inr (base + 8)"
      "checked_offset ?m base (- 8) = Inl (UB ''pointer arithmetic outside the object'')"
    by (simp_all add: checked_offset_def slice_slot_def blk_end_def ptr_offset_def nat_add_distrib)
  moreover have "checked_offset (reference_slot base p) base 9 =
      Inl (UB ''pointer arithmetic outside the object'')"
    by (simp add: checked_offset_def reference_end)
  ultimately show ?thesis by (simp add: slice_word_def offset_9_read_def)
qed

end
