(* ===== verification/BinaryHeap.thy ===== *)
theory BinaryHeap
  imports Prelude
begin

text \<open>
  \<^verbatim>\<open>collections/binary-heap/src/lib.rs\<close>: the unfinished max-heap, whose \<open>sift_up\<close> has an empty
  body, and the helpers of its tests: the exclusive or of a list, and \<open>location\<close>, the number
  of significant bits of an \<open>u32\<close>.
\<close>

section \<open>MyBinaryHeap\<close>

text \<open>The element type is ordered, with a default value \<open>d\<close> for the unused slot 0.\<close>

record 'a my_heap = heap_data :: "'a list"

definition heap_new :: "'a \<Rightarrow> 'a my_heap" where
  "heap_new d = \<lparr>heap_data = [d]\<rparr>"

definition heap_len :: "'a my_heap \<Rightarrow> nat" where
  "heap_len h = length (heap_data h)"

definition sift_up :: "nat \<Rightarrow> 'a my_heap \<Rightarrow> 'a my_heap" where
  "sift_up pos h = h"

definition heap_push :: "'a \<Rightarrow> 'a my_heap \<Rightarrow> 'a my_heap" where
  "heap_push item h =
     (let h1 = h\<lparr>heap_data := heap_data h @ [item]\<rparr>;
          len = heap_len h1
      in sift_up len h1)"

text \<open>What a max-heap with a placeholder at index 0 promises.\<close>

definition max_heap :: "'a :: linorder my_heap \<Rightarrow> bool" where
  "max_heap h \<longleftrightarrow> (\<forall>i \<in> {2 ..< length (heap_data h)}. heap_data h ! i \<le> heap_data h ! (i div 2))"

lemma heap_data_pushes: "heap_data (fold heap_push xs h) = heap_data h @ xs"
  by (induction xs arbitrary: h) (simp_all add: heap_push_def sift_up_def Let_def)

section \<open>The helpers of the tests\<close>

text \<open>\<open>nums.iter().map(|&x| { ret ^= x })\<close> from \<open>ret = 0\<close>.\<close>

definition xor_all :: "i32 list \<Rightarrow> i32" where
  "xor_all nums = fold (\<lambda>x ret. ret XOR x) nums 0"

lemma unat_drop_bit_1: "unat (drop_bit (Suc 0) (w :: u32)) = unat w div 2"
  by (simp add: drop_bit_eq_div unat_div)

text \<open>The loop of \<open>location\<close>; \<open>n\<close> counts in an \<open>i32\<close>.\<close>

function location_loop :: "u32 \<Rightarrow> i32 \<Rightarrow> i32 outcome" where
  "location_loop num n =
     (if num \<noteq> 0 then obind (checked_sadd n 1) (location_loop (drop_bit 1 num)) else Inr n)"
  by pat_completeness auto

termination
proof (relation "measure (\<lambda>(num, n). unat num)")
  fix num :: u32 and n x :: i32
  assume "num \<noteq> 0"
  then have "0 < unat num" by (simp add: unat_gt_0)
  then show "((drop_bit 1 num, x), num, n) \<in> measure (\<lambda>(num, n). unat num)"
    by (simp add: unat_drop_bit_1)
qed simp

declare location_loop.simps [simp del]

definition location :: "u32 \<Rightarrow> nat outcome" where
  "location num = obind (location_loop num 0) (\<lambda>n. Inr (unat (scast n :: u64)))"

text \<open>\<open>n >> 0 & 1 == 1\<close>: the numbers the second test prints.\<close>

definition odd_ones :: "i32 list \<Rightarrow> i32 list" where
  "odd_ones nums = filter (\<lambda>n. drop_bit 0 n AND 1 = 1) nums"

text \<open>The number of significant bits.\<close>

fun bit_length :: "nat \<Rightarrow> nat" where
  "bit_length n = (if n = 0 then 0 else Suc (bit_length (n div 2)))"

declare bit_length.simps [simp del]

lemma bit_length_bounds: "n < 2 ^ bit_length n \<and> (0 < n \<longrightarrow> 2 ^ (bit_length n - 1) \<le> n)"
proof (induction n rule: bit_length.induct)
  case (1 n)
  show ?case
  proof (cases "n = 0")
    case True
    then show ?thesis by (simp add: bit_length.simps)
  next
    case False
    then have b: "bit_length n = Suc (bit_length (n div 2))" by (simp add: bit_length.simps [of n])
    have hi: "n div 2 < 2 ^ bit_length (n div 2)"
      and lo: "0 < n div 2 \<Longrightarrow> 2 ^ (bit_length (n div 2) - 1) \<le> n div 2"
      using 1 False by blast+
    have "n < 2 ^ bit_length n" using hi by (simp add: b)
    moreover have "2 ^ (bit_length n - 1) \<le> n"
    proof (cases "n div 2")
      case 0
      then show ?thesis using False by (simp add: b bit_length.simps [of 0])
    next
      case (Suc k)
      then have "bit_length (n div 2) = Suc (bit_length (n div 2 div 2))"
        by (subst bit_length.simps) simp
      then have "(2 :: nat) ^ (bit_length n - 1) = 2 * 2 ^ (bit_length (n div 2) - 1)" by (simp add: b)
      also have "\<dots> \<le> 2 * (n div 2)" using lo Suc by simp
      finally show ?thesis by linarith
    qed
    ultimately show ?thesis by blast
  qed
qed

lemma bit_length_le: "n < 2 ^ k \<Longrightarrow> bit_length n \<le> k"
proof (rule ccontr)
  assume n: "n < 2 ^ k" and "\<not> bit_length n \<le> k"
  then have k: "k \<le> bit_length n - 1" by simp
  have "0 < n" using \<open>\<not> bit_length n \<le> k\<close> by (cases n) (simp_all add: bit_length.simps [of 0])
  then have "2 ^ (bit_length n - 1) \<le> n" using bit_length_bounds [of n] by blast
  moreover have "(2 :: nat) ^ k \<le> 2 ^ (bit_length n - 1)" using k by (rule power_increasing) simp
  ultimately show False using n by linarith
qed

lemma location_loop_bits:
  "0 \<le> sint n \<Longrightarrow> sint n + int (bit_length (unat num)) < 2 ^ 31 \<Longrightarrow>
     \<exists>m. location_loop num n = Inr m \<and> sint m = sint n + int (bit_length (unat num))"
proof (induction num n rule: location_loop.induct)
  case (1 num n)
  show ?case
  proof (cases "num = 0")
    case True
    then show ?thesis by (subst location_loop.simps) (simp add: bit_length.simps [of 0])
  next
    case False
    then have "0 < unat num" by (simp add: unat_gt_0)
    then have b: "bit_length (unat num) = Suc (bit_length (unat (drop_bit 1 num)))"
      by (subst bit_length.simps) (simp add: unat_drop_bit_1)
    from 1(2,3) b obtain n' where n': "checked_sadd n 1 = Inr n'" by (simp add: checked_sadd_def)
    then have "sint n' = sint n + 1" by (simp add: sint_checked_sadd)
    with 1(1) [OF False, of n'] 1(2,3) b False n' show ?thesis
      by (subst location_loop.simps) (simp add: ac_simps)
  qed
qed

lemma bit_xor_fold:
  "bit (fold (\<lambda>x ret. ret XOR x) nums a) b \<longleftrightarrow>
     (bit a b \<noteq> odd (length (filter (\<lambda>x. bit x b) nums)))" for a :: i32
  by (induction nums arbitrary: a) (auto simp: bit_xor_iff)

lemma count_list_filter: "count_list (filter P xs) y = (if P y then count_list xs y else 0)"
  by (induction xs) auto

text \<open>A list in which every other value occurs an even number of times.\<close>

lemma odd_filter:
  assumes "odd (count_list nums x)" and "\<And>y. y \<noteq> x \<Longrightarrow> even (count_list nums y)"
  shows "odd (length (filter P nums)) \<longleftrightarrow> P x"
proof -
  let ?X = "insert x (set (filter P nums))"
  have "length (filter P nums) = (\<Sum>y \<in> ?X. count_list (filter P nums) y)"
    by (rule sum_count_set [symmetric]) auto
  also have "\<dots> = count_list (filter P nums) x +
      (\<Sum>y \<in> ?X - {x}. count_list (filter P nums) y)"
    by (rule sum.remove) auto
  finally have l: "length (filter P nums) = count_list (filter P nums) x +
      (\<Sum>y \<in> ?X - {x}. count_list (filter P nums) y)" .
  have "even (\<Sum>y \<in> ?X - {x}. count_list (filter P nums) y)"
    using assms(2) by (intro dvd_sum) (auto simp: count_list_filter)
  with l have "odd (length (filter P nums)) \<longleftrightarrow> odd (count_list (filter P nums) x)" by simp
  with assms(1) show ?thesis by (simp add: count_list_filter)
qed

section \<open>Properties\<close>

text \<open>
  The structure is not a heap yet. After any pushes the data is the placeholder followed
  by the items in the order of insertion, a new heap reports the length 1, and the max-heap
  property holds exactly when the items came in heap order already.
\<close>

theorem pushes_keep_insertion_order:
  "heap_data (fold heap_push xs (heap_new d)) = d # xs \<and>
   heap_len (fold heap_push xs (heap_new d)) = Suc (length xs) \<and>
   (max_heap (fold heap_push xs (heap_new d)) \<longleftrightarrow>
      (\<forall>i \<in> {2 ..< Suc (length xs)}. xs ! (i - 1) \<le> xs ! (i div 2 - 1)))"
  for d :: "'a :: linorder"
proof -
  have data: "heap_data (fold heap_push xs (heap_new d)) = d # xs"
    by (simp add: heap_data_pushes heap_new_def)
  have "(\<forall>i \<in> {2 ..< Suc (length xs)}. (d # xs) ! i \<le> (d # xs) ! (i div 2)) \<longleftrightarrow>
      (\<forall>i \<in> {2 ..< Suc (length xs)}. xs ! (i - 1) \<le> xs ! (i div 2 - 1))"
    by (intro ball_cong refl) (auto simp: nth_Cons' div_eq_0_iff)
  then show ?thesis by (simp add: max_heap_def heap_len_def data)
qed

lemma pushes_keep_insertion_order_witness:
  "\<not> max_heap (fold heap_push [1, 2] (heap_new (0 :: nat))) \<and>
   heap_data (fold heap_push [1, 2] (heap_new (0 :: nat))) = [0, 1, 2]"
  using pushes_keep_insertion_order [of "[1, 2]" "0 :: nat"] by (simp add: numeral_2_eq_2)

text \<open>
  \<open>location\<close> returns, without overflow of its counter, the number of significant bits: the
  least \<open>m\<close> with \<open>num < 2 ^ m\<close>, at most 32.
\<close>

theorem location_correct:
  "\<exists>m. location num = Inr m \<and> m \<le> 32 \<and> unat num < 2 ^ m \<and>
     (num \<noteq> 0 \<longrightarrow> 2 ^ (m - 1) \<le> unat num)"
proof -
  let ?b = "bit_length (unat num)"
  have "unat num < 2 ^ 32" using unsigned_less [of num] by simp
  then have b: "?b \<le> 32" by (rule bit_length_le)
  then obtain m where m: "location_loop num 0 = Inr m" "sint m = int ?b"
    using location_loop_bits [of 0 num] by auto
  have "uint (scast m :: u64) = int ?b"
    using b m(2) by (simp only: scast_eq uint_word_of_int) simp
  then have "unat (scast m :: u64) = ?b" by (simp flip: nat_uint_eq)
  with m b bit_length_bounds [of "unat num"] show ?thesis
    by (auto simp: location_def unat_gt_0)
qed

lemma location_correct_witness: "location 8 = Inr 4"
proof -
  obtain m where m: "location 8 = Inr m" "8 < (2::nat) ^ m" "(2::nat) ^ (m - 1) \<le> 8"
    using location_correct [of 8] by auto
  have "m = 4"
  proof (rule antisym)
    show "m \<le> 4"
      using power_less_imp_less_exp [of "2::nat" "m - 1" 4] m(3) by simp
    show "4 \<le> m"
      using power_less_imp_less_exp [of "2::nat" 3 m] m(2) by simp
  qed
  with m(1) show ?thesis by simp
qed

text \<open>
  The exclusive or of the tests finds the number that occurs an odd number of times when
  every other number occurs an even number of times.
\<close>

theorem xor_finds_odd_one:
  assumes "odd (count_list nums x)" and "\<And>y. y \<noteq> x \<Longrightarrow> even (count_list nums y)"
  shows "xor_all nums = x"
  by (rule bit_word_eqI) (simp add: xor_all_def bit_xor_fold odd_filter [OF assms])

lemma xor_finds_odd_one_witness: "xor_all [1, 1, 2, 2, 3, 4, 3] = 4"
  by (rule xor_finds_odd_one) auto

end
