(* ===== verification/Traversal.thy ===== *)
theory Traversal
  imports Prelude "HOL-Library.Multiset"
begin

text \<open>
  The two cache experiments of \<^verbatim>\<open>write-cpu-adaptation-code\<close>: writing an 8 by 8 array by rows or
  by columns (\<^verbatim>\<open>data_cache_hit.rs\<close>), and thresholding a vector before or after sorting it
  (\<^verbatim>\<open>instruction_cache_hit.rs\<close>). Each function is modelled with the trace the experiment is
  about: the elements it writes, or the outcomes of its branch.
\<close>

section \<open>Rows and columns\<close>

text \<open>
  Indexing is checked. A function returns the array it ends with and the elements it wrote, in
  order; the element \<open>(i, j)\<close> lies in cache line \<open>i\<close>, since a row is 64 bytes.
\<close>

type_synonym matrix = "int list list"

definition write_elem :: "nat \<Rightarrow> nat \<Rightarrow> int \<Rightarrow> matrix \<Rightarrow> matrix outcome" where
  "write_elem i j v m =
     (if i < length m \<and> j < length (m ! i) then Inr (m[i := (m ! i)[j := v]])
      else Inl (Panic ''index out of bounds''))"

definition zero_elem :: "nat \<times> nat \<Rightarrow> matrix \<times> (nat \<times> nat) list \<Rightarrow> (matrix \<times> (nat \<times> nat) list) outcome" where
  "zero_elem p s = obind (write_elem (fst p) (snd p) 0 (fst s)) (\<lambda>m. Inr (m, snd s @ [p]))"

definition traverse1 :: "matrix \<Rightarrow> (matrix \<times> (nat \<times> nat) list) outcome" where
  "traverse1 nums =
     (let n = length nums
      in ofold (\<lambda>i. ofold (\<lambda>j. zero_elem (i, j)) [0..<n]) [0..<n] (nums, []))"

definition traverse2 :: "matrix \<Rightarrow> (matrix \<times> (nat \<times> nat) list) outcome" where
  "traverse2 nums =
     (let n = length nums
      in ofold (\<lambda>i. ofold (\<lambda>j. zero_elem (j, i)) [0..<n]) [0..<n] (nums, []))"

text \<open>How often consecutive accesses are in different lines, the first access included.\<close>

fun switches :: "nat option \<Rightarrow> nat list \<Rightarrow> nat" where
  "switches prev [] = 0"
| "switches prev (l # ls) = (if prev = Some l then 0 else 1) + switches (Some l) ls"

definition line_misses :: "(nat \<times> nat) list \<Rightarrow> nat" where
  "line_misses trace = switches None (map fst trace)"

definition square :: "nat \<Rightarrow> matrix \<Rightarrow> bool" where
  "square n m \<longleftrightarrow> length m = n \<and> (\<forall>r \<in> set m. length r = n)"

lemma ofold_nested:
  "ofold (\<lambda>i. ofold (\<lambda>j. f (g i j)) (js i)) is s = ofold f (concat (map (\<lambda>i. map (g i) (js i)) is)) s"
proof (induction "is" arbitrary: s)
  case Nil
  then show ?case by simp
next
  case (Cons i "is")
  have "ofold (\<lambda>j. f (g i j)) xs s = ofold f (map (g i) xs) s" for xs s
    by (induction xs arbitrary: s) (simp_all cong: obind_cong)
  with Cons show ?case by (simp add: ofold_append cong: obind_cong)
qed

definition positions :: "nat \<Rightarrow> (nat \<times> nat) list" where
  "positions n = concat (map (\<lambda>i. map (Pair i) [0..<n]) [0..<n])"

lemma traverse1_positions: "traverse1 m = ofold zero_elem (positions (length m)) (m, [])"
  using ofold_nested [of zero_elem Pair "\<lambda>_. [0..<length m]" "[0..<length m]" "(m, [])"]
  by (simp add: traverse1_def positions_def Let_def)

lemma traverse2_positions:
  "traverse2 m = ofold zero_elem (map prod.swap (positions (length m))) (m, [])"
  using ofold_nested [of zero_elem "\<lambda>i j. (j, i)" "\<lambda>_. [0..<length m]" "[0..<length m]" "(m, [])"]
  by (simp add: traverse2_def positions_def Let_def map_concat comp_def)

lemma write_elem_square:
  assumes "square n m" and "i < n" and "j < n"
  shows "write_elem i j v m = Inr (m[i := (m ! i)[j := v]]) \<and> square n (m[i := (m ! i)[j := v]])"
  using assms by (auto simp: write_elem_def square_def set_update_subset_insert [THEN subsetD] dest!: set_update_subset_insert [THEN subsetD])

text \<open>After zeroing the elements at some positions, exactly those are zero.\<close>

lemma zero_all:
  "square n m \<Longrightarrow> set ps \<subseteq> {..<n} \<times> {..<n} \<Longrightarrow>
     \<exists>m'. ofold zero_elem ps (m, tr) = Inr (m', tr @ ps) \<and> square n m' \<and>
       (\<forall>i < n. \<forall>j < n. m' ! i ! j = (if (i, j) \<in> set ps then 0 else m ! i ! j))"
proof (induction ps arbitrary: m tr)
  case Nil
  then show ?case by auto
next
  case (Cons p ps)
  obtain a b where p: "p = (a, b)" by (cases p)
  with Cons.prems have ab: "a < n" "b < n" by auto
  let ?m = "m[a := (m ! a)[b := 0]]"
  have w: "write_elem a b 0 m = Inr ?m" "square n ?m"
    using write_elem_square [OF Cons.prems(1) ab] by auto
  have "set ps \<subseteq> {..<n} \<times> {..<n}" using Cons.prems(2) by simp
  from Cons.IH [OF w(2) this, of "tr @ [p]"] obtain m' where
    m': "ofold zero_elem ps (?m, tr @ [p]) = Inr (m', (tr @ [p]) @ ps)" "square n m'"
      "\<forall>i < n. \<forall>j < n. m' ! i ! j = (if (i, j) \<in> set ps then 0 else ?m ! i ! j)" by blast
  have "length m = n" "length (m ! a) = n" using Cons.prems(1) ab by (auto simp: square_def)
  then have "?m ! i ! j = (if (i, j) = p then 0 else m ! i ! j)" if "i < n" "j < n" for i j
    using that ab p by (cases "i = a"; cases "j = b") auto
  moreover have "zero_elem p (m, tr) = Inr (?m, tr @ [p])" using w(1) p by (simp add: zero_elem_def)
  ultimately show ?case using m' by (intro exI [of _ m']) auto
qed

section \<open>Thresholding and sorting\<close>

definition threshold :: "int \<Rightarrow> int" where
  "threshold x = (if x < 50 then 0 else x)"

text \<open>
  The loop \<open>for i in 0..len\<close>: the vector after it, and the outcomes of its condition.
\<close>

definition threshold_elem :: "nat \<Rightarrow> int list \<times> bool list \<Rightarrow> (int list \<times> bool list) outcome" where
  "threshold_elem i s =
     (if i < length (fst s)
      then if fst s ! i < 50 then Inr ((fst s)[i := 0], snd s @ [True]) else Inr (fst s, snd s @ [False])
      else Inl (Panic ''index out of bounds''))"

definition threshold_loop :: "int list \<Rightarrow> (int list \<times> bool list) outcome" where
  "threshold_loop nums = ofold threshold_elem [0..<length nums] (nums, [])"

definition traverse_before_sort :: "int list \<Rightarrow> (int list \<times> bool list) outcome" where
  "traverse_before_sort nums =
     obind (threshold_loop nums) (\<lambda>(ns, branches). Inr (sort ns, branches))"

definition traverse_after_sort :: "int list \<Rightarrow> (int list \<times> bool list) outcome" where
  "traverse_after_sort nums = threshold_loop (sort nums)"

text \<open>How often the branch goes the other way than the time before.\<close>

fun flips :: "bool list \<Rightarrow> nat" where
  "flips (a # b # bs) = (if a = b then 0 else 1) + flips (b # bs)"
| "flips bs = 0"

lemma threshold_loop_from:
  "ofold threshold_elem [length ys..<length ys + length xs] (ys @ xs, bs) =
     Inr (ys @ map threshold xs, bs @ map (\<lambda>x. x < 50) xs)"
proof (induction xs arbitrary: ys bs)
  case Nil
  then show ?case by simp
next
  case (Cons x xs)
  have u: "[length ys..<length ys + length (x # xs)] =
      length ys # [length (ys @ [threshold x])..<length (ys @ [threshold x]) + length xs]"
    by (subst upt_conv_Cons) simp_all
  have "threshold_elem (length ys) (ys @ x # xs, bs) =
      Inr ((ys @ [threshold x]) @ xs, bs @ [x < 50])"
    by (simp add: threshold_elem_def threshold_def)
  then have "ofold threshold_elem [length ys..<length ys + length (x # xs)] (ys @ x # xs, bs) =
      ofold threshold_elem [length (ys @ [threshold x])..<length (ys @ [threshold x]) + length xs]
        ((ys @ [threshold x]) @ xs, bs @ [x < 50])"
    unfolding u by simp
  with Cons.IH [of "ys @ [threshold x]" "bs @ [x < 50]"] show ?case by simp
qed

lemma threshold_loop_map:
  "threshold_loop nums = Inr (map threshold nums, map (\<lambda>x. x < 50) nums)"
  using threshold_loop_from [of "[]" nums "[]"] by (simp add: threshold_loop_def)

lemma threshold_mono: "x \<le> y \<Longrightarrow> threshold x \<le> threshold y"
  by (auto simp: threshold_def)

lemma sort_map_mono: "sort (map threshold xs) = map threshold (sort xs)"
proof (rule properties_for_sort)
  show "mset (map threshold (sort xs)) = mset (map threshold xs)" by simp
  have "sorted (sort xs)" by simp
  then show "sorted (map threshold (sort xs))"
    by (auto simp: sorted_iff_nth_mono intro: threshold_mono)
qed

lemma flips_False: "True \<notin> set bs \<Longrightarrow> flips bs = 0"
  by (induction bs rule: flips.induct) auto

lemma flips_sorted: "sorted xs \<Longrightarrow> flips (map (\<lambda>x. x < (50 :: int)) xs) \<le> 1"
proof (induction xs rule: induct_list012)
  case (3 x y zs)
  show ?case
  proof (cases "y < 50")
    case True
    with 3 show ?thesis by auto
  next
    case False
    then have "True \<notin> set (map (\<lambda>x. x < 50) (y # zs))" using 3(3) by force
    then have "flips (map (\<lambda>x. x < 50) (y # zs)) = 0" by (rule flips_False)
    then show ?thesis by simp
  qed
qed simp_all

section \<open>Properties\<close>

text \<open>
  The two traversals compute the same array, all zeros, without an index panic; they
  write the same elements, and on the 8 by 8 array of the test the traversal by rows enters a
  cache line 8 times and the one by columns 64 times.
\<close>

theorem traversals_agree:
  assumes "square n m"
  shows "\<exists>m1 m2. traverse1 m = Inr (m1, positions n) \<and>
    traverse2 m = Inr (m2, map prod.swap (positions n)) \<and>
    (\<forall>i < n. \<forall>j < n. m1 ! i ! j = 0 \<and> m2 ! i ! j = 0) \<and>
    line_misses (positions 8) = 8 \<and> line_misses (map prod.swap (positions 8)) = 64"
proof -
  have n: "length m = n" using assms by (simp add: square_def)
  have p: "set (positions n) = {..<n} \<times> {..<n}" by (auto simp: positions_def)
  have q: "set (map prod.swap (positions n)) = {..<n} \<times> {..<n}" by (simp only: set_map p product_swap)
  obtain m1 where m1: "ofold zero_elem (positions n) (m, []) = Inr (m1, [] @ positions n)"
      "\<forall>i < n. \<forall>j < n. m1 ! i ! j = (if (i, j) \<in> set (positions n) then 0 else m ! i ! j)"
    using zero_all [OF assms eq_refl [OF p], of "[]"] by blast
  obtain m2 where m2: "ofold zero_elem (map prod.swap (positions n)) (m, []) =
      Inr (m2, [] @ map prod.swap (positions n))"
      "\<forall>i < n. \<forall>j < n. m2 ! i ! j = (if (i, j) \<in> set (map prod.swap (positions n)) then 0 else m ! i ! j)"
    using zero_all [OF assms eq_refl [OF q], of "[]"] by blast
  have z: "\<forall>i < n. \<forall>j < n. m1 ! i ! j = 0 \<and> m2 ! i ! j = 0"
    using m1(2) m2(2) unfolding p q by simp
  have l: "line_misses (positions 8) = 8" "line_misses (map prod.swap (positions 8)) = 64"
    by code_simp+
  show ?thesis
    using m1(1) m2(1) n
    by (intro exI [of _ m1] exI [of _ m2] conjI z l) (simp_all add: traverse1_positions traverse2_positions)
qed

lemma traversals_agree_witness:
  "\<exists>m1. traverse1 (replicate 8 [1, 2, 3, 4, 5, 6, 7, 8]) = Inr (m1, positions 8) \<and> m1 ! 7 ! 7 = 0"
proof -
  have "square 8 (replicate 8 [1, 2, 3, 4, 5, 6, 7, 8])" by (simp add: square_def)
  from traversals_agree [OF this] show ?thesis by auto
qed

text \<open>
  Thresholding before or after sorting gives the same vector, for every input, because
  the threshold is monotone; after sorting, the branch of the loop changes its outcome at most
  once.
\<close>

theorem sort_threshold_commute:
  "\<exists>ns b1 b2. traverse_before_sort nums = Inr (ns, b1) \<and> traverse_after_sort nums = Inr (ns, b2) \<and>
     sorted ns \<and> flips b2 \<le> 1 \<and> length b1 = length nums \<and> length b2 = length nums"
proof -
  have "traverse_before_sort nums = Inr (sort (map threshold nums), map (\<lambda>x. x < 50) nums)"
    by (simp add: traverse_before_sort_def threshold_loop_map)
  moreover have "traverse_after_sort nums =
      Inr (sort (map threshold nums), map (\<lambda>x. x < 50) (sort nums))"
    by (simp add: traverse_after_sort_def threshold_loop_map sort_map_mono)
  ultimately show ?thesis using flips_sorted [of "sort nums"] by simp
qed

end
