(* ===== verification/Views.thy ===== *)
theory Views
  imports Layout
begin

text \<open>
  Integers seen as bytes: \<^verbatim>\<open>little-big-endian.rs\<close>, which decides the byte order from the first
  byte of an integer, and \<open>cast_notes\<close> of \<^verbatim>\<open>type_conversions/src/main.rs\<close>, which reads an array
  of \<open>u16\<close> through a byte pointer and the length of a slice through a pointer to \<open>u16\<close>.
\<close>

section \<open>Byte order\<close>

datatype byte_order = LittleEndian | BigEndian

text \<open>The variable \<open>value\<close> on a machine of either order.\<close>

definition value_slot :: "byte_order \<Rightarrow> nat \<Rightarrow> i32 \<Rightarrow> mem_block" where
  "value_slot ord base v =
     \<lparr>blk_base = base,
      blk_data = (case ord of LittleEndian \<Rightarrow> le_bytes 4 v | BigEndian \<Rightarrow> rev (le_bytes 4 v))\<rparr>"

text \<open>
  What the program finds: the order it reports, if any, and the bytes at offsets 0 to 3.
\<close>

definition endian_main :: "byte_order \<Rightarrow> nat \<Rightarrow> i32 \<Rightarrow> (byte_order \<times> u8 list) option outcome" where
  "endian_main ord base v =
     (let m = value_slot ord base v
      in obind (load8 m base) (\<lambda>b.
           if b = 0x78 then obind (load_bytes load8 m base 4) (\<lambda>bs. Inr (Some (LittleEndian, bs)))
           else if b = 0x12 then obind (load_bytes load8 m base 4) (\<lambda>bs. Inr (Some (BigEndian, bs)))
           else Inr None))"

section \<open>Casts\<close>

definition read_u16 :: "mem_block \<Rightarrow> nat \<Rightarrow> u16 outcome" where
  "read_u16 m a = obind (load_bytes load8 m a 2) (\<lambda>bs. Inr (of_le_bytes bs))"

definition u16_block :: "nat \<Rightarrow> u16 list \<Rightarrow> mem_block" where
  "u16_block base ws = \<lparr>blk_base = base, blk_data = concat (map (le_bytes 2) ws)\<rparr>"

text \<open>Collecting what a loop prints.\<close>

fun collect :: "(nat \<Rightarrow> 'a outcome) \<Rightarrow> nat list \<Rightarrow> 'a list outcome" where
  "collect f [] = Inr []"
| "collect f (i # is) = obind (f i) (\<lambda>x. obind (collect f is) (\<lambda>xs. Inr (x # xs)))"

text \<open>
  The three reads of \<open>cast_notes\<close>: the elements through \<open>ptr1\<close>, the eight bytes through
  \<open>ptr3\<close>, and the \<open>u16\<close> at byte offset 8 of the slice reference, \<open>ptr2\<close>.
\<close>

definition ptr1_values :: "nat \<Rightarrow> u16 list \<Rightarrow> u16 list outcome" where
  "ptr1_values base values =
     collect (\<lambda>x. read_u16 (u16_block base values) (base + 2 * x)) [0..<length values]"

definition ptr3_bytes :: "nat \<Rightarrow> u16 list \<Rightarrow> u8 list outcome" where
  "ptr3_bytes base arr = collect (\<lambda>k. load8 (u16_block base arr) (base + k)) [0..<8]"

definition ptr2_length :: "nat \<Rightarrow> u64 \<Rightarrow> u64 \<Rightarrow> u16 outcome" where
  "ptr2_length slot p n =
     obind (checked_offset (slice_slot slot p n) slot 8) (read_u16 (slice_slot slot p n))"

definition cast_notes :: "nat \<Rightarrow> nat \<Rightarrow> nat \<Rightarrow> (u16 list \<times> u8 list \<times> u16) outcome" where
  "cast_notes heap arr slot =
     obind (ptr1_values heap [1, 2, 3, 4]) (\<lambda>vs.
     obind (ptr3_bytes arr [5, 6, 7, 8]) (\<lambda>bs.
     obind (ptr2_length slot (of_nat heap) 4) (\<lambda>n. Inr (vs, bs, n))))"

section \<open>Reading what is stored\<close>

lemma collect_all: "(\<And>i. i \<in> set is \<Longrightarrow> f i = Inr (g i)) \<Longrightarrow> collect f is = Inr (map g is)"
  by (induction "is") simp_all

lemma length_u16_bytes [simp]: "length (concat (map (le_bytes 2) (ws :: u16 list))) = 2 * length ws"
  by (induction ws) simp_all

lemma read_u16_elem:
  assumes "i < length ws"
  shows "read_u16 (u16_block base ws) (base + 2 * i) = Inr (ws ! i)"
proof -
  let ?pre = "concat (map (le_bytes 2) (take i ws))"
  let ?post = "concat (map (le_bytes 2) (drop (Suc i) ws))"
  have "ws = take i ws @ ws ! i # drop (Suc i) ws" using assms by (rule id_take_nth_drop)
  then have "concat (map (le_bytes 2) ws) = ?pre @ le_bytes 2 (ws ! i) @ ?post"
    by (metis concat.simps(2) concat_append list.simps(9) map_append)
  moreover have "length ?pre = 2 * i" using assms by simp
  ultimately have "load_bytes load8 (u16_block base ws) (base + 2 * i) 2 = Inr (le_bytes 2 (ws ! i))"
    using load_middle [of base ?pre "le_bytes 2 (ws ! i)" ?post] by (simp add: u16_block_def)
  then show ?thesis by (simp add: read_u16_def of_le_bytes_le_bytes)
qed

section \<open>Properties\<close>

text \<open>
  The program of \<^verbatim>\<open>little-big-endian.rs\<close> reports the order of the machine it runs on for its
  value, with the bytes in address order; for another value it may report the wrong order.
\<close>

theorem endian_main_correct:
  "endian_main LittleEndian base 0x12345678 = Inr (Some (LittleEndian, [0x78, 0x56, 0x34, 0x12])) \<and>
   endian_main BigEndian base 0x12345678 = Inr (Some (BigEndian, [0x12, 0x34, 0x56, 0x78])) \<and>
   endian_main LittleEndian base 0x12 = Inr (Some (BigEndian, [0x12, 0, 0, 0]))"
proof -
  have b: "le_bytes 4 (0x12345678 :: i32) = [0x78, 0x56, 0x34, 0x12]"
      "le_bytes 4 (0x12 :: i32) = [0x12, 0, 0, 0]" by code_simp+
  have l: "load_bytes load8 \<lparr>blk_base = base, blk_data = [w, x, y, z]\<rparr> base 4 = Inr [w, x, y, z]" for w x y z
    using load_middle [of base "[]" "[w, x, y, z]" "[]"] by (simp add: numeral_eq_Suc)
  have f: "load8 \<lparr>blk_base = base, blk_data = [w, x, y, z]\<rparr> base = Inr w" for w x y z
    by (simp add: load8_def blk_mapped_def blk_end_def)
  show ?thesis
    unfolding endian_main_def value_slot_def byte_order.case b by (simp add: l f)
qed

text \<open>
  The casts. Through \<open>ptr1\<close> any vector reads back element by element; \<open>cast_notes\<close> reads
  the four values, the eight little-endian bytes of the array, and at byte offset 8 of the
  slice reference the low 16 bits of its length.
\<close>

theorem cast_notes_reads:
  "ptr1_values base ws = Inr ws \<and> ptr2_length slot p n = Inr (ucast n) \<and>
   cast_notes heap arr slot = Inr ([1, 2, 3, 4], [5, 0, 6, 0, 7, 0, 8, 0], 4)"
proof -
  have p1: "ptr1_values base ws = Inr ws" for base ws
  proof -
    have "ptr1_values base ws = Inr (map ((!) ws) [0..<length ws])"
      unfolding ptr1_values_def by (intro collect_all read_u16_elem) simp
    then show ?thesis by (simp add: map_nth)
  qed
  have bytes: "concat (map (le_bytes 2) [5, 6, 7, 8 :: u16]) = [5, 0, 6, 0, 7, 0, 8, 0]" by code_simp
  have "load8 (u16_block arr [5, 6, 7, 8]) (arr + k) = Inr ([5, 0, 6, 0, 7, 0, 8, 0] ! k)" if "k < 8" for k
    using that unfolding u16_block_def bytes by (simp add: load8_def blk_mapped_def blk_end_def)
  then have "ptr3_bytes arr [5, 6, 7, 8] = Inr (map ((!) [5, 0, 6, 0, 7, 0, 8, 0]) [0..<8])"
    unfolding ptr3_bytes_def by (intro collect_all) simp
  also have "map ((!) [5, 0, 6, 0, 7, 0, 8, 0 :: u8]) [0..<8] = [5, 0, 6, 0, 7, 0, 8, 0]" by code_simp
  finally have p3: "ptr3_bytes arr [5, 6, 7, 8] = Inr [5, 0, 6, 0, 7, 0, 8, 0]" .
  have p2: "ptr2_length slot p n = Inr (ucast n)" for p n
  proof -
    have "le_bytes 8 n = le_bytes 2 n @ drop 2 (le_bytes 8 n)"
      by (simp add: le_bytes_def upt_rec)
    then have "load_bytes load8 (slice_slot slot p n) (slot + 8) 2 = Inr (le_bytes 2 n)"
      using load_middle [of slot "le_bytes 8 p" "le_bytes 2 n" "drop 2 (le_bytes 8 n)"]
      by (simp add: slice_slot_def)
    moreover have "of_le_bytes (le_bytes 2 n) = (ucast n :: u16)"
    proof (rule bit_word_eqI)
      fix i
      assume "i < LENGTH(16)"
      then have "i div 8 < 2" by simp
      then show "bit (of_le_bytes (le_bytes 2 n) :: u16) i = bit (ucast n :: u16) i"
        using \<open>i < LENGTH(16)\<close>
        by (simp add: bit_of_le_bytes le_bytes_def bit_unsigned_iff bit_drop_bit_eq)
    qed
    moreover have "checked_offset (slice_slot slot p n) slot 8 = Inr (slot + 8)"
      by (simp add: checked_offset_def slice_slot_def blk_end_def ptr_offset_def nat_add_distrib)
    ultimately show ?thesis by (simp add: ptr2_length_def read_u16_def)
  qed
  show ?thesis using p1 p2 p3 by (simp add: cast_notes_def)
qed

end
