(* ===== verification/Idioms.thy ===== *)
theory Idioms
  imports Prelude Decimal
begin

text \<open>
  Small library idioms: the non-consuming builder \<open>Command\<close> of \<^verbatim>\<open>creational/builder.rs\<close>, the
  lookup with a default of \<^verbatim>\<open>limits_of_lifetimes.rs\<close>, the owned string of \<open>as_str\<close> in
  \<^verbatim>\<open>lifetime/src/lib.rs\<close>, and the checked sum of \<^verbatim>\<open>stack-changes-during-function-calls\<close>.
\<close>

section \<open>The builder\<close>

record Command =
  program :: string
  args :: "string list"
  cwd :: "string option"

datatype Process = Process

definition Command_new :: "string \<Rightarrow> Command" where
  "Command_new p = \<lparr>program = p, args = [], cwd = None\<rparr>"

definition Command_arg :: "string \<Rightarrow> Command \<Rightarrow> Command" where
  "Command_arg a c = c\<lparr>args := args c @ [a]\<rparr>"

definition Command_args :: "string list \<Rightarrow> Command \<Rightarrow> Command" where
  "Command_args as c = c\<lparr>args := args c @ as\<rparr>"

definition Command_cwd :: "string \<Rightarrow> Command \<Rightarrow> Command" where
  "Command_cwd dir c = c\<lparr>cwd := Some dir\<rparr>"

definition Command_spawn :: "Command \<Rightarrow> string + Process" where
  "Command_spawn c = Inr Process"

text \<open>A chain of builder calls.\<close>

datatype builder_call = Arg string | Args "string list" | Cwd string

fun apply_call :: "builder_call \<Rightarrow> Command \<Rightarrow> Command" where
  "apply_call (Arg a) c = Command_arg a c"
| "apply_call (Args as) c = Command_args as c"
| "apply_call (Cwd d) c = Command_cwd d c"

text \<open>What a chain configures: the arguments in the order of the calls, the last directory.\<close>

fun call_args :: "builder_call \<Rightarrow> string list" where
  "call_args (Arg a) = [a]"
| "call_args (Args as) = as"
| "call_args (Cwd d) = []"

fun last_cwd :: "builder_call list \<Rightarrow> string option \<Rightarrow> string option" where
  "last_cwd [] d = d"
| "last_cwd (Cwd e # cs) d = last_cwd cs (Some e)"
| "last_cwd (Arg a # cs) d = last_cwd cs d"
| "last_cwd (Args as # cs) d = last_cwd cs d"

lemma apply_calls:
  "fold apply_call cs c =
     c\<lparr>args := args c @ concat (map call_args cs), cwd := last_cwd cs (cwd c)\<rparr>"
proof (induction cs arbitrary: c)
  case Nil
  then show ?case by simp
next
  case (Cons b cs)
  then show ?case
    by (cases b) (simp_all add: Command_arg_def Command_args_def Command_cwd_def)
qed

section \<open>Lookup with a default\<close>

text \<open>
  \<open>get_default\<close>: the missing key reaches \<open>todo!()\<close>. The lines commented out would insert the
  default and return it, with the updated map.
\<close>

definition get_default :: "('k \<rightharpoonup> 'v) \<Rightarrow> 'k \<Rightarrow> ('v \<times> ('k \<rightharpoonup> 'v)) outcome" where
  "get_default m key =
     (case m key of Some v \<Rightarrow> Inr (v, m) | None \<Rightarrow> Inl (Panic ''not yet implemented''))"

definition get_default_intended :: "'v \<Rightarrow> ('k \<rightharpoonup> 'v) \<Rightarrow> 'k \<Rightarrow> ('v \<times> ('k \<rightharpoonup> 'v)) outcome" where
  "get_default_intended d m key =
     (case m key of
        Some v \<Rightarrow> Inr (v, m)
      | None \<Rightarrow> (case (m(key \<mapsto> d)) key of
          Some v \<Rightarrow> Inr (v, m(key \<mapsto> d))
        | None \<Rightarrow> Inl (Panic ''called Option::unwrap() on a None value'')))"

section \<open>Owned text and a checked sum\<close>

definition as_str :: "u32 \<Rightarrow> string" where
  "as_str data = show_nat (unat data)"

definition sum_i32 :: "i32 \<Rightarrow> i32 \<Rightarrow> i32 outcome" where
  "sum_i32 a b = checked_sadd a b"

section \<open>Properties\<close>

text \<open>
  The builder: a chain of calls keeps the program, collects the arguments in the order of
  the calls, keeps the last directory, and can always be spawned afterwards.
\<close>

theorem builder_chain:
  "fold apply_call cs (Command_new p) =
     \<lparr>program = p, args = concat (map call_args cs), cwd = last_cwd cs None\<rparr> \<and>
   Command_spawn (fold apply_call cs (Command_new p)) = Inr Process"
  by (simp add: apply_calls Command_new_def Command_spawn_def)

text \<open>
  \<open>get_default\<close> does what its name says for the keys of the map and panics for all others,
  where the intended version would insert the default: the two agree exactly on the keys.
\<close>

theorem get_default_partial:
  "(get_default m key = get_default_intended d m key \<longleftrightarrow> key \<in> dom m) \<and>
   (key \<notin> dom m \<longrightarrow> get_default_intended d m key = Inr (d, m(key \<mapsto> d)))"
  by (auto simp: get_default_def get_default_intended_def split: option.splits)

lemma get_default_partial_witness:
  "get_default [0 \<mapsto> ''AD'', 1 \<mapsto> ''BD''] (3 :: nat) \<noteq>
   get_default_intended ''CD'' [0 \<mapsto> ''AD'', 1 \<mapsto> ''BD''] 3"
  using get_default_partial [of "[0 \<mapsto> ''AD'', 1 \<mapsto> ''BD'']" "3 :: nat" "''CD''"]
  by (auto simp del: get_default_def get_default_intended_def)

text \<open>
  \<open>as_str\<close> returns the decimal digits of its argument: parsing them gives the number back.
\<close>

theorem as_str_roundtrip:
  "of_nat (parse_nat (as_str n)) = n \<and> (\<forall>c \<in> set (as_str n). is_digit c) \<and>
   (as_str n = as_str m \<longleftrightarrow> n = m)"
  by (auto simp: as_str_def parse_show_nat show_nat_inj word_unat_eq_iff dest: show_nat_digits)

lemma as_str_roundtrip_witness: "is_digit (hd (as_str 42))"
  using as_str_roundtrip [of 42] by (simp add: as_str_def)

end
