(* ===== verification/GreenSwitch.thy ===== *)
theory GreenSwitch
  imports GreenThreads
begin

text \<open>
  The runtime of \<^verbatim>\<open>green-thread-explained/src/main.rs\<close> together with the processor and the memory
  its threads run on: the inline assembly of \<open>t_yield\<close>, the words \<open>spawn\<close> writes to memory, and
  the steps of the running thread. The routine \<open>switch\<close> stays a parameter; what its callers rely
  on is \<open>saves_and_loads\<close>: it saves the registers to the old context, loads those of the new one
  and returns on the new stack, as the comment before the call says. The specification the whole
  implements is a set of coroutines, each parked at the place where it gave the CPU away.
\<close>

section \<open>Registers and memory\<close>

text \<open>\<open>regs\<close> are the stack pointer and the callee-saved registers, the fields of \<open>ThreadContext\<close>.\<close>

record mach =
  regs :: full_context
  pc :: u64
  mem :: "nat \<Rightarrow> u8"

definition word_at :: "(nat \<Rightarrow> u8) \<Rightarrow> nat \<Rightarrow> u64" where
  "word_at \<mu> a = of_le_bytes (map (\<lambda>i. \<mu> (a + i)) [0..<8])"

definition store_word :: "nat \<Rightarrow> u64 \<Rightarrow> (nat \<Rightarrow> u8) \<Rightarrow> nat \<Rightarrow> u8" where
  "store_word a w \<mu> = (\<lambda>b. if a \<le> b \<and> b < a + 8 then le_bytes 8 w ! (b - a) else \<mu> b)"

text \<open>\<open>call\<close>: push the return address; the jump itself is the call of the routine.\<close>

definition x86_call :: "u64 \<Rightarrow> mach \<Rightarrow> mach" where
  "x86_call ra c =
     c\<lparr>regs := (regs c)\<lparr>rsp := rsp (regs c) - 8\<rparr>,
       mem := store_word (unat (rsp (regs c) - 8)) ra (mem c)\<rparr>"

text \<open>
  \<open>asm!("call switch", in("rdi") old, in("rsi") new, clobber_abi("C"))\<close>, with \<open>ra\<close> the address
  of the instruction after it.
\<close>

definition call_switch ::
  "(full_context \<Rightarrow> full_context \<Rightarrow> mach \<Rightarrow> full_context \<times> mach) \<Rightarrow> u64 \<Rightarrow>
     full_context \<Rightarrow> full_context \<Rightarrow> mach \<Rightarrow> full_context \<times> mach" where
  "call_switch switch ra old new c = switch old new (x86_call ra c)"

definition saves_and_loads ::
  "(full_context \<Rightarrow> full_context \<Rightarrow> mach \<Rightarrow> full_context \<times> mach) \<Rightarrow> bool" where
  "saves_and_loads switch \<longleftrightarrow>
     (\<forall>old new c. switch old new c =
        (regs c, c\<lparr>regs := new\<lparr>rsp := rsp new + 8\<rparr>, pc := word_at (mem c) (unat (rsp new))\<rparr>))"

text \<open>The two words \<open>spawn\<close> writes relative to the aligned top of the new thread's stack.\<close>

definition spawn_stores :: "u64 \<Rightarrow> u64 \<Rightarrow> nat \<Rightarrow> mach \<Rightarrow> mach" where
  "spawn_stores guard f s_ptr c =
     c\<lparr>mem := store_word (s_ptr - 32) f (store_word (s_ptr - 16) guard (mem c))\<rparr>"

section \<open>Steps of the program\<close>

text \<open>
  Thread 0 runs on the stack of the operating system, \<open>os\<close>; the others on their own blocks.
  The label of a step says what the running thread did.
\<close>

definition area :: "nat set \<Rightarrow> (nat \<Rightarrow> nat) \<Rightarrow> nat \<Rightarrow> nat set" where
  "area os bases j = (if j = 0 then os else {bases j ..< bases j + DEFAULT_STACK_SIZE})"

definition separate :: "nat set \<Rightarrow> (nat \<Rightarrow> nat) \<Rightarrow> bool" where
  "separate os bases \<longleftrightarrow> bases_ok bases \<and>
     (\<forall>i < MAX_THREADS. \<forall>j < MAX_THREADS. i \<noteq> j \<longrightarrow> area os bases i \<inter> area os bases j = {})"

text \<open>The running thread has not overflowed its stack: it can push one more word.\<close>

definition has_room :: "nat set \<Rightarrow> (nat \<Rightarrow> nat) \<Rightarrow> Runtime \<Rightarrow> mach \<Rightarrow> bool" where
  "has_room os bases rt c \<longleftrightarrow>
     8 \<le> unat (rsp (regs c)) \<and>
     {unat (rsp (regs c)) - 8 ..< unat (rsp (regs c))} \<subseteq> area os bases (current rt)"

datatype label = Ran | Spawned u64 | Yielded

inductive sys_act ::
  "(full_context \<Rightarrow> full_context \<Rightarrow> mach \<Rightarrow> full_context \<times> mach) \<Rightarrow> u64 \<Rightarrow> u64 \<Rightarrow>
     nat set \<Rightarrow> (nat \<Rightarrow> nat) \<Rightarrow> label \<Rightarrow> Runtime \<times> mach \<Rightarrow> Runtime \<times> mach \<Rightarrow> bool"
  for switch ra guard os bases where
  act_run: "(\<And>j a. j < MAX_THREADS \<Longrightarrow> j \<noteq> current rt \<Longrightarrow> a \<in> area os bases j \<Longrightarrow> mem c' a = mem c a) \<Longrightarrow>
    sys_act switch ra guard os bases Ran (rt, c) (rt, c')"
| act_spawn: "spawn guard f rt = Inr rt' \<Longrightarrow> find_available (threads rt) = Some i \<Longrightarrow>
    sys_act switch ra guard os bases (Spawned f) (rt, c)
      (rt', spawn_stores guard f (stack_top (stack (threads rt ! i))) c)"
| act_yield: "has_room os bases rt c \<Longrightarrow>
    t_yield (call_switch switch ra) c rt = Some (Inr (SwitchedTo rt' c')) \<Longrightarrow>
    sys_act switch ra guard os bases Yielded (rt, c) (rt', c')"

definition sys_step ::
  "(full_context \<Rightarrow> full_context \<Rightarrow> mach \<Rightarrow> full_context \<times> mach) \<Rightarrow> u64 \<Rightarrow> u64 \<Rightarrow>
     nat set \<Rightarrow> (nat \<Rightarrow> nat) \<Rightarrow> Runtime \<times> mach \<Rightarrow> Runtime \<times> mach \<Rightarrow> bool" where
  "sys_step switch ra guard os bases s t \<longleftrightarrow> (\<exists>l. sys_act switch ra guard os bases l s t)"

lemma sys_stepI: "sys_act switch ra guard os bases l s t \<Longrightarrow> sys_step switch ra guard os bases s t"
  by (auto simp: sys_step_def)

lemmas sys_run = act_run [THEN sys_stepI]
lemmas sys_spawn = act_spawn [THEN sys_stepI]
lemmas sys_yield = act_yield [THEN sys_stepI]

lemma sys_step_cases [consumes 1, case_names sys_run sys_spawn sys_yield]:
  assumes "sys_step switch ra guard os bases s t"
    and "\<And>rt c' c. s = (rt, c) \<Longrightarrow> t = (rt, c') \<Longrightarrow>
      (\<And>j a. j < MAX_THREADS \<Longrightarrow> j \<noteq> current rt \<Longrightarrow> a \<in> area os bases j \<Longrightarrow> mem c' a = mem c a) \<Longrightarrow> P"
    and "\<And>f rt rt' i c. s = (rt, c) \<Longrightarrow>
      t = (rt', spawn_stores guard f (stack_top (stack (threads rt ! i))) c) \<Longrightarrow>
      spawn guard f rt = Inr rt' \<Longrightarrow> find_available (threads rt) = Some i \<Longrightarrow> P"
    and "\<And>rt c rt' c'. s = (rt, c) \<Longrightarrow> t = (rt', c') \<Longrightarrow> has_room os bases rt c \<Longrightarrow>
      t_yield (call_switch switch ra) c rt = Some (Inr (SwitchedTo rt' c')) \<Longrightarrow> P"
  shows P
proof -
  from assms(1) obtain l where "sys_act switch ra guard os bases l s t" by (auto simp: sys_step_def)
  then show P
  proof (cases rule: sys_act.cases)
    case (act_run rt c' c)
    show P by (rule assms(2) [OF act_run(2-4)])
  next
    case (act_spawn f rt rt' i c)
    show P by (rule assms(3) [OF act_spawn(2-5)])
  next
    case (act_yield rt c rt' c')
    show P by (rule assms(4) [OF act_yield(2-5)])
  qed
qed

section \<open>The specification: coroutines\<close>

text \<open>
  \<open>now\<close> is where the running coroutine is (its next instruction and registers); \<open>parked\<close> holds
  the same for those that wait.
\<close>

record coro =
  running :: nat
  now :: "u64 \<times> full_context"
  parked :: "nat \<Rightarrow> (u64 \<times> full_context) option"

definition next_parked :: "(nat \<Rightarrow> 'a option) \<Rightarrow> nat \<Rightarrow> nat option" where
  "next_parked ps cur =
     find (\<lambda>i. ps i \<noteq> None) (map (\<lambda>k. (cur + k) mod MAX_THREADS) [0..<MAX_THREADS])"

text \<open>
  What the ABI wants at the entry of a function, on the block of thread \<open>i\<close>: the stack pointer is
  8 above a multiple of 16, with the stack below it and the words \<open>spawn\<close> prepared above it.
\<close>

definition entry_stack :: "(nat \<Rightarrow> nat) \<Rightarrow> nat \<Rightarrow> full_context \<Rightarrow> bool" where
  "entry_stack bases i r \<longleftrightarrow> unat (rsp r) mod 16 = 8 \<and>
     bases i + 40 \<le> unat (rsp r) \<and> unat (rsp r) + 24 \<le> bases i + DEFAULT_STACK_SIZE"

text \<open>
  To spawn \<open>f\<close> is to park a coroutine at the first instruction of \<open>f\<close>, under the first free
  number.
\<close>

inductive coro_step :: "u64 \<Rightarrow> (nat \<Rightarrow> nat) \<Rightarrow> label \<Rightarrow> coro \<Rightarrow> coro \<Rightarrow> bool" for ra bases where
  coro_run: "coro_step ra bases Ran s (s\<lparr>now := x\<rparr>)"
| coro_spawn: "i < MAX_THREADS \<Longrightarrow> i \<noteq> running s \<Longrightarrow> parked s i = None \<Longrightarrow>
    (\<And>j. j < i \<Longrightarrow> j = running s \<or> parked s j \<noteq> None) \<Longrightarrow> entry_stack bases i r \<Longrightarrow>
    coro_step ra bases (Spawned f) s (s\<lparr>parked := (parked s)(i \<mapsto> (f, r))\<rparr>)"
| coro_yield: "next_parked (parked s) (running s) = Some p \<Longrightarrow> parked s p = Some x \<Longrightarrow>
    coro_step ra bases Yielded s \<lparr>running = p, now = x,
      parked = (parked s)(p := None, running s \<mapsto> (ra, snd (now s)))\<rparr>"

definition coro_start :: "u64 \<times> full_context \<Rightarrow> coro" where
  "coro_start x = \<lparr>running = 0, now = x, parked = (\<lambda>_. None)\<rparr>"

text \<open>A parked thread resumes at the word on its saved stack, with the rest of its context.\<close>

definition resume_point :: "mach \<Rightarrow> Thread \<Rightarrow> u64 \<times> full_context" where
  "resume_point c t =
     (word_at (mem c) (unat (rsp (ctx t))), (ctx t)\<lparr>rsp := rsp (ctx t) + 8\<rparr>)"

definition coro_of :: "Runtime \<times> mach \<Rightarrow> coro" where
  "coro_of = (\<lambda>(rt, c).
     \<lparr>running = current rt, now = (pc c, regs c),
      parked = (\<lambda>j. if j < MAX_THREADS \<and> state (threads rt ! j) = Ready
                    then Some (resume_point c (threads rt ! j)) else None)\<rparr>)"

section \<open>Memory lemmas\<close>

lemma word_at_cong: "(\<And>b. a \<le> b \<Longrightarrow> b < a + 8 \<Longrightarrow> \<nu> b = \<mu> b) \<Longrightarrow> word_at \<nu> a = word_at \<mu> a"
  unfolding word_at_def by (intro arg_cong [where f = of_le_bytes] map_cong) auto

lemma word_at_store [simp]: "word_at (store_word a w \<mu>) a = w"
proof -
  have "map (\<lambda>i. store_word a w \<mu> (a + i)) [0..<8] = le_bytes 8 w"
    by (rule nth_equalityI) (simp_all add: store_word_def)
  then show ?thesis by (simp add: word_at_def of_le_bytes_le_bytes)
qed

lemma store_word_other: "b < a \<or> a + 8 \<le> b \<Longrightarrow> store_word a w \<mu> b = \<mu> b"
  by (auto simp: store_word_def)

lemma store_word_outside: "{a ..< a + 8} \<subseteq> A \<Longrightarrow> b \<notin> A \<Longrightarrow> store_word a w \<mu> b = \<mu> b"
  by (rule store_word_other) (metis atLeastLessThan_iff not_less subsetD)

lemma word_at_outside:
  assumes "{d ..< d + 8} \<subseteq> B" and "\<And>b. b \<in> B \<Longrightarrow> \<nu> b = \<mu> b"
  shows "word_at \<nu> d = word_at \<mu> d"
  using assms by (intro word_at_cong) force

lemma separate_disjoint:
  "separate os bases \<Longrightarrow> i < MAX_THREADS \<Longrightarrow> j < MAX_THREADS \<Longrightarrow> i \<noteq> j \<Longrightarrow>
     b \<in> area os bases j \<Longrightarrow> b \<notin> area os bases i"
  unfolding separate_def by blast

section \<open>The invariant of the whole program\<close>

definition ctx_in_area :: "nat set \<Rightarrow> (nat \<Rightarrow> nat) \<Rightarrow> nat \<Rightarrow> Thread \<Rightarrow> bool" where
  "ctx_in_area os bases j t \<longleftrightarrow>
     {unat (rsp (ctx t)) ..< unat (rsp (ctx t)) + 8} \<subseteq> area os bases j"

definition sys_inv :: "nat set \<Rightarrow> (nat \<Rightarrow> nat) \<Rightarrow> Runtime \<times> mach \<Rightarrow> bool" where
  "sys_inv os bases = (\<lambda>(rt, c). rt_inv rt \<and> state (threads rt ! 0) \<noteq> Available \<and>
     (\<forall>j < MAX_THREADS. blk_base (stack (threads rt ! j)) = bases j \<and>
        (state (threads rt ! j) = Ready \<longrightarrow> ctx_in_area os bases j (threads rt ! j))))"

lemma sys_invD:
  assumes "sys_inv os bases (rt, c)"
  shows "rt_inv rt" and "state (threads rt ! 0) \<noteq> Available"
    and "length (threads rt) = MAX_THREADS" and "current rt < MAX_THREADS"
    and "j < MAX_THREADS \<Longrightarrow> blk_base (stack (threads rt ! j)) = bases j"
    and "j < MAX_THREADS \<Longrightarrow> state (threads rt ! j) = Ready \<Longrightarrow>
           ctx_in_area os bases j (threads rt ! j)"
    and "state (threads rt ! current rt) = Running"
    and "j < MAX_THREADS \<Longrightarrow> state (threads rt ! j) = Running \<longleftrightarrow> j = current rt"
  using assms by (auto simp: sys_inv_def rt_inv_def)

lemma sys_inv_start: "bases_ok bases \<Longrightarrow> sys_inv os bases (Runtime_new bases, c)"
proof -
  assume b: "bases_ok bases"
  have "blk_base (stack (threads (Runtime_new bases) ! j)) = bases j \<and>
      state (threads (Runtime_new bases) ! j) \<noteq> Ready" if "j < MAX_THREADS" for j
    using that unfolding MAX_THREADS_range Runtime_new_threads
    by (elim disjE) (simp_all add: Thread_new_def)
  with rt_inv_new [OF b] show ?thesis
    by (simp add: sys_inv_def) (simp add: Runtime_new_threads)
qed

lemma resume_point_cong:
  assumes "ctx_in_area os bases j t" and "\<And>a. a \<in> area os bases j \<Longrightarrow> mem c' a = mem c a"
    and "ctx t' = ctx t"
  shows "resume_point c' t' = resume_point c t"
proof -
  have "word_at (mem c') (unat (rsp (ctx t))) = word_at (mem c) (unat (rsp (ctx t)))"
    using assms(1,2) unfolding ctx_in_area_def by (rule word_at_outside)
  with assms(3) show ?thesis by (simp add: resume_point_def)
qed

section \<open>The two operations on the machine\<close>

text \<open>A yield that switches: everything that changes, in one place.\<close>

lemma yield_effect:
  assumes inv: "sys_inv os bases (rt, c)" and sw: "saves_and_loads switch"
    and y: "t_yield (call_switch switch ra) c rt = Some (Inr (SwitchedTo rt' c'))"
  obtains pos where "round_robin (threads rt) (current rt) = Some pos"
    and "pos < MAX_THREADS" and "pos \<noteq> current rt" and "state (threads rt ! pos) = Ready"
    and "current rt' = pos" and "length (threads rt') = MAX_THREADS"
    and "\<And>j. j < MAX_THREADS \<Longrightarrow> threads rt' ! j = (threads rt ! j)\<lparr>
           ctx := (if j = current rt then (regs c)\<lparr>rsp := rsp (regs c) - 8\<rparr> else ctx (threads rt ! j)),
           state := (if j = pos then Running else if j = current rt then Ready
                     else state (threads rt ! j))\<rparr>"
    and "mem c' = store_word (unat (rsp (regs c) - 8)) ra (mem c)"
    and "regs c' = (ctx (threads rt ! pos))\<lparr>rsp := rsp (ctx (threads rt ! pos)) + 8\<rparr>"
    and "pc c' = word_at (mem c') (unat (rsp (ctx (threads rt ! pos))))"
proof -
  let ?ts = "threads rt" and ?cur = "current rt"
  note d = sys_invD [OF inv]
  from y obtain pos where pos: "round_robin ?ts ?cur = Some pos"
    by (auto simp: t_yield_cases [OF d(1)] split: option.splits)
  note p = round_robin_Some [OF pos]
  with d(7) have ne: "pos \<noteq> ?cur" by auto
  have cur: "?cur < length ?ts" using d(3,4) by simp
  note nth = nth_switch_states [OF _ cur ne [symmetric] d(7)]
  have ctxs: "ctx (switch_states ?cur pos ?ts ! ?cur) = ctx (?ts ! ?cur)"
      "ctx (switch_states ?cur pos ?ts ! pos) = ctx (?ts ! pos)"
    using cur p(1) by (simp_all add: nth)
  from y pos have e: "threads rt' = (switch_states ?cur pos ?ts)
        [?cur := (switch_states ?cur pos ?ts ! ?cur)\<lparr>ctx := (regs c)\<lparr>rsp := rsp (regs c) - 8\<rparr>\<rparr>]"
      "current rt' = pos"
      "c' = (x86_call ra c)\<lparr>regs := (ctx (?ts ! pos))\<lparr>rsp := rsp (ctx (?ts ! pos)) + 8\<rparr>,
         pc := word_at (mem (x86_call ra c)) (unat (rsp (ctx (?ts ! pos))))\<rparr>"
    using sw by (auto simp: t_yield_cases [OF d(1)] Let_def call_switch_def saves_and_loads_def
        ctxs x86_call_def)
  show thesis
  proof (rule that [OF pos])
    show "threads rt' ! j = (?ts ! j)\<lparr>
        ctx := (if j = ?cur then (regs c)\<lparr>rsp := rsp (regs c) - 8\<rparr> else ctx (?ts ! j)),
        state := (if j = pos then Running else if j = ?cur then Ready else state (?ts ! j))\<rparr>"
      if "j < MAX_THREADS" for j
      using that d(3) cur ne by (simp add: e(1) nth_list_update nth)
  qed (use p ne d(3) e(2) in \<open>simp_all add: e(1,3) x86_call_def\<close>)
qed

lemma spawn_effect:
  assumes inv: "sys_inv os bases (rt, c)" and s: "spawn guard f rt = Inr rt'"
    and i: "find_available (threads rt) = Some i"
  obtains "i < MAX_THREADS" and "i \<noteq> 0" and "i \<noteq> current rt" and "state (threads rt ! i) = Available"
    and "current rt' = current rt" and "length (threads rt') = MAX_THREADS"
    and "\<And>j. j < MAX_THREADS \<Longrightarrow> j \<noteq> i \<Longrightarrow> threads rt' ! j = threads rt ! j"
    and "blk_base (stack (threads rt' ! i)) = bases i" and "state (threads rt' ! i) = Ready"
    and "unat (rsp (ctx (threads rt' ! i))) = stack_top (stack (threads rt ! i)) - 32"
    and "bases i + 64 \<le> stack_top (stack (threads rt ! i))"
    and "stack_top (stack (threads rt ! i)) \<le> bases i + DEFAULT_STACK_SIZE"
    and "stack_top (stack (threads rt ! i)) mod 16 = 0"
    and "stack_top (stack (threads rt ! i)) < 2 ^ 64"
proof -
  note d = sys_invD [OF inv]
  let ?t = "threads rt ! i"
  have il: "i < length (threads rt)" and ia: "state ?t = Available"
    using i by (simp_all add: find_available_Some)
  note ok = rt_inv_thread(3) [OF d(1) il]
  note b = stack_top_bounds [OF ok]
  have base: "blk_base (stack ?t) = bases i" using d(5) il d(3) by simp
  have fin: "blk_end (stack ?t) = bases i + DEFAULT_STACK_SIZE"
    using ok base by (simp add: stack_ok_def blk_end_def)
  obtain stk2 where rt': "rt' = rt\<lparr>threads := (threads rt)[i := ?t\<lparr>stack := stk2,
        ctx := (ctx ?t)\<lparr>rsp := of_nat (stack_top (stack ?t) - 32)\<rparr>, state := Ready\<rparr>]\<rparr>"
    and stk2: "blk_base stk2 = blk_base (stack ?t)"
    by (rule spawn_Inr [OF ok i, of guard f]) (use s in simp)
  have "i \<noteq> 0" using d(2) ia by (cases i) auto
  moreover have "i \<noteq> current rt" using d(7) ia by auto
  moreover have "unat (of_nat (stack_top (stack ?t) - 32) :: u64) = stack_top (stack ?t) - 32"
    using b(3) by (simp add: unat_of_nat del: of_nat_diff)
  ultimately show thesis
    using il d(3) ia b base fin stk2
    by (intro that) (simp_all add: rt' del: of_nat_diff)
qed

lemma spawn_slots_in_area:
  assumes "bases i + 64 \<le> top'" and "top' \<le> bases i + DEFAULT_STACK_SIZE" and "i \<noteq> 0"
  shows "{top' - 32 ..< top' - 32 + 8} \<subseteq> area os bases i"
    and "{top' - 16 ..< top' - 16 + 8} \<subseteq> area os bases i"
  using assms by (auto simp: area_def)

section \<open>The simulation\<close>

lemma coro_of_simps [simp]:
  "running (coro_of (rt, c)) = current rt" "now (coro_of (rt, c)) = (pc c, regs c)"
  "parked (coro_of (rt, c)) j =
     (if j < MAX_THREADS \<and> state (threads rt ! j) = Ready
      then Some (resume_point c (threads rt ! j)) else None)"
  by (simp_all add: coro_of_def)

lemma coro_eqI:
  fixes s t :: coro
  assumes "running s = running t" and "now s = now t" and "\<And>j. parked s j = parked t j"
  shows "s = t"
  using assms by (intro coro.equality) auto

lemma next_parked_coro_of:
  assumes "length (threads rt) = MAX_THREADS"
  shows "next_parked (parked (coro_of (rt, c))) (current rt) = round_robin (threads rt) (current rt)"
proof -
  have "find (\<lambda>i. parked (coro_of (rt, c)) i \<noteq> None) (map (\<lambda>k. (current rt + k) mod MAX_THREADS) ks) =
      find (\<lambda>i. state (threads rt ! i) = Ready) (map (\<lambda>k. (current rt + k) mod MAX_THREADS) ks)" for ks
    by (induction ks) (simp_all add: MAX_THREADS_def)
  with assms show ?thesis by (simp add: next_parked_def round_robin_def)
qed

lemma run_simulates:
  assumes inv: "sys_inv os bases (rt, c)"
    and keep: "\<And>j a. j < MAX_THREADS \<Longrightarrow> j \<noteq> current rt \<Longrightarrow> a \<in> area os bases j \<Longrightarrow> mem c' a = mem c a"
  shows "sys_inv os bases (rt, c')" and "coro_step ra bases Ran (coro_of (rt, c)) (coro_of (rt, c'))"
proof -
  note d = sys_invD [OF inv]
  show "sys_inv os bases (rt, c')" using inv by (simp add: sys_inv_def)
  have "parked (coro_of (rt, c')) j = parked (coro_of (rt, c)) j" for j
  proof (cases "j < MAX_THREADS \<and> state (threads rt ! j) = Ready")
    case True
    with d(7) have "j \<noteq> current rt" by auto
    with True d(6) keep have "resume_point c' (threads rt ! j) = resume_point c (threads rt ! j)"
      by (intro resume_point_cong) auto
    then show ?thesis by simp
  next
    case False
    then show ?thesis by (simp only: coro_of_simps if_False)
  qed
  then have "coro_of (rt, c') = (coro_of (rt, c))\<lparr>now := (pc c', regs c')\<rparr>"
    by (intro coro_eqI) simp_all
  then show "coro_step ra bases Ran (coro_of (rt, c)) (coro_of (rt, c'))" by (simp add: coro_run)
qed

lemma spawn_simulates:
  assumes sep: "separate os bases" and inv: "sys_inv os bases (rt, c)"
    and s: "spawn guard f rt = Inr rt'" and i: "find_available (threads rt) = Some i"
    and c': "c' = spawn_stores guard f (stack_top (stack (threads rt ! i))) c"
  shows "sys_inv os bases (rt', c')"
    and "coro_step ra bases (Spawned f) (coro_of (rt, c)) (coro_of (rt', c'))"
    and "j < MAX_THREADS \<Longrightarrow> state (threads rt ! j) \<noteq> Available \<Longrightarrow> a \<in> area os bases j \<Longrightarrow>
           mem c' a = mem c a"
proof -
  note d = sys_invD [OF inv]
  let ?top = "stack_top (stack (threads rt ! i))"
  note e = spawn_effect [OF inv s i]
  have i0: "i < MAX_THREADS" "i \<noteq> 0" "i \<noteq> current rt" "state (threads rt ! i) = Available"
    by (rule e, assumption)+
  have top': "bases i + 64 \<le> ?top" "?top \<le> bases i + DEFAULT_STACK_SIZE" "?top mod 16 = 0" "?top < 2 ^ 64"
    by (rule e, assumption)+
  have r: "current rt' = current rt" "length (threads rt') = MAX_THREADS"
      "blk_base (stack (threads rt' ! i)) = bases i" "state (threads rt' ! i) = Ready"
      "unat (rsp (ctx (threads rt' ! i))) = ?top - 32"
    by (rule e, assumption)+
  have oth: "threads rt' ! j = threads rt ! j" if "j < MAX_THREADS" "j \<noteq> i" for j
    using that by (rule_tac e) blast
  note sl = spawn_slots_in_area [where bases = bases and i = i and os = os, OF top'(1,2) i0(2)]
  have frame: "mem c' a = mem c a" if "a \<notin> area os bases i" for a
    using that by (simp add: c' spawn_stores_def store_word_outside [OF sl(1)] store_word_outside [OF sl(2)])
  have other: "mem c' a = mem c a" if "j < MAX_THREADS" "j \<noteq> i" "a \<in> area os bases j" for j a
    using separate_disjoint [OF sep i0(1) that(1)] that frame by metis
  then show "mem c' a = mem c a" if "j < MAX_THREADS" "state (threads rt ! j) \<noteq> Available"
      "a \<in> area os bases j"
    using that i0(4) by metis
  have ctxi: "ctx_in_area os bases i (threads rt' ! i)"
    using sl(1) by (simp add: ctx_in_area_def r)
  have "blk_base (stack (threads rt' ! j)) = bases j \<and>
      (state (threads rt' ! j) = Ready \<longrightarrow> ctx_in_area os bases j (threads rt' ! j))"
    if "j < MAX_THREADS" for j
    using that d(5,6) oth r ctxi by (cases "j = i") auto
  moreover have "state (threads rt' ! 0) \<noteq> Available"
    using oth [of 0] i0(2) d(2) by (simp add: MAX_THREADS_def)
  ultimately show "sys_inv os bases (rt', c')"
    using spawn_inv [OF d(1) s] by (simp add: sys_inv_def)
  let ?r = "(ctx (threads rt' ! i))\<lparr>rsp := rsp (ctx (threads rt' ! i)) + 8\<rparr>"
  have "word_at (mem c') (?top - 32) = f" by (simp add: c' spawn_stores_def)
  then have new: "resume_point c' (threads rt' ! i) = (f, ?r)" by (simp add: resume_point_def r)
  have same: "resume_point c' (threads rt ! j) = resume_point c (threads rt ! j)"
    if "j < MAX_THREADS" "j \<noteq> i" "state (threads rt ! j) = Ready" for j
    using that d(6) other by (intro resume_point_cong) auto
  have eq: "coro_of (rt', c') =
      (coro_of (rt, c))\<lparr>parked := (parked (coro_of (rt, c)))(i \<mapsto> (f, ?r))\<rparr>"
  proof (rule coro_eqI)
    show "parked (coro_of (rt', c')) j =
        parked ((coro_of (rt, c))\<lparr>parked := (parked (coro_of (rt, c)))(i \<mapsto> (f, ?r))\<rparr>) j" for j
      using i0 r new same
      by (cases "j = i") (auto simp: oth)
  qed (use r in \<open>simp_all add: c' spawn_stores_def\<close>)
  have "entry_stack bases i ?r"
  proof -
    have "?top - 32 + 8 < 2 ^ 64" using top'(1,4) by linarith
    then have sp: "unat (rsp ?r) = ?top - 24" using unat_add8 [OF r(5)] top'(1) by simp
    obtain k where k: "?top = 16 * k" using top'(3) by (auto simp: mod_eq_0_iff_dvd)
    have "?top - 24 = 8 + 16 * (k - 2)" using top'(1) k by linarith
    then have "unat (rsp ?r) mod 16 = 8" unfolding sp by (simp only: mod_mult_self2) simp
    with top'(1,2) show ?thesis unfolding entry_stack_def sp by linarith
  qed
  moreover have "j = running (coro_of (rt, c)) \<or> parked (coro_of (rt, c)) j \<noteq> None" if "j < i" for j
  proof -
    have j: "j < MAX_THREADS" "state (threads rt ! j) \<noteq> Available"
      using that i i0(1) by (simp_all add: find_available_Some)
    then show ?thesis using d(8) [OF j(1)] by (cases "state (threads rt ! j)") auto
  qed
  ultimately show "coro_step ra bases (Spawned f) (coro_of (rt, c)) (coro_of (rt', c'))"
    unfolding eq by (intro coro_spawn) (use i0 in simp_all)
qed

lemma yield_simulates:
  assumes sep: "separate os bases" and inv: "sys_inv os bases (rt, c)"
    and sw: "saves_and_loads switch" and room: "has_room os bases rt c"
    and y: "t_yield (call_switch switch ra) c rt = Some (Inr (SwitchedTo rt' c'))"
  shows "sys_inv os bases (rt', c')"
    and "coro_step ra bases Yielded (coro_of (rt, c)) (coro_of (rt', c'))"
    and "a \<notin> {unat (rsp (regs c)) - 8 ..< unat (rsp (regs c))} \<Longrightarrow> mem c' a = mem c a"
proof -
  note d = sys_invD [OF inv]
  let ?cur = "current rt" and ?sp = "rsp (regs c)"
  obtain pos where pos: "round_robin (threads rt) ?cur = Some pos" "pos < MAX_THREADS" "pos \<noteq> ?cur"
      "state (threads rt ! pos) = Ready" "current rt' = pos"
    and th: "\<And>j. j < MAX_THREADS \<Longrightarrow> threads rt' ! j = (threads rt ! j)\<lparr>
           ctx := (if j = ?cur then (regs c)\<lparr>rsp := ?sp - 8\<rparr> else ctx (threads rt ! j)),
           state := (if j = pos then Running else if j = ?cur then Ready
                     else state (threads rt ! j))\<rparr>"
    and mc: "mem c' = store_word (unat (?sp - 8)) ra (mem c)"
    and rc: "regs c' = (ctx (threads rt ! pos))\<lparr>rsp := rsp (ctx (threads rt ! pos)) + 8\<rparr>"
    and pcc: "pc c' = word_at (mem c') (unat (rsp (ctx (threads rt ! pos))))"
    by (rule yield_effect [OF inv sw y]) (rule that)
  have sp: "unat (?sp - 8) = unat ?sp - 8"
    using room by (simp add: has_room_def unat_sub word_le_nat_alt)
  have slot: "{unat ?sp - 8 ..< unat ?sp - 8 + 8} \<subseteq> area os bases ?cur"
    using room by (simp add: has_room_def)
  show "mem c' a = mem c a" if "a \<notin> {unat ?sp - 8 ..< unat ?sp}" for a
    using that room by (auto simp: mc sp has_room_def intro!: store_word_other)
  have other: "mem c' a = mem c a" if "j < MAX_THREADS" "j \<noteq> ?cur" "a \<in> area os bases j" for j a
    using that separate_disjoint [OF sep d(4) that(1)] store_word_outside [OF slot]
    by (simp add: mc sp)
  have "blk_base (stack (threads rt' ! j)) = bases j \<and>
      (state (threads rt' ! j) = Ready \<longrightarrow> ctx_in_area os bases j (threads rt' ! j))"
    if "j < MAX_THREADS" for j
    using that d(5,6) slot by (auto simp: th ctx_in_area_def sp)
  moreover have "state (threads rt' ! 0) \<noteq> Available"
    using d(2) th [of 0] by (simp add: MAX_THREADS_def)
  ultimately show "sys_inv os bases (rt', c')"
    using t_yield_inv [OF d(1) y] by (simp add: sys_inv_def)
  have park: "resume_point c' (threads rt' ! j) = resume_point c (threads rt ! j)"
    if "j < MAX_THREADS" "j \<noteq> ?cur" "state (threads rt ! j) = Ready" for j
    using that d(6) other by (intro resume_point_cong) (auto simp: th)
  have self: "resume_point c' (threads rt' ! ?cur) = (ra, regs c)"
    using d(4) by (simp add: resume_point_def th mc sp)
  have new: "now (coro_of (rt', c')) = resume_point c (threads rt ! pos)"
    using park [OF pos(2,3,4)] by (simp add: resume_point_def rc pcc th pos(2,3))
  have eq: "coro_of (rt', c') = \<lparr>running = pos, now = resume_point c (threads rt ! pos),
      parked = (parked (coro_of (rt, c)))(pos := None, ?cur \<mapsto> (ra, snd (now (coro_of (rt, c)))))\<rparr>"
  proof (rule coro_eqI)
    have "state (threads rt' ! j) =
        (if j = pos then Running else if j = ?cur then Ready else state (threads rt ! j))"
      if "j < MAX_THREADS" for j using th [OF that] by simp
    then show "parked (coro_of (rt', c')) j = parked \<lparr>running = pos,
        now = resume_point c (threads rt ! pos),
        parked = (parked (coro_of (rt, c)))(pos := None, ?cur \<mapsto> (ra, snd (now (coro_of (rt, c)))))\<rparr> j" for j
      using pos d(4) park self by (cases "j = ?cur"; cases "j = pos") auto
  qed (use pos new in simp_all)
  have p1: "next_parked (parked (coro_of (rt, c))) (running (coro_of (rt, c))) = Some pos"
    using next_parked_coro_of [OF d(3), of c] pos(1) by simp
  have p2: "parked (coro_of (rt, c)) pos = Some (resume_point c (threads rt ! pos))"
    using pos by simp
  show "coro_step ra bases Yielded (coro_of (rt, c)) (coro_of (rt', c'))"
    using coro_yield [OF p1 p2, of ra bases] by (simp only: eq) simp
qed

lemma sys_act_simulates:
  assumes "separate os bases" and "saves_and_loads switch"
    and "sys_inv os bases s" and "sys_act switch ra guard os bases l s t"
  shows "sys_inv os bases t \<and> coro_step ra bases l (coro_of s) (coro_of t)"
  using assms(4,3)
proof (cases rule: sys_act.cases)
  case (act_run rt c' c)
  with assms(3) run_simulates [OF _ act_run(4)] show ?thesis by simp
next
  case (act_spawn f rt rt' i c)
  with assms(3) spawn_simulates [OF assms(1) _ act_spawn(4,5) refl] show ?thesis by simp
next
  case (act_yield rt c rt' c')
  with assms(3) yield_simulates [OF assms(1) _ assms(2) act_yield(4,5)] show ?thesis by simp
qed

lemma sys_step_simulates:
  assumes "separate os bases" and "saves_and_loads switch"
    and "sys_inv os bases s" and "sys_step switch ra guard os bases s t"
  shows "sys_inv os bases t \<and> (\<exists>l. coro_step ra bases l (coro_of s) (coro_of t))"
  using assms(4) sys_act_simulates [OF assms(1-3)] unfolding sys_step_def by blast

interpretation coros: simulation "sys_act switch ra guard os bases" "coro_step ra bases" coro_of
  "\<lambda>s. separate os bases \<and> saves_and_loads switch \<and> sys_inv os bases s"
  for switch ra guard os bases
  by unfold_locales (use sys_act_simulates in blast)

interpretation sys: step_invariant "(Runtime_new bases, c0)" "sys_step switch ra guard os bases"
  "\<lambda>s. separate os bases \<and> saves_and_loads switch \<longrightarrow> sys_inv os bases s"
  for bases c0 switch ra guard os
proof unfold_locales
  show "separate os bases \<and> saves_and_loads switch \<longrightarrow> sys_inv os bases (Runtime_new bases, c0)"
    by (simp add: separate_def sys_inv_start)
qed (use sys_step_simulates in blast)

lemma reach_sys_inv:
  "reach (Runtime_new bases, c0) (sys_step switch ra guard os bases) s \<Longrightarrow>
     separate os bases \<Longrightarrow> saves_and_loads switch \<Longrightarrow> sys_inv os bases s"
  using sys.inv_reach by blast

lemma coro_of_start: "coro_of (Runtime_new bases, c) = coro_start (pc c, regs c)"
proof -
  have "state (threads (Runtime_new bases) ! j) \<noteq> Ready" if "j < MAX_THREADS" for j
    using that unfolding MAX_THREADS_range Runtime_new_threads
    by (elim disjE) (simp_all add: Thread_new_def)
  then show ?thesis by (intro coro_eqI) (auto simp: coro_start_def Runtime_new_def)
qed

section \<open>A parked thread stays as it is\<close>

text \<open>Steps during which, and after which, thread \<open>i\<close> does not run.\<close>

definition without ::
  "nat \<Rightarrow> (Runtime \<times> mach \<Rightarrow> Runtime \<times> mach \<Rightarrow> bool) \<Rightarrow> Runtime \<times> mach \<Rightarrow> Runtime \<times> mach \<Rightarrow> bool" where
  "without i stp s t \<longleftrightarrow> stp s t \<and> current (fst t) \<noteq> i"

definition parked_at :: "nat \<Rightarrow> u64 \<times> full_context \<Rightarrow> Runtime \<times> mach \<Rightarrow> bool" where
  "parked_at i x s \<longleftrightarrow> parked (coro_of s) i = Some x \<and> running (coro_of s) \<noteq> i"

lemma coro_step_parked:
  assumes "coro_step ra bases l s t" and "parked s i = Some x" and "running s \<noteq> i"
  shows "if running t = i then now t = x else parked t i = Some x"
  using assms by (cases rule: coro_step.cases) auto

lemma sys_step_parked:
  assumes sep: "separate os bases" and sw: "saves_and_loads switch"
    and inv: "sys_inv os bases s" and i: "i < MAX_THREADS" and p: "parked_at i x s"
    and st: "sys_step switch ra guard os bases s t"
  shows "if current (fst t) = i then (pc (snd t), regs (snd t)) = x else parked_at i x t"
    and "a \<in> area os bases i \<Longrightarrow> mem (snd t) a = mem (snd s) a"
proof -
  obtain l where "coro_step ra bases l (coro_of s) (coro_of t)"
    using sys_step_simulates [OF sep sw inv st] by blast
  from coro_step_parked [OF this, of i x] p
  show "if current (fst t) = i then (pc (snd t), regs (snd t)) = x else parked_at i x t"
    by (cases t) (auto simp: parked_at_def split: if_splits)
  show "mem (snd t) a = mem (snd s) a" if a: "a \<in> area os bases i"
    using st
  proof (cases rule: sys_step_cases)
    case (sys_run rt c' c)
    then have "i \<noteq> current rt" using p by (auto simp: parked_at_def)
    with sys_run i a show ?thesis by simp
  next
    case (sys_spawn f rt rt' k c)
    have "state (threads rt ! i) \<noteq> Available"
      using p sys_spawn by (auto simp: parked_at_def split: if_splits)
    with spawn_simulates(3) [OF sep _ sys_spawn(3,4) refl] inv i a sys_spawn show ?thesis by simp
  next
    case (sys_yield rt c rt' c')
    have "current rt < MAX_THREADS" "current rt \<noteq> i"
      using inv p sys_yield sys_invD(4) by (auto simp: parked_at_def)
    with separate_disjoint [OF sep _ i _ a] sys_yield(3)
    have "a \<notin> {unat (rsp (regs c)) - 8 ..< unat (rsp (regs c))}" by (auto simp: has_room_def)
    with yield_simulates(3) [OF sep _ sw sys_yield(3,4)] inv sys_yield show ?thesis by simp
  qed
qed

lemma without_parked:
  assumes sep: "separate os bases" and sw: "saves_and_loads switch" and i: "i < MAX_THREADS"
    and st: "rtranclp (without i (sys_step switch ra guard os bases)) s t"
    and inv: "sys_inv os bases s" and p: "parked_at i x s"
  shows "sys_inv os bases t \<and> parked_at i x t \<and> (\<forall>a \<in> area os bases i. mem (snd t) a = mem (snd s) a)"
  using st
proof (induction rule: rtranclp_induct)
  case base
  with inv p show ?case by simp
next
  case (step t u)
  then have u: "sys_step switch ra guard os bases t u" "current (fst u) \<noteq> i"
    by (simp_all add: without_def)
  from step have t: "sys_inv os bases t" "parked_at i x t"
      "\<forall>a \<in> area os bases i. mem (snd t) a = mem (snd s) a" by simp_all
  from sys_step_parked [OF sep sw t(1) i t(2) u(1)] u(2) t(3)
    sys_step_simulates [OF sep sw t(1) u(1)] show ?case by simp
qed

text \<open>A yield parks its caller.\<close>

lemma yield_parks:
  assumes inv: "sys_inv os bases (rt, c)"
    and sw: "saves_and_loads switch" and room: "has_room os bases rt c"
    and y: "t_yield (call_switch switch ra) c rt = Some (Inr (SwitchedTo rt' c'))"
  shows "parked_at (current rt) (ra, regs c) (rt', c')"
proof -
  let ?sp = "rsp (regs c)"
  have sp: "unat (?sp - 8) = unat ?sp - 8"
    using room by (simp add: has_room_def unat_sub word_le_nat_alt)
  show ?thesis
    by (rule yield_effect [OF inv sw y])
      (use sys_invD(4) [OF inv] in \<open>simp add: parked_at_def resume_point_def sp\<close>)
qed

text \<open>
  The routine \<open>gt_switch\<close> of the assembly experiments only loads. What it loads is what any
  routine with the contract loads, when the memory holds the bytes of its stack.
\<close>

lemma load_bytes_word_at:
  "load_bytes load8 m a n = Inr bs \<Longrightarrow> (\<And>b. blk_mapped m b \<Longrightarrow> load8 m b = Inr (\<mu> b)) \<Longrightarrow>
     bs = map (\<lambda>i. \<mu> (a + i)) [0..<n]"
proof (induction n arbitrary: a bs)
  case 0
  then show ?case by simp
next
  case (Suc n)
  then obtain b bs' where b: "load8 m a = Inr b" "load_bytes load8 m (Suc a) n = Inr bs'" "bs = b # bs'"
    by (auto simp: obind_eq_Inr)
  then have "blk_mapped m a" by (auto simp: load8_def split: if_splits)
  with Suc.prems(2) b(1) have "b = \<mu> a" by simp
  moreover have "bs' = map (\<lambda>i. \<mu> (Suc a + i)) [0..<n]" by (rule Suc.IH [OF b(2) Suc.prems(2)])
  ultimately show ?case using b(3) by (simp add: upt_conv_Cons map_Suc_upt [symmetric] del: upt_Suc)
qed

lemma gt_switch_loads_alike:
  assumes "gt_switch m new k = Inr k'" and "saves_and_loads switch"
    and "\<And>b. blk_mapped m b \<Longrightarrow> load8 m b = Inr (mem c b)"
  shows "rip k' = pc (snd (switch old new c)) \<and> rsp_reg k' = rsp (regs (snd (switch old new c)))"
proof -
  from assms(1) obtain w where w: "read_u64 m (unat (rsp new)) = Inr w" "k' = k\<lparr>rip := w, rsp_reg := rsp new + 8\<rparr>"
    by (auto simp: gt_switch_def x86_ret_def obind_eq_Inr)
  then obtain bs where "load_bytes load8 m (unat (rsp new)) 8 = Inr bs" "w = of_le_bytes bs"
    by (auto simp: read_u64_def obind_eq_Inr)
  with load_bytes_word_at [OF _ assms(3)] have "w = word_at (mem c) (unat (rsp new))"
    by (simp add: word_at_def)
  with w(2) assms(2) show ?thesis by (simp add: saves_and_loads_def)
qed

section \<open>Sample instances\<close>

text \<open>A routine that does what \<open>switch\<close> has to do, and a machine on the stack of the system.\<close>

definition sample_switch :: "full_context \<Rightarrow> full_context \<Rightarrow> mach \<Rightarrow> full_context \<times> mach" where
  "sample_switch old new c =
     (regs c, c\<lparr>regs := new\<lparr>rsp := rsp new + 8\<rparr>, pc := word_at (mem c) (unat (rsp new))\<rparr>)"

definition sample_os :: "nat set" where
  "sample_os = {0x100000 ..< 0x200000}"

definition sample_mach :: mach where
  "sample_mach = \<lparr>regs = full_context_default\<lparr>rsp := 0x150000\<rparr>, pc = 0x1000, mem = (\<lambda>_. 0)\<rparr>"

lemma sample_switch_ok: "saves_and_loads sample_switch"
  by (simp add: saves_and_loads_def sample_switch_def)

lemma sample_separate: "separate sample_os sample_bases"
  unfolding separate_def
proof (intro conjI sample_bases_ok allI impI)
  fix i j
  assume "i < MAX_THREADS" "j < MAX_THREADS" "i \<noteq> j"
  then show "area sample_os sample_bases i \<inter> area sample_os sample_bases j = {}"
    unfolding MAX_THREADS_range
    by (elim disjE) (auto simp: area_def sample_os_def sample_bases_def DEFAULT_STACK_SIZE_def)
qed

text \<open>With one ready thread a yield goes there.\<close>

lemma yield_to_only_ready:
  assumes inv: "sys_inv os bases (rt, c)" and sw: "saves_and_loads switch"
    and j: "j < MAX_THREADS" "state (threads rt ! j) = Ready"
    and only: "\<And>i. i < MAX_THREADS \<Longrightarrow> state (threads rt ! i) = Ready \<Longrightarrow> i = j"
  obtains rt' c' where "t_yield (call_switch switch ra) c rt = Some (Inr (SwitchedTo rt' c'))"
    and "current rt' = j" and "state (threads rt' ! current rt) = Ready"
    and "\<And>i. i < MAX_THREADS \<Longrightarrow> state (threads rt' ! i) = Ready \<Longrightarrow> i = current rt"
    and "regs c' = (ctx (threads rt ! j))\<lparr>rsp := rsp (ctx (threads rt ! j)) + 8\<rparr>"
proof -
  note d = sys_invD [OF inv]
  obtain rt' c' where y: "t_yield (call_switch switch ra) c rt = Some (Inr (SwitchedTo rt' c'))"
    by (rule t_yield_progress [OF d(1), of j "call_switch switch ra" c]) (use j d(3) in simp_all)
  obtain pos where p: "pos < MAX_THREADS" "pos \<noteq> current rt" "state (threads rt ! pos) = Ready"
      "current rt' = pos"
      "regs c' = (ctx (threads rt ! pos))\<lparr>rsp := rsp (ctx (threads rt ! pos)) + 8\<rparr>"
    and th: "\<And>i. i < MAX_THREADS \<Longrightarrow> state (threads rt' ! i) =
        (if i = pos then Running else if i = current rt then Ready else state (threads rt ! i))"
    by (rule yield_effect [OF inv sw y]) (rule that, simp_all)
  have "pos = j" using only p by blast
  show thesis
  proof (rule that [OF y])
    show "i = current rt" if "i < MAX_THREADS" "state (threads rt' ! i) = Ready" for i
      using that th [OF that(1)] only [OF that(1)] \<open>pos = j\<close> by (auto split: if_splits)
  qed (use p th [OF d(4)] \<open>pos = j\<close> in simp_all)
qed

section \<open>Properties\<close>

text \<open>
  C1: The runtime, with the processor, the memory and any routine that saves and loads contexts,
  implements coroutines. Every run of the program, with what its threads do one after the
  other, is a run of the specification with the same labels, from one coroutine that runs
  where the program starts: to spawn \<open>f\<close> parks a coroutine at the entry of \<open>f\<close>, on its own
  block and with the stack the ABI wants, a yield parks the caller after its call with its own
  registers, and the next coroutine in round-robin order continues exactly where it was parked.
\<close>

theorem switching_refines_coroutines:
  assumes "separate os bases" and "saves_and_loads switch"
    and "labelled_run (sys_act switch ra guard os bases) (Runtime_new bases, c0) ls s"
  shows "labelled_run (coro_step ra bases) (coro_start (pc c0, regs c0)) ls (coro_of s)"
proof -
  have "sys_inv os bases (Runtime_new bases, c0)"
    using assms(1) by (simp add: separate_def sys_inv_start)
  with coros.runs_simulate [OF assms(3)] assms(1,2) show ?thesis by (simp add: coro_of_start)
qed

text \<open>Main spawns the function at 9: coroutine 1 is parked at its first instruction.\<close>

lemma switching_refines_coroutines_witness:
  "\<exists>s r. labelled_run (sys_act sample_switch 5 7 sample_os sample_bases)
       (Runtime_new sample_bases, sample_mach) [Spawned 9] s \<and>
     parked (coro_of s) = [1 \<mapsto> (9, r)] \<and> entry_stack sample_bases 1 r"
proof -
  let ?rt0 = "Runtime_new sample_bases"
  obtain rt where s: "spawn 7 9 ?rt0 = Inr rt"
    by (rule main_setup [OF sample_bases_ok, of 7 9 9]) (auto simp: gt_main_setup_def obind_eq_Inr)
  have i: "find_available (threads ?rt0) = Some 1"
    by (simp add: Runtime_new_threads Thread_new_def)
  let ?s = "(rt, spawn_stores 7 9 (stack_top (stack (threads ?rt0 ! 1))) sample_mach)"
  have run: "labelled_run (sys_act sample_switch 5 7 sample_os sample_bases) (?rt0, sample_mach) [Spawned 9] ?s"
    by (rule labelled_run_single) (rule act_spawn [OF s i])
  from switching_refines_coroutines [OF sample_separate sample_switch_ok run]
  obtain j r where "j < MAX_THREADS" "j \<noteq> 0" "\<And>k. k < j \<Longrightarrow> k = 0"
      "entry_stack sample_bases j r" "parked (coro_of ?s) = [j \<mapsto> (9, r)]"
    by (auto simp: coro_start_def elim!: labelled_run_consE labelled_run_nilE coro_step.cases)
  moreover from this(2,3) have "j = 1" by (metis One_nat_def gr0_conv_Suc lessI less_one nat_neq_iff)
  ultimately show ?thesis using run by blast
qed

text \<open>
  C4: A yield is invisible to the thread that makes it: when control comes back to it, after any
  steps of the other threads, it continues after its call with the same stack pointer and
  callee-saved registers, and its stack is as it was, except for the return address below the
  stack pointer.
\<close>

theorem yield_preserves_context:
  assumes "separate os bases" and "saves_and_loads switch"
    and "reach (Runtime_new bases, c0) (sys_step switch ra guard os bases) (rt, c)"
    and "has_room os bases rt c"
    and "t_yield (call_switch switch ra) c rt = Some (Inr (SwitchedTo rt1 c1))"
    and "rtranclp (without (current rt) (sys_step switch ra guard os bases)) (rt1, c1) (rt2, c2)"
    and "sys_step switch ra guard os bases (rt2, c2) (rt3, c3)"
    and "current rt3 = current rt"
  shows "pc c3 = ra \<and> regs c3 = regs c \<and>
    (\<forall>a \<in> area os bases (current rt).
       a \<notin> {unat (rsp (regs c)) - 8 ..< unat (rsp (regs c))} \<longrightarrow> mem c3 a = mem c a)"
proof -
  let ?i = "current rt"
  note inv = reach_sys_inv [OF assms(3,1,2)]
  note y = yield_simulates [OF assms(1) inv assms(2,4,5)]
  have i: "?i < MAX_THREADS" by (rule sys_invD(4) [OF inv])
  have p1: "parked_at ?i (ra, regs c) (rt1, c1)"
    using yield_parks [OF inv assms(2,4,5)] .
  from without_parked [OF assms(1,2) i assms(6) y(1) p1]
  have s2: "sys_inv os bases (rt2, c2)" "parked_at ?i (ra, regs c) (rt2, c2)"
      "\<forall>a \<in> area os bases ?i. mem c2 a = mem c1 a" by simp_all
  from sys_step_parked [OF assms(1,2) s2(1) i s2(2) assms(7)] assms(8) s2(3) y(3)
  show ?thesis by simp
qed

text \<open>Main spawns a thread and yields to it; the thread yields back.\<close>

lemma yield_preserves_context_witness:
  "\<exists>rt c rt1 c1 rt3 c3.
     t_yield (call_switch sample_switch 5) c rt = Some (Inr (SwitchedTo rt1 c1)) \<and> current rt1 = 1 \<and>
     t_yield (call_switch sample_switch 5) c1 rt1 = Some (Inr (SwitchedTo rt3 c3)) \<and>
     pc c3 = 5 \<and> regs c3 = full_context_default\<lparr>rsp := 0x150000\<rparr>"
proof -
  let ?rt0 = "Runtime_new sample_bases"
  let ?step = "sys_step sample_switch 5 7 sample_os sample_bases"
  note sep = sample_separate and sw = sample_switch_ok
  obtain rt where s: "spawn 7 9 ?rt0 = Inr rt"
    by (rule main_setup [OF sample_bases_ok, of 7 9 9]) (auto simp: gt_main_setup_def obind_eq_Inr)
  have i: "find_available (threads ?rt0) = Some 1"
    by (simp add: Runtime_new_threads Thread_new_def)
  define top' where "top' = stack_top (stack (threads ?rt0 ! 1))"
  define c where "c = spawn_stores 7 9 top' sample_mach"
  have st: "?step (?rt0, sample_mach) (rt, c)"
    unfolding c_def top'_def by (rule sys_spawn [OF s i])
  have r: "reach (?rt0, sample_mach) ?step (rt, c)" by (rule reach_step [OF reach_start]) (rule st)
  note inv0 = sys_inv_start [OF sample_bases_ok, of sample_os sample_mach]
  note inv = reach_sys_inv [OF r sep sw]
  note e = spawn_effect [OF inv0 s i, folded top'_def]
  have e1: "current rt = 0" "state (threads rt ! 1) = Ready"
      "unat (rsp (ctx (threads rt ! 1))) = top' - 32" "sample_bases 1 + 64 \<le> top'"
      "top' \<le> sample_bases 1 + DEFAULT_STACK_SIZE" "top' < 2 ^ 64"
    by (rule e, simp add: Runtime_new_threads)+
  have same: "threads rt ! j = threads ?rt0 ! j" if "j < MAX_THREADS" "j \<noteq> 1" for j
    using that by (rule_tac e) blast
  have fresh: "state (threads ?rt0 ! j) \<noteq> Ready" if "j < MAX_THREADS" for j
    using that unfolding MAX_THREADS_range Runtime_new_threads
    by (elim disjE) (simp_all add: Thread_new_def)
  have only: "j = 1" if "j < MAX_THREADS" "state (threads rt ! j) = Ready" for j
    using same [OF that(1)] fresh [OF that(1)] that(2) by metis
  obtain rt1 c1 where y1: "t_yield (call_switch sample_switch 5) c rt = Some (Inr (SwitchedTo rt1 c1))"
      "current rt1 = 1" "state (threads rt1 ! 0) = Ready"
      "regs c1 = (ctx (threads rt ! 1))\<lparr>rsp := rsp (ctx (threads rt ! 1)) + 8\<rparr>"
    and only1: "\<And>j. j < MAX_THREADS \<Longrightarrow> state (threads rt1 ! j) = Ready \<Longrightarrow> j = 0"
    by (rule yield_to_only_ready [OF inv sw _ e1(2) only, where ra = 5])
      (simp_all add: MAX_THREADS_def e1(1) that)
  have room: "has_room sample_os sample_bases rt c"
    by (auto simp: has_room_def c_def spawn_stores_def sample_mach_def area_def e1(1) sample_os_def)
  note inv1 = yield_simulates(1) [OF sep inv sw room y1(1)]
  obtain rt3 c3 where y3: "t_yield (call_switch sample_switch 5) c1 rt1 = Some (Inr (SwitchedTo rt3 c3))"
      "current rt3 = 0"
    by (rule yield_to_only_ready [OF inv1 sw _ y1(3) only1, where ra = 5])
      (simp_all add: MAX_THREADS_def that)
  have "unat (rsp (regs c1)) = top' - 24"
    using unat_add8 [OF e1(3)] e1(4,6) by (simp add: y1(4))
  then have room1: "has_room sample_os sample_bases rt1 c1"
    using e1(4,5) by (auto simp: has_room_def area_def y1(2))
  have "?step (rt1, c1) (rt3, c3)" by (rule sys_yield [OF room1 y3(1)])
  from yield_preserves_context [OF sep sw r room y1(1) rtranclp.rtrancl_refl this] y3(2) e1(1)
  have p: "pc c3 = 5" and q: "regs c3 = full_context_default\<lparr>rsp := 0x150000\<rparr>"
    by (simp_all add: c_def spawn_stores_def sample_mach_def)
  show ?thesis by (intro exI conjI) (rule y1(1), rule y1(2), rule y3(1), rule p, rule q)
qed

end
