(* ===== verification/DotOperator.thy ===== *)
theory DotOperator
  imports Prelude "HOL-Library.Multiset"
begin

text \<open>
  The dot operator, \<^verbatim>\<open>type_conversions/src/dot_operator.rs\<close>: the search that resolves a method
  call (automatic references, dereferences and the unsizing of arrays), on which the types of
  \<open>do_stuff\<close> and \<open>clone_containers\<close> and the indexing of \<open>method_lookup_algorithm\<close> depend; and
  the reference counts that \<open>Container::clone\<close> and the end of the scopes change.
\<close>

section \<open>Method resolution\<close>

text \<open>The types the file mentions; \<open>T_param\<close> is the type parameter \<open>T\<close>.\<close>

datatype rty = T_param | T_i32 | T_u8 | T_array rty nat | T_slice rty
  | T_ref rty | T_ref_mut rty | T_box rty | T_rc rty | T_arc rty | T_container rty

text \<open>The receiver type and what it dereferences to, step by step.\<close>

fun autoderef :: "rty \<Rightarrow> rty list" where
  "autoderef (T_ref t) = T_ref t # autoderef t"
| "autoderef (T_ref_mut t) = T_ref_mut t # autoderef t"
| "autoderef (T_box t) = T_box t # autoderef t"
| "autoderef (T_rc t) = T_rc t # autoderef t"
| "autoderef (T_arc t) = T_arc t # autoderef t"
| "autoderef t = [t]"

text \<open>An array that cannot be dereferenced further is tried as a slice at last.\<close>

fun unsize :: "rty \<Rightarrow> rty list" where
  "unsize (T_array t n) = [T_slice t]"
| "unsize t = []"

definition lookup_steps :: "rty \<Rightarrow> rty list" where
  "lookup_steps t = autoderef t @ unsize (last (autoderef t))"

text \<open>Each step is tried by value, then by shared and by mutable reference.\<close>

definition candidates :: "rty \<Rightarrow> rty list" where
  "candidates t = concat (map (\<lambda>u. [u, T_ref u, T_ref_mut u]) (lookup_steps t))"

fun first_some :: "('a \<Rightarrow> 'b option) \<Rightarrow> 'a list \<Rightarrow> 'b option" where
  "first_some f [] = None"
| "first_some f (x # xs) = (case f x of None \<Rightarrow> first_some f xs | Some y \<Rightarrow> Some y)"

definition resolve :: "(rty \<Rightarrow> 'm option) \<Rightarrow> rty \<Rightarrow> 'm option" where
  "resolve method t = first_some method (candidates t)"

text \<open>
  Which types implement \<open>Clone\<close>: \<open>t_clone\<close> says whether \<open>T: Clone\<close> is known, \<open>derived\<close> whether
  \<open>Container\<close> has the derived implementation of the comment, which asks for \<open>T: Clone\<close>, instead
  of the one in the file.
\<close>

fun implements_clone :: "bool \<Rightarrow> bool \<Rightarrow> rty \<Rightarrow> bool" where
  "implements_clone t_clone derived T_param = t_clone"
| "implements_clone t_clone derived T_i32 = True"
| "implements_clone t_clone derived T_u8 = True"
| "implements_clone t_clone derived (T_array t n) = implements_clone t_clone derived t"
| "implements_clone t_clone derived (T_slice t) = False"
| "implements_clone t_clone derived (T_ref t) = True"
| "implements_clone t_clone derived (T_ref_mut t) = False"
| "implements_clone t_clone derived (T_box t) = implements_clone t_clone derived t"
| "implements_clone t_clone derived (T_rc t) = True"
| "implements_clone t_clone derived (T_arc t) = True"
| "implements_clone t_clone derived (T_container t) = (derived \<longrightarrow> implements_clone t_clone derived t)"

text \<open>\<open>fn clone(&self) -> Self\<close>: the receiver is a shared reference; the result is its target.\<close>

fun by_ref_method :: "(rty \<Rightarrow> 'm option) \<Rightarrow> rty \<Rightarrow> 'm option" where
  "by_ref_method f (T_ref s) = f s"
| "by_ref_method f t = None"

definition clone_type :: "bool \<Rightarrow> bool \<Rightarrow> rty \<Rightarrow> rty option" where
  "clone_type t_clone derived =
     resolve (by_ref_method (\<lambda>s. if implements_clone t_clone derived s then Some s else None))"

text \<open>\<open>do_stuff<T>(value: &T)\<close> and \<open>clone_containers<T>(foo: &Container<i32>, bar: Container<T>)\<close>.\<close>

definition do_stuff_cloned :: "bool \<Rightarrow> rty option" where
  "do_stuff_cloned t_clone = clone_type t_clone False (T_ref T_param)"

definition foo_cloned :: "bool \<Rightarrow> bool \<Rightarrow> rty option" where
  "foo_cloned t_clone derived = clone_type t_clone derived (T_ref (T_container T_i32))"

definition bar_cloned :: "bool \<Rightarrow> bool \<Rightarrow> rty option" where
  "bar_cloned t_clone derived = clone_type t_clone derived (T_container T_param)"

text \<open>\<open>array.index(0)\<close>: as the comment explains it, only slices implement \<open>Index\<close>.\<close>

fun index_output :: "rty \<Rightarrow> rty option" where
  "index_output (T_slice t) = Some t"
| "index_output t = None"

definition index_type :: "rty \<Rightarrow> rty option" where
  "index_type = resolve (by_ref_method index_output)"

definition array_type :: rty where
  "array_type = T_rc (T_box (T_array T_u8 3))"

section \<open>Reference counts\<close>

text \<open>
  The heap of the standard library's \<open>Arc\<close>: the strong count and the value of each live
  allocation, and the values dropped so far. A count beyond \<open>isize::MAX\<close> aborts the process.
\<close>

record 'v arcs =
  cells :: "nat \<Rightarrow> (u64 \<times> 'v) option"
  dropped :: "'v list"

definition MAX_REFCOUNT :: nat where
  "MAX_REFCOUNT = 2 ^ 63 - 1"

definition arc_clone :: "nat \<Rightarrow> 'v arcs \<Rightarrow> 'v arcs outcome" where
  "arc_clone a s =
     (case cells s a of
        None \<Rightarrow> Inl (UB ''use after free'')
      | Some (n, v) \<Rightarrow>
          if MAX_REFCOUNT < unat n then Inl (Panic ''abort'')
          else Inr (s\<lparr>cells := (cells s)(a \<mapsto> (n + 1, v))\<rparr>))"

definition arc_drop :: "nat \<Rightarrow> 'v arcs \<Rightarrow> 'v arcs outcome" where
  "arc_drop a s =
     (case cells s a of
        None \<Rightarrow> Inl (UB ''use after free'')
      | Some (n, v) \<Rightarrow>
          if n = 1 then Inr (s\<lparr>cells := (cells s)(a := None), dropped := dropped s @ [v]\<rparr>)
          else Inr (s\<lparr>cells := (cells s)(a \<mapsto> (n - 1, v))\<rparr>))"

text \<open>\<open>impl<T> Clone for Container<T>\<close>: the clone shares the allocation.\<close>

datatype Container = Container nat

definition Container_clone :: "Container \<Rightarrow> 'v arcs \<Rightarrow> (Container \<times> 'v arcs) outcome" where
  "Container_clone self s =
     (case self of Container a \<Rightarrow> obind (arc_clone a s) (\<lambda>s'. Inr (Container a, s')))"

fun Container_drop :: "Container \<Rightarrow> 'v arcs \<Rightarrow> 'v arcs outcome" where
  "Container_drop (Container a) s = arc_drop a s"

text \<open>\<open>foo\<close> is borrowed; the two locals are dropped in reverse order, then the parameter \<open>bar\<close>.\<close>

definition clone_containers :: "Container \<Rightarrow> Container \<Rightarrow> 'v arcs \<Rightarrow> 'v arcs outcome" where
  "clone_containers foo bar s =
     obind (Container_clone foo s) (\<lambda>(foo', s1).
     obind (Container_clone bar s1) (\<lambda>(bar', s2).
     obind (Container_drop bar' s2) (\<lambda>s3.
     obind (Container_drop foo' s3) (\<lambda>s4.
     Container_drop bar s4))))"

text \<open>
  \<open>method_lookup_algorithm\<close>: the \<open>Rc\<close> is put at a fresh address \<open>a\<close>; its value is the boxed
  array. Indexing reads through both pointers, and the end of the scope drops the \<open>Rc\<close>.
\<close>

definition rc_new :: "nat \<Rightarrow> 'v \<Rightarrow> 'v arcs \<Rightarrow> 'v arcs" where
  "rc_new a v s = s\<lparr>cells := (cells s)(a \<mapsto> (1, v))\<rparr>"

definition rc_index :: "nat \<Rightarrow> nat \<Rightarrow> u8 list arcs \<Rightarrow> u8 outcome" where
  "rc_index a i s =
     (case cells s a of
        None \<Rightarrow> Inl (UB ''use after free'')
      | Some (n, xs) \<Rightarrow> if i < length xs then Inr (xs ! i) else Inl (Panic ''index out of bounds''))"

definition method_lookup_algorithm :: "nat \<Rightarrow> u8 list arcs \<Rightarrow> (u8 \<times> u8 list arcs) outcome" where
  "method_lookup_algorithm a s =
     (let s1 = rc_new a (replicate 3 0) s
      in obind (rc_index a 0 s1) (\<lambda>first_entry.
         obind (arc_drop a s1) (\<lambda>s2. Inr (first_entry, s2))))"

section \<open>Any use of the containers\<close>

text \<open>
  What safe code can do with containers and the functions of the file: clone one it has, drop one
  it has, or call \<open>clone_containers\<close> with a borrowed and an owned one. \<open>H\<close> is the multiset of the
  allocations of the containers that exist; a clone adds the container that it returns.
\<close>

datatype handle_op = CloneH nat | DropH nat | CallH nat nat

fun do_op :: "handle_op \<Rightarrow> nat multiset \<times> 'v arcs \<Rightarrow> (nat multiset \<times> 'v arcs) outcome" where
  "do_op (CloneH a) (H, s) =
     obind (Container_clone (Container a) s) (\<lambda>(c, s'). case c of Container b \<Rightarrow> Inr (add_mset b H, s'))"
| "do_op (DropH a) (H, s) = obind (Container_drop (Container a) s) (\<lambda>s'. Inr (H - {#a#}, s'))"
| "do_op (CallH a b) (H, s) =
     obind (clone_containers (Container a) (Container b) s) (\<lambda>s'. Inr (H - {#b#}, s'))"

fun legal_ops :: "nat multiset \<Rightarrow> handle_op list \<Rightarrow> bool" where
  "legal_ops H [] = True"
| "legal_ops H (CloneH a # ops) = (a \<in># H \<and> count H a \<le> MAX_REFCOUNT \<and> legal_ops (add_mset a H) ops)"
| "legal_ops H (DropH a # ops) = (a \<in># H \<and> legal_ops (H - {#a#}) ops)"
| "legal_ops H (CallH a b # ops) =
     ({#a, b#} \<subseteq># H \<and> count H a < MAX_REFCOUNT \<and> count H b < MAX_REFCOUNT \<and>
      legal_ops (H - {#b#}) ops)"

text \<open>Every count is the number of handles, and an allocation without a handle is gone.\<close>

definition counted :: "nat multiset \<Rightarrow> 'v arcs \<Rightarrow> bool" where
  "counted H s \<longleftrightarrow>
     (\<forall>a. (cells s a = None \<longleftrightarrow> a \<notin># H) \<and>
          (\<forall>n v. cells s a = Some (n, v) \<longrightarrow> unat n = count H a))"

text \<open>The values that are live, with those dropped already: a multiset no operation changes.\<close>

definition values_of :: "nat multiset \<Rightarrow> 'v arcs \<Rightarrow> 'v multiset" where
  "values_of H s = image_mset (\<lambda>a. snd (the (cells s a))) (mset_set (set_mset H)) + mset (dropped s)"

lemma counted_Some:
  assumes "counted H s" and "a \<in># H"
  obtains n v where "cells s a = Some (n, v)" and "unat n = count H a" and "0 < count H a"
proof -
  from assms obtain p where "cells s a = Some p" by (auto simp: counted_def)
  with assms that show thesis by (cases p) (auto simp: counted_def)
qed

lemma counted_None: "counted H s \<Longrightarrow> cells s b = None \<longleftrightarrow> b \<notin># H"
  by (simp add: counted_def)

lemma counted_count: "counted H s \<Longrightarrow> cells s b = Some (m, w) \<Longrightarrow> unat m = count H b"
  by (simp add: counted_def)

lemma values_of_update:
  assumes "set_mset G = set_mset H" and "dropped t = dropped s"
    and "\<And>b. b \<in># H \<Longrightarrow> snd (the (cells t b)) = snd (the (cells s b))"
  shows "values_of G t = values_of H s"
proof -
  have "image_mset (\<lambda>a. snd (the (cells t a))) (mset_set (set_mset H)) =
      image_mset (\<lambda>a. snd (the (cells s a))) (mset_set (set_mset H))"
    by (rule image_mset_cong) (use assms(3) in auto)
  with assms(1,2) show ?thesis by (simp add: values_of_def)
qed

lemma arc_clone_counted:
  assumes "counted H s" and "a \<in># H" and "count H a \<le> MAX_REFCOUNT"
  obtains s' where "arc_clone a s = Inr s'" and "counted (add_mset a H) s'"
    and "values_of (add_mset a H) s' = values_of H s"
    and "dropped s' = dropped s"
    and "\<And>b. b \<in># H \<Longrightarrow> snd (the (cells s' b)) = snd (the (cells s b))"
proof -
  obtain n v where n: "cells s a = Some (n, v)" "unat n = count H a"
    by (rule counted_Some [OF assms(1,2)])
  let ?s' = "s\<lparr>cells := (cells s)(a \<mapsto> (n + 1, v))\<rparr>"
  have "unat (n + 1) = Suc (count H a)"
    using n(2) assms(3) by (simp add: unat_word_ariths MAX_REFCOUNT_def)
  then have "counted (add_mset a H) ?s'"
    using counted_None [OF assms(1)] counted_count [OF assms(1)] by (auto simp: counted_def)
  moreover have "arc_clone a s = Inr ?s'" using n assms(3) by (simp add: arc_clone_def)
  moreover have "values_of (add_mset a H) ?s' = values_of H s"
    using n(1) assms(2) by (intro values_of_update) auto
  ultimately show thesis using that n(1) by simp
qed

lemma arc_drop_counted:
  assumes "counted H s" and "a \<in># H"
  obtains s' where "arc_drop a s = Inr s'" and "counted (H - {#a#}) s'"
    and "values_of (H - {#a#}) s' = values_of H s"
    and "dropped s' = dropped s @ (if count H a = 1 then [snd (the (cells s a))] else [])"
    and "\<And>b. b \<in># H - {#a#} \<Longrightarrow> snd (the (cells s' b)) = snd (the (cells s b))"
proof -
  obtain n v where n: "cells s a = Some (n, v)" "unat n = count H a" "0 < count H a"
    by (rule counted_Some [OF assms])
  show thesis
  proof (cases "count H a = 1")
    case True
    let ?s' = "s\<lparr>cells := (cells s)(a := None), dropped := dropped s @ [v]\<rparr>"
    have "n = 1" using True n(2) by (simp add: word_unat_eq_iff)
    then have "arc_drop a s = Inr ?s'" using n by (simp add: arc_drop_def)
    moreover have H': "set_mset (H - {#a#}) = set_mset H - {a}"
      using True by (auto simp: in_diff_count count_eq_zero_iff [symmetric] split: if_splits)
    then have "counted (H - {#a#}) ?s'"
      using counted_None [OF assms(1)] counted_count [OF assms(1)] by (auto simp: counted_def)
    moreover have "values_of (H - {#a#}) ?s' = values_of H s"
    proof -
      have "mset_set (set_mset H) = add_mset a (mset_set (set_mset H - {a}))"
        using assms(2) by (simp add: mset_set.remove)
      moreover have "image_mset (\<lambda>b. snd (the (cells ?s' b))) (mset_set (set_mset H - {a})) =
          image_mset (\<lambda>b. snd (the (cells s b))) (mset_set (set_mset H - {a}))"
        by (rule image_mset_cong) auto
      ultimately show ?thesis using n(1) by (simp add: values_of_def H')
    qed
    ultimately show thesis using that [of ?s'] True n(1) H' by simp
  next
    case False
    let ?s' = "s\<lparr>cells := (cells s)(a \<mapsto> (n - 1, v))\<rparr>"
    have "n \<noteq> 1" and m: "unat (n - 1) = count H a - 1"
      using False n(2,3) by (auto simp: unat_sub word_le_nat_alt)
    then have "arc_drop a s = Inr ?s'" using n by (simp add: arc_drop_def)
    moreover have H': "set_mset (H - {#a#}) = set_mset H"
      using False n(3) by (auto simp: in_diff_count count_greater_zero_iff [symmetric]
          simp del: count_greater_zero_iff)
    then have "counted (H - {#a#}) ?s'"
      using counted_None [OF assms(1)] counted_count [OF assms(1)] m assms(2) by (auto simp: counted_def)
    moreover have "values_of (H - {#a#}) ?s' = values_of H s"
      using n(1) H' by (intro values_of_update) auto
    ultimately show thesis using that [of ?s'] False n(1) by simp
  qed
qed

text \<open>The body of \<open>clone_containers\<close> as operations on the two allocations.\<close>

lemma clone_containers_arcs:
  "clone_containers (Container a) (Container b) s =
     obind (arc_clone a s) (\<lambda>s1. obind (arc_clone b s1) (\<lambda>s2. obind (arc_drop b s2) (\<lambda>s3.
     obind (arc_drop a s3) (arc_drop b))))"
  by (simp add: clone_containers_def Container_clone_def obind_assoc)

lemma clone_containers_counted:
  assumes "counted H s" and "{#a, b#} \<subseteq># H"
    and "count H a < MAX_REFCOUNT" and "count H b < MAX_REFCOUNT"
  obtains s' where "clone_containers (Container a) (Container b) s = Inr s'"
    and "counted (H - {#b#}) s'" and "values_of (H - {#b#}) s' = values_of H s"
    and "dropped s' = dropped s @ (if count H b = 1 then [snd (the (cells s b))] else [])"
proof -
  have ab: "a \<in># H" "b \<in># H" using assms(2) by (auto dest: mset_subset_eqD)
  obtain s1 where s1: "arc_clone a s = Inr s1" "counted (add_mset a H) s1"
      "values_of (add_mset a H) s1 = values_of H s" "dropped s1 = dropped s"
    and v1: "\<And>c. c \<in># H \<Longrightarrow> snd (the (cells s1 c)) = snd (the (cells s c))"
    by (rule arc_clone_counted [OF assms(1) ab(1)]) (use assms(3) in simp_all)
  obtain s2 where s2: "arc_clone b s1 = Inr s2" "counted (add_mset b (add_mset a H)) s2"
      "values_of (add_mset b (add_mset a H)) s2 = values_of H s" "dropped s2 = dropped s"
    and v2: "\<And>c. c \<in># add_mset a H \<Longrightarrow> snd (the (cells s2 c)) = snd (the (cells s1 c))"
    by (rule arc_clone_counted [OF s1(2), of b]) (use ab(2) assms(3,4) s1(3,4) in simp_all)
  obtain s3 where s3: "arc_drop b s2 = Inr s3" "counted (add_mset a H) s3"
      "values_of (add_mset a H) s3 = values_of H s" "dropped s3 = dropped s"
    and v3: "\<And>c. c \<in># add_mset a H \<Longrightarrow> snd (the (cells s3 c)) = snd (the (cells s2 c))"
    by (rule arc_drop_counted [OF s2(2), of b]) (use ab(2) s2(3,4) in simp_all)
  obtain s4 where s4: "arc_drop a s3 = Inr s4" "counted H s4" "values_of H s4 = values_of H s"
      "dropped s4 = dropped s"
    and v4: "\<And>c. c \<in># H \<Longrightarrow> snd (the (cells s4 c)) = snd (the (cells s3 c))"
    by (rule arc_drop_counted [OF s3(2), of a]) (use ab(1) s3(3,4) in simp_all)
  obtain s5 where s5: "arc_drop b s4 = Inr s5" "counted (H - {#b#}) s5"
      "values_of (H - {#b#}) s5 = values_of H s"
      "dropped s5 = dropped s4 @ (if count H b = 1 then [snd (the (cells s4 b))] else [])"
    by (rule arc_drop_counted [OF s4(2) ab(2)]) (use s4(3) in simp_all)
  have "snd (the (cells s4 b)) = snd (the (cells s b))"
    using ab(2) v1 v2 v3 v4 by simp
  with that [OF _ s5(2,3)] s1(1) s2(1) s3(1) s4 s5(1,4) show thesis by (simp add: clone_containers_arcs)
qed

text \<open>One operation, and any sequence.\<close>

lemma do_op_counted:
  assumes "counted H s" and "legal_ops H (p # ops)"
  obtains H' s' where "do_op p (H, s) = Inr (H', s')" and "counted H' s'" and "legal_ops H' ops"
    and "values_of H' s' = values_of H s"
proof (cases p)
  case (CloneH a)
  with assms(2) have a: "a \<in># H" "count H a \<le> MAX_REFCOUNT" "legal_ops (add_mset a H) ops" by simp_all
  obtain t where "arc_clone a s = Inr t" "counted (add_mset a H) t"
      "values_of (add_mset a H) t = values_of H s"
    by (rule arc_clone_counted [OF assms(1) a(1,2)])
  with that a(3) show thesis by (simp add: CloneH Container_clone_def)
next
  case (DropH a)
  with assms(2) have a: "a \<in># H" "legal_ops (H - {#a#}) ops" by simp_all
  obtain t where "arc_drop a s = Inr t" "counted (H - {#a#}) t"
      "values_of (H - {#a#}) t = values_of H s"
    by (rule arc_drop_counted [OF assms(1) a(1)])
  with that a(2) show thesis by (simp add: DropH)
next
  case (CallH a b)
  with assms(2) have a: "{#a, b#} \<subseteq># H" "count H a < MAX_REFCOUNT" "count H b < MAX_REFCOUNT"
      "legal_ops (H - {#b#}) ops" by simp_all
  obtain t where "clone_containers (Container a) (Container b) s = Inr t" "counted (H - {#b#}) t"
      "values_of (H - {#b#}) t = values_of H s"
    by (rule clone_containers_counted [OF assms(1) a(1-3)])
  with that a(4) show thesis by (simp add: CallH)
qed

lemma ops_counted:
  "counted H s \<Longrightarrow> legal_ops H ops \<Longrightarrow>
     \<exists>H' s'. ofold do_op ops (H, s) = Inr (H', s') \<and> counted H' s' \<and> values_of H' s' = values_of H s"
proof (induction ops arbitrary: H s)
  case Nil
  then show ?case by simp
next
  case (Cons p ops)
  obtain H1 s1 where 1: "do_op p (H, s) = Inr (H1, s1)" "counted H1 s1" "legal_ops H1 ops"
      "values_of H1 s1 = values_of H s"
    by (rule do_op_counted [OF Cons.prems])
  from Cons.IH [OF 1(2,3)] 1(1,4) show ?case by simp
qed

text \<open>Two allocations, the second with two handles.\<close>

definition sample_arcs :: "string arcs" where
  "sample_arcs = \<lparr>cells = [1 \<mapsto> (1, ''one''), 2 \<mapsto> (2, ''two'')], dropped = []\<rparr>"

lemma sample_arcs_counted: "counted {#1, 2, 2#} sample_arcs"
  by (auto simp: counted_def sample_arcs_def split: if_splits)

section \<open>Indexing through pointers\<close>

text \<open>Any stack of pointer types around a type.\<close>

datatype wrapper = W_ref | W_ref_mut | W_box | W_rc | W_arc

fun wrap :: "wrapper list \<Rightarrow> rty \<Rightarrow> rty" where
  "wrap [] t = t"
| "wrap (W_ref # ws) t = T_ref (wrap ws t)"
| "wrap (W_ref_mut # ws) t = T_ref_mut (wrap ws t)"
| "wrap (W_box # ws) t = T_box (wrap ws t)"
| "wrap (W_rc # ws) t = T_rc (wrap ws t)"
| "wrap (W_arc # ws) t = T_arc (wrap ws t)"

lemma first_some_append:
  "first_some f (xs @ ys) = (case first_some f xs of None \<Rightarrow> first_some f ys | Some y \<Rightarrow> Some y)"
  by (induction xs) (simp_all split: option.splits)

lemma autoderef_nonempty [simp]: "autoderef t \<noteq> []"
  by (cases t) simp_all

lemma wrap_Cons:
  "autoderef (wrap (w # ws) t) = wrap (w # ws) t # autoderef (wrap ws t)"
  "last (autoderef (wrap (w # ws) t)) = last (autoderef (wrap ws t))"
  by (cases w; simp)+

lemma candidates_wrap:
  "candidates (wrap (w # ws) t) =
     [wrap (w # ws) t, T_ref (wrap (w # ws) t), T_ref_mut (wrap (w # ws) t)] @ candidates (wrap ws t)"
  by (simp add: candidates_def lookup_steps_def wrap_Cons)

lemma wrap_not_slice: "index_output (wrap ws (T_array t n)) = None"
proof (cases ws)
  case Nil
  then show ?thesis by simp
next
  case (Cons w ws')
  then show ?thesis by (cases w) simp_all
qed

lemma index_through_wrap:
  "index_type (wrap ws (T_array t n)) = Some t"
proof (induction ws)
  case Nil
  then show ?case by (simp add: index_type_def resolve_def candidates_def lookup_steps_def)
next
  case (Cons w ws)
  note a = wrap_not_slice [of _ t n]
  then have "by_ref_method index_output (wrap (w # ws) (T_array t n)) = None"
    by (cases w) (simp_all add: a)
  with Cons wrap_not_slice [of "w # ws" t n] show ?case
    by (simp add: index_type_def resolve_def candidates_wrap del: wrap.simps)
qed

section \<open>Properties\<close>

text \<open>
  What the method calls of the file resolve to. Without \<open>T: Clone\<close>, \<open>do_stuff\<close> clones the
  reference, with it the value. Both clones of \<open>clone_containers\<close> are containers, whatever is
  known of \<open>T\<close>, since the implementation in the file does not ask for \<open>T: Clone\<close>; with the
  derived one of the comment \<open>bar.clone()\<close> would not resolve at all (it would be a reference,
  as the comment says, if \<open>bar\<close> were one). Indexing finds the array behind any stack of
  pointers, so \<open>array[0]\<close> has the element type.
\<close>

theorem method_calls_resolve:
  "do_stuff_cloned False = Some (T_ref T_param) \<and> do_stuff_cloned True = Some T_param \<and>
   foo_cloned t_clone False = Some (T_container T_i32) \<and>
   bar_cloned t_clone False = Some (T_container T_param) \<and>
   bar_cloned False True = None \<and>
   clone_type False True (T_ref (T_container T_param)) = Some (T_ref (T_container T_param)) \<and>
   index_type (wrap ws (T_array t n)) = Some t \<and> index_type array_type = Some T_u8"
proof -
  note defs = clone_type_def resolve_def candidates_def lookup_steps_def
  have "index_type array_type = Some T_u8"
    using index_through_wrap [of "[W_rc, W_box]" T_u8 3] by (simp add: array_type_def)
  moreover have "do_stuff_cloned False = Some (T_ref T_param)" "do_stuff_cloned True = Some T_param"
    by (simp_all add: do_stuff_cloned_def defs)
  moreover have "foo_cloned t_clone False = Some (T_container T_i32)"
      "bar_cloned t_clone False = Some (T_container T_param)" "bar_cloned False True = None"
    by (simp_all add: foo_cloned_def bar_cloned_def defs)
  moreover have "clone_type False True (T_ref (T_container T_param)) = Some (T_ref (T_container T_param))"
    by (simp add: defs)
  ultimately show ?thesis using index_through_wrap by blast
qed

text \<open>
  C8: The containers are counted exactly. Whatever sequence of \<open>Container::clone\<close>, of drops and of
  calls of \<open>clone_containers\<close> safe code performs with the containers it has, nothing faults: no
  operation touches a freed allocation, each count stays the number of containers that share the
  allocation, those returned by \<open>clone\<close> included, an allocation lives exactly as long as it has
  one, and every value is dropped when its last container is and not before, so none is lost and
  none is dropped twice.
\<close>

theorem counts_are_exact:
  assumes "counted H s" and "legal_ops H ops"
  shows "\<exists>H' s'. ofold do_op ops (H, s) = Inr (H', s') \<and>
    (\<forall>a. (cells s' a = None \<longleftrightarrow> a \<notin># H') \<and> (\<forall>n v. cells s' a = Some (n, v) \<longrightarrow> unat n = count H' a)) \<and>
    values_of H' s' = values_of H s"
  using ops_counted [OF assms] unfolding counted_def .

lemma counts_are_exact_witness:
  "\<exists>s'. ofold do_op [CloneH 1, CallH 2 2, DropH 1, DropH 2] ({#1, 2, 2#}, sample_arcs) = Inr ({#1#}, s') \<and>
     cells s' 2 = None \<and> cells s' 1 \<noteq> None"
proof -
  let ?ops = "[CloneH 1, CallH 2 2, DropH 1, DropH 2]"
  have l: "legal_ops {#1, 2, 2#} ?ops" by (simp add: MAX_REFCOUNT_def)
  obtain H' s' where r: "ofold do_op ?ops ({#1, 2, 2#}, sample_arcs) = Inr (H', s')"
    and n: "\<And>a. cells s' a = None \<longleftrightarrow> a \<notin># H'"
    using counts_are_exact [OF sample_arcs_counted l] by blast
  then have "H' = {#1#}" by (auto simp: obind_eq_Inr Container_clone_def split: prod.splits)
  with n [of 1] n [of 2] have "cells s' 2 = None" "cells s' 1 \<noteq> None" by simp_all
  with r \<open>H' = {#1#}\<close> show ?thesis by blast
qed

text \<open>
  C29: \<open>clone_containers\<close>, which borrows one container and takes the other, also when both share an
  allocation: it never faults, the borrowed container keeps its count, the taken one gives its
  handle up, and its value is dropped exactly when that handle was the last.
\<close>

theorem clone_containers_correct:
  assumes "counted H s" and "{#a, b#} \<subseteq># H"
    and "count H a < MAX_REFCOUNT" and "count H b < MAX_REFCOUNT"
  shows "\<exists>s'. clone_containers (Container a) (Container b) s = Inr s' \<and>
    counted (H - {#b#}) s' \<and>
    dropped s' = dropped s @ (if count H b = 1 then [snd (the (cells s b))] else [])"
  by (rule clone_containers_counted [OF assms]) blast

lemma clone_containers_correct_witness:
  "\<exists>s'. clone_containers (Container 2) (Container 1) sample_arcs = Inr s' \<and> dropped s' = [''one'']"
proof -
  have "snd (the (cells sample_arcs 1)) = ''one''" "dropped sample_arcs = []"
    by (simp_all add: sample_arcs_def)
  with clone_containers_correct [OF sample_arcs_counted, of 2 1] show ?thesis
    by (auto simp: MAX_REFCOUNT_def)
qed

text \<open>
  \<open>method_lookup_algorithm\<close> reads the first entry through both pointers and leaves nothing
  behind: its only effect on the heap is that the array was dropped.
\<close>

theorem method_lookup_leaves_nothing:
  assumes "cells s a = None"
  shows "method_lookup_algorithm a s = Inr (0, s\<lparr>dropped := dropped s @ [[0, 0, 0]]\<rparr>)"
proof -
  have "(cells s)(a := None) = cells s" using assms by auto
  then show ?thesis
    by (simp add: method_lookup_algorithm_def rc_new_def rc_index_def arc_drop_def numeral_3_eq_3)
qed

lemma method_lookup_leaves_nothing_witness:
  "method_lookup_algorithm 7 \<lparr>cells = Map.empty, dropped = []\<rparr> =
     Inr (0, \<lparr>cells = Map.empty, dropped = [[0, 0, 0]]\<rparr>)"
  using method_lookup_leaves_nothing [of "\<lparr>cells = Map.empty, dropped = []\<rparr>" 7] by simp

end
