(* ===== verification/Borrows.thy ===== *)
theory Borrows
  imports Prelude
begin

text \<open>
  The borrow of \<^verbatim>\<open>ownership/lifetime/src/lib.rs\<close>: \<open>lifetime\<close> keeps a reference into a vector in
  a struct with a destructor, and pushes to the vector. The statements such functions are made
  of, their execution on a vector whose buffer moves when it grows, and the check the compiler
  makes, by which a push is refused while a reference is still used later (a destructor is a
  use). The check is shown sound: what it accepts never reads through a dangling reference.
\<close>

section \<open>Statements and their execution\<close>

text \<open>
  \<open>let x = X(&data[i])\<close>, \<open>println!("{:?}", x)\<close>, the end of \<open>x\<close>'s scope, which runs its
  destructor, and \<open>data.push(v)\<close>.
\<close>

datatype borrow_stmt = Borrow nat nat | Show nat | DropX nat | Push i32

text \<open>
  \<open>buffer\<close> counts the buffers the vector has had: a reference is the buffer and the index it was
  taken in. The printed values are kept without the text around them.
\<close>

record bstate =
  buffer :: nat
  capacity :: nat
  data :: "i32 list"
  refs :: "nat \<Rightarrow> (nat \<times> nat) option"
  shown :: "i32 list"

text \<open>\<open>Vec::push\<close>: a full vector moves to a buffer of twice the size, at least four elements.\<close>

definition vec_push :: "i32 \<Rightarrow> bstate \<Rightarrow> bstate" where
  "vec_push v s =
     (let s' = (if length (data s) = capacity s
                then s\<lparr>buffer := Suc (buffer s), capacity := max 4 (2 * capacity s)\<rparr> else s)
      in s'\<lparr>data := data s @ [v]\<rparr>)"

text \<open>\<open>impl Drop for X<'_>\<close> has an empty body: it does not look at the referent.\<close>

definition X_drop :: "nat \<Rightarrow> bstate \<Rightarrow> bstate" where
  "X_drop x s = s\<lparr>refs := (refs s)(x := None)\<rparr>"

fun borrow_exec :: "borrow_stmt \<Rightarrow> bstate \<Rightarrow> bstate outcome" where
  "borrow_exec (Borrow x i) s =
     (if i < length (data s) then Inr (s\<lparr>refs := (refs s)(x \<mapsto> (buffer s, i))\<rparr>)
      else Inl (Panic ''index out of bounds''))"
| "borrow_exec (Show x) s =
     (case refs s x of
        None \<Rightarrow> Inl (UB ''use of a variable that is not initialised'')
      | Some (b, i) \<Rightarrow>
          if b = buffer s then Inr (s\<lparr>shown := shown s @ [data s ! i]\<rparr>)
          else Inl (UB ''dangling reference''))"
| "borrow_exec (DropX x) s =
     (case refs s x of
        None \<Rightarrow> Inl (UB ''use of a variable that is not initialised'')
      | Some r \<Rightarrow> Inr (X_drop x s))"
| "borrow_exec (Push v) s = Inr (vec_push v s)"

text \<open>A vector with room for \<open>cap\<close> elements; \<open>vec![..]\<close> makes one that is full.\<close>

definition vec_with :: "nat \<Rightarrow> i32 list \<Rightarrow> bstate" where
  "vec_with cap xs = \<lparr>buffer = 0, capacity = cap, data = xs, refs = Map.empty, shown = []\<rparr>"

definition vec_of :: "i32 list \<Rightarrow> bstate" where
  "vec_of xs = vec_with (length xs) xs"

section \<open>The borrow check\<close>

text \<open>The references that are used later, from the end of the function backwards.\<close>

fun live_refs :: "borrow_stmt list \<Rightarrow> nat set" where
  "live_refs [] = {}"
| "live_refs (Borrow x i # p) = live_refs p - {x}"
| "live_refs (Show x # p) = insert x (live_refs p)"
| "live_refs (DropX x # p) = insert x (live_refs p)"
| "live_refs (Push v # p) = live_refs p"

fun borrow_ok :: "borrow_stmt list \<Rightarrow> bool" where
  "borrow_ok [] = True"
| "borrow_ok (Borrow x i # p) = borrow_ok p"
| "borrow_ok (Show x # p) = borrow_ok p"
| "borrow_ok (DropX x # p) = (x \<notin> live_refs p \<and> borrow_ok p)"
| "borrow_ok (Push v # p) = (live_refs p = {} \<and> borrow_ok p)"

text \<open>A whole function: it starts with no reference.\<close>

definition accepted :: "borrow_stmt list \<Rightarrow> bool" where
  "accepted p \<longleftrightarrow> borrow_ok p \<and> live_refs p = {}"

section \<open>The programs\<close>

text \<open>\<open>lifetime\<close>: the inner block ends before the push.\<close>

definition lifetime_vec :: "i32 list" where
  "lifetime_vec = [1, 2, 3]"

definition lifetime :: "borrow_stmt list" where
  "lifetime = [Borrow 0 0, Show 0, DropX 0, Push 4]"

text \<open>
  The function of the comment inside it, whose \<open>x\<close> lives to the end; and the two examples of
  the comment above it with a plain reference, which has no destructor.
\<close>

definition lifetime_commented :: "borrow_stmt list" where
  "lifetime_commented = [Borrow 0 0, Show 0, Push 4, DropX 0]"

definition alias_rejected :: "borrow_stmt list" where
  "alias_rejected = [Borrow 0 0, Push 4, Show 0]"

definition alias_accepted :: "borrow_stmt list" where
  "alias_accepted = [Borrow 0 0, Show 0, Push 4]"

section \<open>Soundness of the check\<close>

text \<open>A set of references is valid when each points into the current buffer.\<close>

definition refs_valid :: "nat set \<Rightarrow> bstate \<Rightarrow> bool" where
  "refs_valid R s \<longleftrightarrow> (\<forall>x \<in> R. \<exists>i. refs s x = Some (buffer s, i) \<and> i < length (data s))"

lemma refs_validD:
  "refs_valid R s \<Longrightarrow> x \<in> R \<Longrightarrow> \<exists>i. refs s x = Some (buffer s, i) \<and> i < length (data s)"
  by (simp add: refs_valid_def)

lemma borrow_step_sound:
  assumes "refs_valid (live_refs (p # ps)) s" and "borrow_ok (p # ps)"
  shows "(\<exists>s'. borrow_exec p s = Inr s' \<and> refs_valid (live_refs ps) s') \<or>
    (\<exists>m. borrow_exec p s = Inl (Panic m))"
proof (cases p)
  case (Borrow x i)
  with assms show ?thesis by (auto simp: refs_valid_def)
next
  case (Show x)
  with refs_validD [OF assms(1), of x] assms(1) show ?thesis by (auto simp: refs_valid_def)
next
  case (DropX x)
  with refs_validD [OF assms(1), of x] assms show ?thesis
    by (auto simp: refs_valid_def X_drop_def)
next
  case (Push v)
  with assms show ?thesis by (simp add: refs_valid_def)
qed

lemma borrow_ok_sound:
  "refs_valid (live_refs p) s \<Longrightarrow> borrow_ok p \<Longrightarrow> ofold borrow_exec p s \<noteq> Inl (UB u)"
proof (induction p arbitrary: s)
  case Nil
  then show ?case by simp
next
  case (Cons q p)
  have "borrow_ok p" using Cons.prems(2) by (cases q) simp_all
  with borrow_step_sound [OF Cons.prems] Cons.IH show ?case by auto
qed

section \<open>Exactness of the check\<close>

text \<open>
  Functions without destructors. Of these the check rejects only what goes wrong on some
  vector: one in which the capacity is used up exactly at the offending push.
\<close>

fun no_drop :: "borrow_stmt list \<Rightarrow> bool" where
  "no_drop [] = True"
| "no_drop (DropX x # p) = False"
| "no_drop (q # p) = no_drop p"

fun pushes :: "borrow_stmt list \<Rightarrow> nat" where
  "pushes [] = 0"
| "pushes (Push v # p) = Suc (pushes p)"
| "pushes (q # p) = pushes p"

fun index_bound :: "borrow_stmt list \<Rightarrow> nat" where
  "index_bound [] = 0"
| "index_bound (Borrow x i # p) = max (Suc i) (index_bound p)"
| "index_bound (q # p) = index_bound p"

lemma no_drop_append: "no_drop (p @ q) \<longleftrightarrow> no_drop p \<and> no_drop q"
  by (induction p rule: no_drop.induct) auto

lemma index_bound_append: "index_bound (p @ q) = max (index_bound p) (index_bound q)"
  by (induction p rule: index_bound.induct) auto

lemma rejected_push:
  "\<not> borrow_ok p \<Longrightarrow> no_drop p \<Longrightarrow> \<exists>p1 v p2. p = p1 @ Push v # p2 \<and> live_refs p2 \<noteq> {}"
proof (induction p)
  case Nil
  then show ?case by simp
next
  case (Cons q p)
  show ?case
  proof (cases "borrow_ok p")
    case True
    with Cons.prems obtain v where "q = Push v" "live_refs p \<noteq> {}" by (cases q) auto
    then show ?thesis by (metis append_Nil)
  next
    case False
    moreover have "no_drop p" using Cons.prems(2) by (cases q) simp_all
    ultimately show ?thesis using Cons.IH by (metis append_Cons)
  qed
qed

text \<open>While the vector does not grow, all references stay in its buffer.\<close>

lemma run_with_room:
  "no_drop p \<Longrightarrow> index_bound p \<le> length (data s) \<Longrightarrow> length (data s) + pushes p \<le> capacity s \<Longrightarrow>
     (\<And>x b i. refs s x = Some (b, i) \<Longrightarrow> b = buffer s) \<Longrightarrow>
     (\<And>x. x \<in> live_refs (p @ q) \<Longrightarrow> refs s x \<noteq> None) \<Longrightarrow>
     \<exists>s'. ofold borrow_exec p s = Inr s' \<and> buffer s' = buffer s \<and> capacity s' = capacity s \<and>
       length (data s') = length (data s) + pushes p \<and>
       (\<forall>x b i. refs s' x = Some (b, i) \<longrightarrow> b = buffer s) \<and>
       (\<forall>x \<in> live_refs q. refs s' x \<noteq> None)"
proof (induction p arbitrary: s)
  case Nil
  then show ?case by auto
next
  case (Cons r p)
  show ?case
  proof (cases r)
    case (Borrow x i)
    let ?t = "s\<lparr>refs := (refs s)(x \<mapsto> (buffer s, i))\<rparr>"
    have "\<exists>s'. ofold borrow_exec p ?t = Inr s' \<and> buffer s' = buffer ?t \<and> capacity s' = capacity ?t \<and>
        length (data s') = length (data ?t) + pushes p \<and>
        (\<forall>x b i. refs s' x = Some (b, i) \<longrightarrow> b = buffer ?t) \<and> (\<forall>x \<in> live_refs q. refs s' x \<noteq> None)"
      by (rule Cons.IH) (use Cons.prems Borrow in \<open>auto split: if_splits\<close>)
    with Cons.prems(2) show ?thesis by (simp add: Borrow)
  next
    case (Show x)
    then obtain i where r: "refs s x = Some (buffer s, i)" using Cons.prems(4,5) by force
    let ?t = "s\<lparr>shown := shown s @ [data s ! i]\<rparr>"
    have "\<exists>s'. ofold borrow_exec p ?t = Inr s' \<and> buffer s' = buffer ?t \<and> capacity s' = capacity ?t \<and>
        length (data s') = length (data ?t) + pushes p \<and>
        (\<forall>x b i. refs s' x = Some (b, i) \<longrightarrow> b = buffer ?t) \<and> (\<forall>x \<in> live_refs q. refs s' x \<noteq> None)"
      by (rule Cons.IH) (use Cons.prems Show in auto)
    with r show ?thesis by (simp add: Show)
  next
    case (DropX x)
    with Cons.prems(1) show ?thesis by simp
  next
    case (Push v)
    let ?t = "s\<lparr>data := data s @ [v]\<rparr>"
    have "length (data s) \<noteq> capacity s" using Cons.prems(3) by (simp add: Push)
    then have e: "vec_push v s = ?t" by (simp add: vec_push_def)
    have "\<exists>s'. ofold borrow_exec p ?t = Inr s' \<and> buffer s' = buffer ?t \<and> capacity s' = capacity ?t \<and>
        length (data s') = length (data ?t) + pushes p \<and>
        (\<forall>x b i. refs s' x = Some (b, i) \<longrightarrow> b = buffer ?t) \<and> (\<forall>x \<in> live_refs q. refs s' x \<noteq> None)"
      by (rule Cons.IH) (use Cons.prems Push in auto)
    with e show ?thesis by (simp add: Push)
  qed
qed

text \<open>A reference into an older buffer that is used later is read sooner or later.\<close>

lemma stale_dangles:
  "no_drop p \<Longrightarrow> index_bound p \<le> length (data s) \<Longrightarrow> x \<in> live_refs p \<Longrightarrow>
     refs s x = Some (b, i) \<Longrightarrow> b < buffer s \<Longrightarrow> (\<And>y. y \<in> live_refs p \<Longrightarrow> refs s y \<noteq> None) \<Longrightarrow>
     ofold borrow_exec p s = Inl (UB ''dangling reference'')"
proof (induction p arbitrary: s)
  case Nil
  then show ?case by simp
next
  case (Cons r p)
  show ?case
  proof (cases r)
    case (Borrow y j)
    have "ofold borrow_exec p (s\<lparr>refs := (refs s)(y \<mapsto> (buffer s, j))\<rparr>) = Inl (UB ''dangling reference'')"
      by (rule Cons.IH) (use Cons.prems Borrow in auto)
    with Cons.prems(2) show ?thesis by (simp add: Borrow)
  next
    case (Show y)
    obtain d j where y: "refs s y = Some (d, j)" using Cons.prems(6) [of y] Show by auto
    show ?thesis
    proof (cases "d = buffer s")
      case True
      then have "x \<noteq> y" using Cons.prems(4,5) y by auto
      then have "ofold borrow_exec p (s\<lparr>shown := shown s @ [data s ! j]\<rparr>) =
          Inl (UB ''dangling reference'')"
        by (intro Cons.IH) (use Cons.prems Show in auto)
      with y True show ?thesis by (simp add: Show)
    next
      case False
      with y show ?thesis by (simp add: Show)
    qed
  next
    case (DropX y)
    with Cons.prems(1) show ?thesis by simp
  next
    case (Push v)
    have "ofold borrow_exec p (vec_push v s) = Inl (UB ''dangling reference'')"
      by (rule Cons.IH) (use Cons.prems Push in \<open>auto simp: vec_push_def Let_def\<close>)
    then show ?thesis by (simp add: Push)
  qed
qed

lemma rejected_dangles:
  assumes "\<not> borrow_ok p" and nd: "no_drop p" and live: "live_refs p = {}"
  shows "\<exists>xs cap. length xs \<le> cap \<and>
    ofold borrow_exec p (vec_with cap xs) = Inl (UB ''dangling reference'')"
proof -
  obtain p1 v p2 where p: "p = p1 @ Push v # p2" and l2: "live_refs p2 \<noteq> {}"
    using rejected_push [OF assms(1) nd] by blast
  let ?xs = "replicate (index_bound p) (0 :: i32)"
  let ?s = "vec_with (length ?xs + pushes p1) ?xs"
  from nd have nd': "no_drop p1" "no_drop p2" by (simp_all add: p no_drop_append)
  have bd: "index_bound p1 \<le> length ?xs" "index_bound p2 \<le> length ?xs"
    by (simp_all add: p index_bound_append)
  have "\<exists>s'. ofold borrow_exec p1 ?s = Inr s' \<and> buffer s' = buffer ?s \<and> capacity s' = capacity ?s \<and>
      length (data s') = length (data ?s) + pushes p1 \<and>
      (\<forall>x b i. refs s' x = Some (b, i) \<longrightarrow> b = buffer ?s) \<and>
      (\<forall>x \<in> live_refs (Push v # p2). refs s' x \<noteq> None)"
    by (rule run_with_room) (use nd' bd live p in \<open>simp_all add: vec_with_def\<close>)
  then obtain s' where s': "ofold borrow_exec p1 ?s = Inr s'" "buffer s' = 0"
      "capacity s' = length (data s')" "length ?xs \<le> length (data s')"
      "\<forall>x b i. refs s' x = Some (b, i) \<longrightarrow> b = 0" "\<forall>x \<in> live_refs p2. refs s' x \<noteq> None"
    by (auto simp: vec_with_def)
  obtain x b i where x: "x \<in> live_refs p2" "refs s' x = Some (b, i)" using l2 s'(6) by fastforce
  have "b = 0" using s'(5) x(2) by blast
  have "ofold borrow_exec p2 (vec_push v s') = Inl (UB ''dangling reference'')"
    by (rule stale_dangles [OF nd'(2) _ x(1)])
      (use s' x(2) bd(2) \<open>b = 0\<close> in \<open>auto simp: vec_push_def\<close>)
  with s'(1) have "ofold borrow_exec p ?s = Inl (UB ''dangling reference'')"
    by (simp add: p ofold_append)
  then show ?thesis by (intro exI [of _ ?xs] exI conjI) auto
qed

section \<open>Properties\<close>

text \<open>
  C10: The borrow check is sound. A function it accepts, run on any vector, never reads through a
  reference into a buffer the vector has left, nor through one that is not initialised: it
  completes, or an index panics.
\<close>

theorem accepted_never_dangles:
  assumes "accepted p"
  shows "(\<exists>s. ofold borrow_exec p (vec_with cap xs) = Inr s) \<or>
    (\<exists>m. ofold borrow_exec p (vec_with cap xs) = Inl (Panic m))"
proof (cases "ofold borrow_exec p (vec_with cap xs)")
  case (Inl e)
  have "refs_valid (live_refs p) (vec_with cap xs)" "borrow_ok p"
    using assms by (simp_all add: accepted_def refs_valid_def)
  from borrow_ok_sound [OF this] Inl show ?thesis by (cases e) auto
next
  case (Inr s)
  then show ?thesis by simp
qed

lemma accepted_never_dangles_witness:
  "\<not> (\<exists>u. ofold borrow_exec lifetime (vec_of lifetime_vec) = Inl (UB u))"
proof -
  have "accepted lifetime" by (simp add: accepted_def lifetime_def)
  from accepted_never_dangles [OF this, of "length lifetime_vec" lifetime_vec] show ?thesis
    by (auto simp: vec_of_def)
qed

text \<open>
  The function in the file and those of its comments. \<open>lifetime\<close> is accepted, shows the first
  element and appends to the vector, which moves. The function whose reference is used after
  the push is rejected, and would read a freed buffer. The one whose reference only has its
  destructor run after the push is rejected as well, though its run, with the empty body of
  \<open>Drop for X\<close>, would do no harm; without a destructor it is accepted.
\<close>

theorem lifetime_programs:
  "accepted lifetime \<and>
   (\<exists>s. ofold borrow_exec lifetime (vec_of lifetime_vec) = Inr s \<and>
      data s = [1, 2, 3, 4] \<and> shown s = [1] \<and> buffer s = 1 \<and> refs s 0 = None) \<and>
   \<not> accepted alias_rejected \<and>
   ofold borrow_exec alias_rejected (vec_of lifetime_vec) = Inl (UB ''dangling reference'') \<and>
   \<not> accepted lifetime_commented \<and>
   (\<exists>s. ofold borrow_exec lifetime_commented (vec_of lifetime_vec) = Inr s) \<and>
   accepted alias_accepted"
  by (simp add: accepted_def lifetime_def alias_rejected_def lifetime_commented_def
      alias_accepted_def vec_of_def vec_with_def lifetime_vec_def vec_push_def X_drop_def Let_def)

text \<open>
  C28: For functions without destructors the check is exact: it refuses only what reads a freed
  buffer on some vector, so no weaker check would do.
\<close>

theorem accepted_iff_never_dangles:
  assumes "no_drop p" and "live_refs p = {}"
  shows "accepted p \<longleftrightarrow>
    (\<forall>xs cap u. length xs \<le> cap \<longrightarrow> ofold borrow_exec p (vec_with cap xs) \<noteq> Inl (UB u))"
proof
  assume a: "accepted p"
  have "refs_valid (live_refs p) (vec_with cap xs)" for cap xs
    using assms(2) by (simp add: refs_valid_def)
  with borrow_ok_sound a
  show "\<forall>xs cap u. length xs \<le> cap \<longrightarrow> ofold borrow_exec p (vec_with cap xs) \<noteq> Inl (UB u)"
    by (simp add: accepted_def)
next
  assume "\<forall>xs cap u. length xs \<le> cap \<longrightarrow> ofold borrow_exec p (vec_with cap xs) \<noteq> Inl (UB u)"
  with rejected_dangles assms show "accepted p" unfolding accepted_def by blast
qed

lemma accepted_iff_never_dangles_witness:
  "\<not> accepted alias_rejected \<and>
   (\<exists>xs cap u. length xs \<le> cap \<and> ofold borrow_exec alias_rejected (vec_with cap xs) = Inl (UB u))"
proof -
  have "no_drop alias_rejected" "live_refs alias_rejected = {}" and "\<not> accepted alias_rejected"
    by (simp_all add: alias_rejected_def accepted_def)
  with accepted_iff_never_dangles [of alias_rejected] show ?thesis by blast
qed

end
