(* ===== verification/ScopedThreads.thy ===== *)
theory ScopedThreads
  imports Decimal "HOL-Library.Multiset"
begin

text \<open>
  The test \<open>send_sync\<close> of \<^verbatim>\<open>EffectiveRust/types/src/i5_standard_traits.rs\<close>: three scoped threads
  that read a string, and one that changes another, with the changes the test makes after each
  scope. The threads and the test itself take their statements in any order; leaving a scope
  waits for its threads.
\<close>

section \<open>The program\<close>

text \<open>
  \<open>println!("{} {}", greeting_ref, n)\<close>, \<open>println!("{}", greeting)\<close>, \<open>greeting += w\<close>,
  \<open>s.spawn(..)\<close>, the end of \<open>thread::scope\<close>, and the second \<open>let mut greeting\<close>.
\<close>

datatype scope_stmt = PrintCount nat | PrintGreeting | Append string
  | SpawnT "scope_stmt list" | JoinAll | NewGreeting string

definition reader_closure :: "nat \<Rightarrow> scope_stmt list" where
  "reader_closure n = [PrintCount n]"

definition writer_closure :: "scope_stmt list" where
  "writer_closure = [Append '' world'', PrintGreeting]"

definition first_scope :: "scope_stmt list" where
  "first_scope = map (\<lambda>n. SpawnT (reader_closure n)) [0..<3] @ [JoinAll]"

definition after_first :: "scope_stmt list" where
  "after_first = [Append '' world'', PrintGreeting]"

definition second_scope :: "scope_stmt list" where
  "second_scope = [NewGreeting ''Hello'', SpawnT writer_closure, JoinAll]"

definition after_second :: "scope_stmt list" where
  "after_second = [Append ''!!!'', PrintGreeting]"

definition send_sync :: "scope_stmt list" where
  "send_sync = first_scope @ after_first @ second_scope @ after_second"

text \<open>What the test has still to do, the threads of the open scope, the string and the printed lines.\<close>

record scope_state =
  todo :: "scope_stmt list"
  pool :: "scope_stmt list list"
  greeting :: string
  lines_out :: "string list"

definition scope_init :: scope_state where
  "scope_init = \<lparr>todo = send_sync, pool = [], greeting = ''Hello'', lines_out = []\<rparr>"

section \<open>Steps\<close>

text \<open>One statement; \<open>None\<close> when it has to wait.\<close>

fun scope_exec :: "scope_stmt \<Rightarrow> scope_state \<Rightarrow> scope_state option" where
  "scope_exec (PrintCount n) s = Some (s\<lparr>lines_out := lines_out s @ [greeting s @ '' '' @ show_nat n]\<rparr>)"
| "scope_exec PrintGreeting s = Some (s\<lparr>lines_out := lines_out s @ [greeting s]\<rparr>)"
| "scope_exec (Append w) s = Some (s\<lparr>greeting := greeting s @ w\<rparr>)"
| "scope_exec (SpawnT body) s = Some (s\<lparr>pool := pool s @ [body]\<rparr>)"
| "scope_exec JoinAll s = (if \<forall>b \<in> set (pool s). b = [] then Some (s\<lparr>pool := []\<rparr>) else None)"
| "scope_exec (NewGreeting w) s = Some (s\<lparr>greeting := w\<rparr>)"

inductive scope_step :: "scope_state \<Rightarrow> scope_state \<Rightarrow> bool" where
  test_step: "todo s = p # ps \<Longrightarrow> scope_exec p (s\<lparr>todo := ps\<rparr>) = Some t \<Longrightarrow> scope_step s t"
| thread_step: "k < length (pool s) \<Longrightarrow> pool s ! k = p # ps \<Longrightarrow>
    scope_exec p (s\<lparr>pool := (pool s)[k := ps]\<rparr>) = Some t \<Longrightarrow> scope_step s t"

text \<open>
  A data race: two of the running parties have the string as their next access, and one of
  them writes it.
\<close>

fun reads_greeting :: "scope_stmt \<Rightarrow> bool" where
  "reads_greeting (PrintCount n) = True"
| "reads_greeting PrintGreeting = True"
| "reads_greeting (Append w) = True"
| "reads_greeting p = False"

fun writes_greeting :: "scope_stmt \<Rightarrow> bool" where
  "writes_greeting (Append w) = True"
| "writes_greeting (NewGreeting w) = True"
| "writes_greeting p = False"

definition conflict :: "scope_stmt list \<Rightarrow> scope_stmt list \<Rightarrow> bool" where
  "conflict xs ys \<longleftrightarrow>
     (case (xs, ys) of
        (p # _, q # _) \<Rightarrow>
          writes_greeting p \<and> (reads_greeting q \<or> writes_greeting q) \<or>
          writes_greeting q \<and> (reads_greeting p \<or> writes_greeting p)
      | _ \<Rightarrow> False)"

definition racy :: "scope_state \<Rightarrow> bool" where
  "racy s \<longleftrightarrow>
     (\<exists>k < length (pool s). conflict (todo s) (pool s ! k)) \<or>
     (\<exists>j < length (pool s). \<exists>k < length (pool s). j \<noteq> k \<and> conflict (pool s ! j) (pool s ! k))"

section \<open>The phases of a run\<close>

definition hello_line :: "nat \<Rightarrow> string" where
  "hello_line n = ''Hello '' @ show_nat n"

definition three_lines :: "string list \<Rightarrow> bool" where
  "three_lines os \<longleftrightarrow> mset os = mset (map hello_line [0..<3])"

text \<open>In the first scope \<open>j\<close> threads are spawned, those in \<open>D\<close> have printed.\<close>

definition readers :: "nat \<Rightarrow> nat set \<Rightarrow> scope_stmt list list" where
  "readers j D = map (\<lambda>i. if i \<in> D then [] else reader_closure i) [0..<j]"

inductive phase :: "scope_state \<Rightarrow> bool" where
  reading: "j \<le> 3 \<Longrightarrow> D \<subseteq> {0..<j} \<Longrightarrow> mset os = image_mset hello_line (mset_set D) \<Longrightarrow>
    phase \<lparr>todo = drop j first_scope @ after_first @ second_scope @ after_second,
           pool = readers j D, greeting = ''Hello'', lines_out = os\<rparr>"
| joined: "three_lines os \<Longrightarrow>
    phase \<lparr>todo = after_first @ second_scope @ after_second, pool = [], greeting = ''Hello'', lines_out = os\<rparr>"
| appended: "three_lines os \<Longrightarrow>
    phase \<lparr>todo = PrintGreeting # second_scope @ after_second, pool = [],
           greeting = ''Hello world'', lines_out = os\<rparr>"
| printed: "three_lines os \<Longrightarrow>
    phase \<lparr>todo = second_scope @ after_second, pool = [], greeting = ''Hello world'',
           lines_out = os @ [''Hello world'']\<rparr>"
| renewed: "three_lines os \<Longrightarrow>
    phase \<lparr>todo = [SpawnT writer_closure, JoinAll] @ after_second, pool = [], greeting = ''Hello'',
           lines_out = os @ [''Hello world'']\<rparr>"
| writing: "three_lines os \<Longrightarrow>
    phase \<lparr>todo = JoinAll # after_second, pool = [writer_closure], greeting = ''Hello'',
           lines_out = os @ [''Hello world'']\<rparr>"
| written: "three_lines os \<Longrightarrow>
    phase \<lparr>todo = JoinAll # after_second, pool = [[PrintGreeting]], greeting = ''Hello world'',
           lines_out = os @ [''Hello world'']\<rparr>"
| reported: "three_lines os \<Longrightarrow>
    phase \<lparr>todo = JoinAll # after_second, pool = [[]], greeting = ''Hello world'',
           lines_out = os @ [''Hello world'', ''Hello world'']\<rparr>"
| rejoined: "three_lines os \<Longrightarrow>
    phase \<lparr>todo = after_second, pool = [], greeting = ''Hello world'',
           lines_out = os @ [''Hello world'', ''Hello world'']\<rparr>"
| extended: "three_lines os \<Longrightarrow>
    phase \<lparr>todo = [PrintGreeting], pool = [], greeting = ''Hello world!!!'',
           lines_out = os @ [''Hello world'', ''Hello world'']\<rparr>"
| finished: "three_lines os \<Longrightarrow>
    phase \<lparr>todo = [], pool = [], greeting = ''Hello world!!!'',
           lines_out = os @ [''Hello world'', ''Hello world'', ''Hello world!!!'']\<rparr>"

lemma length_readers [simp]: "length (readers j D) = j"
  by (simp add: readers_def)

lemma nth_readers: "i < j \<Longrightarrow> readers j D ! i = (if i \<in> D then [] else reader_closure i)"
  by (simp add: readers_def)

lemma drop_first_scope:
  "j < 3 \<Longrightarrow> drop j first_scope = SpawnT (reader_closure j) # drop (Suc j) first_scope"
  "drop 3 first_scope = [JoinAll]"
proof -
  have e: "first_scope = [SpawnT (reader_closure 0), SpawnT (reader_closure 1), SpawnT (reader_closure 2), JoinAll]"
    by (simp add: first_scope_def upt_rec numeral_2_eq_2)
  show "drop 3 first_scope = [JoinAll]" by (simp add: e)
  assume "j < 3"
  then consider "j = 0" | "j = 1" | "j = 2" by linarith
  then show "drop j first_scope = SpawnT (reader_closure j) # drop (Suc j) first_scope"
    by cases (simp_all add: e)
qed

lemma readers_spawn: "D \<subseteq> {0..<j} \<Longrightarrow> readers j D @ [reader_closure j] = readers (Suc j) D"
  by (auto simp: readers_def)

lemma readers_done: "k < j \<Longrightarrow> (readers j D)[k := []] = readers j (insert k D)"
  by (rule nth_equalityI) (auto simp: nth_list_update nth_readers)

lemma phase_start: "phase scope_init"
  using reading [of 0 "{}" "[]"] by (simp add: scope_init_def send_sync_def readers_def)

lemma phase_reading_step:
  assumes j: "j \<le> 3" and D: "D \<subseteq> {0..<j}" and os: "mset os = image_mset hello_line (mset_set D)"
    and st: "scope_step \<lparr>todo = drop j first_scope @ after_first @ second_scope @ after_second,
           pool = readers j D, greeting = ''Hello'', lines_out = os\<rparr> t"
  shows "phase t"
  using st
proof (cases rule: scope_step.cases)
  case (test_step p ps)
  show ?thesis
  proof (cases "j = 3")
    case True
    with test_step have t: "\<forall>b \<in> set (readers 3 D). b = []"
        "t = \<lparr>todo = after_first @ second_scope @ after_second, pool = [], greeting = ''Hello'', lines_out = os\<rparr>"
      by (auto simp: drop_first_scope(2) split: if_splits)
    have "D = {0..<3}"
    proof (rule antisym)
      show "{0..<3} \<subseteq> D"
      proof
        fix i :: nat
        assume "i \<in> {0..<3}"
        then have "readers 3 D ! i \<in> set (readers 3 D)" by (intro nth_mem) simp
        with t(1) have "readers 3 D ! i = []" by blast
        with \<open>i \<in> {0..<3}\<close> show "i \<in> D" by (simp add: nth_readers reader_closure_def split: if_splits)
      qed
    qed (use D True in simp)
    with os have "three_lines os" by (simp add: three_lines_def mset_set_upto_eq_mset_upto)
    then show ?thesis unfolding t(2) by (rule joined)
  next
    case False
    with j have "j < 3" by simp
    with test_step have "t = \<lparr>todo = drop (Suc j) first_scope @ after_first @ second_scope @ after_second,
        pool = readers (Suc j) D, greeting = ''Hello'', lines_out = os\<rparr>"
      by (auto simp: drop_first_scope(1) readers_spawn [OF D])
    then show ?thesis using \<open>j < 3\<close> D os by (auto intro!: reading)
  qed
next
  case (thread_step k p ps)
  then have k: "k < j" "k \<notin> D" by (auto simp: nth_readers split: if_splits)
  with thread_step have "t = \<lparr>todo = drop j first_scope @ after_first @ second_scope @ after_second,
      pool = readers j (insert k D), greeting = ''Hello'', lines_out = os @ [hello_line k]\<rparr>"
    by (auto simp: nth_readers reader_closure_def readers_done hello_line_def)
  moreover have "finite D" using D finite_subset by blast
  ultimately show ?thesis using j D k os by (auto intro!: reading)
qed

lemmas scope_programs = after_first_def second_scope_def after_second_def writer_closure_def

lemma phase_step:
  assumes "phase s" and st: "scope_step s t"
  shows "phase t"
  using assms(1)
proof (cases rule: phase.cases)
  case (reading j D os)
  with st show ?thesis by (intro phase_reading_step [of j D os]) simp_all
next
  case (joined os)
  with st have "t = \<lparr>todo = PrintGreeting # second_scope @ after_second, pool = [],
      greeting = ''Hello world'', lines_out = os\<rparr>"
    by (auto simp: after_first_def elim!: scope_step.cases)
  then show ?thesis using joined(2) by (simp add: appended)
next
  case (appended os)
  with st have "t = \<lparr>todo = second_scope @ after_second, pool = [], greeting = ''Hello world'',
      lines_out = os @ [''Hello world'']\<rparr>"
    by (auto elim!: scope_step.cases)
  then show ?thesis using appended(2) by (simp add: printed)
next
  case (printed os)
  with st have "t = \<lparr>todo = [SpawnT writer_closure, JoinAll] @ after_second, pool = [],
      greeting = ''Hello'', lines_out = os @ [''Hello world'']\<rparr>"
    by (auto simp: second_scope_def elim!: scope_step.cases)
  then show ?thesis using renewed [OF printed(2)] by (simp add: printed)
next
  case (renewed os)
  with st have "t = \<lparr>todo = JoinAll # after_second, pool = [writer_closure], greeting = ''Hello'',
      lines_out = os @ [''Hello world'']\<rparr>"
    by (auto elim!: scope_step.cases)
  then show ?thesis using writing [OF renewed(2)] by simp
next
  case (writing os)
  with st have "t = \<lparr>todo = JoinAll # after_second, pool = [[PrintGreeting]], greeting = ''Hello world'',
      lines_out = os @ [''Hello world'']\<rparr>"
    by (auto simp: writer_closure_def elim!: scope_step.cases)
  then show ?thesis using written [OF writing(2)] by simp
next
  case (written os)
  with st have "t = \<lparr>todo = JoinAll # after_second, pool = [[]], greeting = ''Hello world'',
      lines_out = os @ [''Hello world'', ''Hello world'']\<rparr>"
    by (auto elim!: scope_step.cases)
  then show ?thesis using reported [OF written(2)] by simp
next
  case (reported os)
  with st have "t = \<lparr>todo = after_second, pool = [], greeting = ''Hello world'',
      lines_out = os @ [''Hello world'', ''Hello world'']\<rparr>"
    by (auto elim!: scope_step.cases)
  then show ?thesis using rejoined [OF reported(2)] by simp
next
  case (rejoined os)
  with st have "t = \<lparr>todo = [PrintGreeting], pool = [], greeting = ''Hello world!!!'',
      lines_out = os @ [''Hello world'', ''Hello world'']\<rparr>"
    by (auto simp: after_second_def elim!: scope_step.cases)
  then show ?thesis using extended [OF rejoined(2)] by simp
next
  case (extended os)
  with st have "t = \<lparr>todo = [], pool = [], greeting = ''Hello world!!!'',
      lines_out = os @ [''Hello world'', ''Hello world'', ''Hello world!!!'']\<rparr>"
    by (auto elim!: scope_step.cases)
  then show ?thesis using finished [OF extended(2)] by simp
next
  case (finished os)
  with st show ?thesis by (auto elim!: scope_step.cases)
qed

section \<open>Progress and the length of runs\<close>

lemma test_progress:
  assumes "todo s = p # ps" and "p \<noteq> JoinAll"
  shows "\<exists>t. scope_step s t"
proof -
  have "\<exists>t. scope_exec p (s\<lparr>todo := ps\<rparr>) = Some t" using assms(2) by (cases p) simp_all
  with assms(1) show ?thesis by (blast intro: test_step)
qed

lemma reading_progress:
  assumes "j \<le> 3" and "D \<subseteq> {0..<j}"
  shows "\<exists>t. scope_step \<lparr>todo = drop j first_scope @ rest, pool = readers j D, greeting = g, lines_out = os\<rparr> t"
    (is "\<exists>t. scope_step ?s t")
proof (cases "j = 3")
  case False
  with assms have "j < 3" by simp
  from drop_first_scope(1) [OF this]
  have "todo ?s = SpawnT (reader_closure j) # drop (Suc j) first_scope @ rest" by simp
  then show ?thesis by (rule test_progress) simp
next
  case j: True
  show ?thesis
  proof (cases "\<exists>k < 3. k \<notin> D")
    case True
    then obtain k where "k < 3" "k \<notin> D" by blast
    with j have "k < length (pool ?s)" "pool ?s ! k = PrintCount k # []"
      by (simp_all add: nth_readers reader_closure_def)
    then show ?thesis by (blast intro: thread_step scope_exec.simps(1))
  next
    case False
    then have "\<forall>b \<in> set (readers 3 D). b = []" by (auto simp: readers_def)
    with j have "scope_exec JoinAll (?s\<lparr>todo := rest\<rparr>) = Some (?s\<lparr>todo := rest, pool := []\<rparr>)" by simp
    moreover have "todo ?s = JoinAll # rest" by (simp add: j drop_first_scope(2))
    ultimately show ?thesis by (blast intro: test_step)
  qed
qed

lemma phase_progress:
  assumes "phase s"
  shows "(\<exists>t. scope_step s t) \<or>
    (\<exists>os. three_lines os \<and> todo s = [] \<and> pool s = [] \<and>
       lines_out s = os @ [''Hello world'', ''Hello world'', ''Hello world!!!''])"
  using assms
proof (cases rule: phase.cases)
  case (reading j D os)
  then show ?thesis using reading_progress by auto
next
  case (writing os)
  then have "scope_exec (Append '' world'') (s\<lparr>pool := [[PrintGreeting]]\<rparr>) =
      Some (s\<lparr>pool := [[PrintGreeting]], greeting := ''Hello world''\<rparr>)" by simp
  with thread_step [of 0 s "Append '' world''" "[PrintGreeting]"] writing
  show ?thesis by (auto simp: writer_closure_def)
next
  case (written os)
  then have "scope_exec PrintGreeting (s\<lparr>pool := [[]]\<rparr>) =
      Some (s\<lparr>pool := [[]], lines_out := lines_out s @ [''Hello world'']\<rparr>)" by simp
  with thread_step [of 0 s PrintGreeting "[]"] written show ?thesis by auto
next
  case (reported os)
  then have "scope_exec JoinAll (s\<lparr>todo := after_second\<rparr>) = Some (s\<lparr>todo := after_second, pool := []\<rparr>)"
    by simp
  with test_step [of s JoinAll after_second] reported show ?thesis by auto
qed (use test_progress in \<open>force simp: scope_programs\<close>)+

fun scope_weight :: "scope_stmt \<Rightarrow> nat" where
  "scope_weight (SpawnT body) = Suc (length body)"
| "scope_weight p = 1"

definition scope_work :: "scope_state \<Rightarrow> nat" where
  "scope_work s = sum_list (map scope_weight (todo s)) + sum_list (map length (pool s))"

lemma sum_list_nil: "\<forall>b \<in> set xs. b = [] \<Longrightarrow> sum_list (map length xs) = 0"
  by (induction xs) auto

text \<open>Threads only print and append; they spawn nothing.\<close>

definition flat_pool :: "scope_state \<Rightarrow> bool" where
  "flat_pool s \<longleftrightarrow> (\<forall>b \<in> set (pool s). \<forall>p \<in> set b. scope_weight p = 1 \<and> p \<noteq> JoinAll)"

lemma phase_flat_pool: "phase s \<Longrightarrow> flat_pool s"
  by (cases rule: phase.cases)
    (auto simp: flat_pool_def readers_def reader_closure_def writer_closure_def split: if_splits)

lemma sum_list_update_length:
  "k < length xs \<Longrightarrow> xs ! k = p # ps \<Longrightarrow>
     sum_list (map length xs) = Suc (sum_list (map length (xs[k := ps])))"
  by (induction xs arbitrary: k) (auto split: nat.splits simp: nth_Cons')

lemma scope_work_step:
  assumes "phase s" and "scope_step s t"
  shows "scope_work s = Suc (scope_work t)"
  using assms(2)
proof (cases rule: scope_step.cases)
  case (test_step p ps)
  then show ?thesis
    by (cases p) (auto simp: scope_work_def sum_list_nil split: if_splits)
next
  case (thread_step k p ps)
  have "p \<in> set (pool s ! k)" "pool s ! k \<in> set (pool s)"
    using nth_mem [OF thread_step(1)] by (simp_all add: thread_step(2))
  with phase_flat_pool [OF assms(1)] have "scope_weight p = 1" "p \<noteq> JoinAll"
    unfolding flat_pool_def by blast+
  with thread_step sum_list_update_length [OF thread_step(1,2)] show ?thesis
    by (cases p) (auto simp: scope_work_def)
qed

interpretation scoped: step_measure scope_init scope_step phase scope_work
proof unfold_locales
  show "phase scope_init" by (rule phase_start)
  show "phase t" if "phase s" "scope_step s t" for s t using that by (rule phase_step)
  show "scope_work t < scope_work s" if "phase s" "scope_step s t" for s t
    using scope_work_step [OF that] by simp
qed

lemma scope_work_init: "scope_work scope_init = 16"
  by (simp add: scope_work_def scope_init_def send_sync_def first_scope_def scope_programs
      reader_closure_def upt_rec)

lemma run_to_end: "phase s \<Longrightarrow> scope_work s = m \<Longrightarrow> \<exists>t. (scope_step ^^ m) s t \<and> (\<nexists>u. scope_step t u)"
proof (induction m arbitrary: s)
  case 0
  then have "\<nexists>u. scope_step s u" using scope_work_step by fastforce
  then show ?case by auto
next
  case (Suc m)
  have "\<exists>t. scope_step s t"
    using phase_progress [OF Suc.prems(1)] Suc.prems(2) by (auto simp: scope_work_def)
  then obtain t where t: "scope_step s t" by blast
  from Suc.IH [OF phase_step [OF Suc.prems(1) t]] scope_work_step [OF Suc.prems(1) t] Suc.prems(2)
  obtain u where "(scope_step ^^ m) t u" "\<nexists>v. scope_step u v" by auto
  with t show ?case by (blast intro: relpowp_Suc_I2)
qed

lemma hello_lines: "map hello_line [0..<3] = [''Hello 0'', ''Hello 1'', ''Hello 2'']"
  by code_simp

section \<open>Properties\<close>

text \<open>
  C18: Every execution of \<open>send_sync\<close> ends, after at most 16 statements, and whatever the order in
  which the threads ran: a state from which nothing can step has printed the three lines of
  the readers in some order, then the string extended by the test, by the writing thread and
  by the test again.
\<close>

theorem send_sync_outcome:
  assumes "(scope_step ^^ n) scope_init s"
  shows "n \<le> 16 \<and>
    ((\<exists>t. scope_step s t) \<or>
       todo s = [] \<and> pool s = [] \<and>
       (\<exists>os. mset os = mset [''Hello 0'', ''Hello 1'', ''Hello 2''] \<and>
          lines_out s = os @ [''Hello world'', ''Hello world'', ''Hello world!!!'']))"
proof -
  have "phase s"
    using scoped.inv_steps [OF phase_start relpowp_imp_rtranclp [OF assms]] .
  moreover have "n \<le> 16" using scoped.reach_run_bounded [OF assms] by (simp add: scope_work_init)
  ultimately show ?thesis
    using phase_progress hello_lines unfolding three_lines_def by metis
qed

lemma send_sync_outcome_witness:
  "\<exists>s. (scope_step ^^ 16) scope_init s \<and> todo s = [] \<and>
     (\<exists>os. mset os = mset [''Hello 0'', ''Hello 1'', ''Hello 2''] \<and>
        lines_out s = os @ [''Hello world'', ''Hello world'', ''Hello world!!!''])"
  using run_to_end [OF phase_start scope_work_init] send_sync_outcome [of 16] by blast

text \<open>
  C24: No data race: in every reachable state no two of the test and its threads are both about to
  access the string with one of them writing it.
\<close>

theorem send_sync_race_free:
  assumes "reach scope_init scope_step s"
  shows "\<not> racy s"
  using scoped.inv_reach [OF assms]
proof (cases rule: phase.cases)
  case (reading j D os)
  have "\<not> conflict (pool s ! a) (pool s ! b)" if "a < j" "b < j" for a b
    using that reading by (simp add: nth_readers conflict_def reader_closure_def split: list.splits)
  moreover have "\<not> conflict (todo s) (pool s ! b)" if "b < j" for b
  proof -
    have "j < 3 \<or> j = 3" using reading(2) by linarith
    then have "\<exists>p ps. todo s = p # ps \<and> \<not> reads_greeting p \<and> \<not> writes_greeting p"
      using reading drop_first_scope(1) [of j] drop_first_scope(2) by (elim disjE) auto
    then show ?thesis
      using that reading by (auto simp: nth_readers conflict_def reader_closure_def split: list.splits)
  qed
  ultimately show ?thesis using reading by (simp add: racy_def)
qed (simp_all add: racy_def conflict_def split: list.splits)

lemma send_sync_race_free_witness:
  "\<not> racy scope_init"
  by (rule send_sync_race_free) (rule reach_start)

end
