(* ===== verification/Bindings.thy ===== *)
theory Bindings
  imports Layout Decimal
begin

text \<open>
  What bindgen wrote to \<^verbatim>\<open>data_layout/src/binding.rs\<close> besides the structs (theory \<open>Layout\<close>): the
  constants with the types it chose for them, and the type aliases. The aliases of
  \<^verbatim>\<open>std::os::raw\<close> are those of a 64-bit Unix.
\<close>

section \<open>Constants\<close>

datatype bconst = C_u32 u32 | C_i32 i32 | C_u64 u64 | C_i64 "64 word" | C_bytes nat string

fun const_value :: "bconst \<Rightarrow> int option" where
  "const_value (C_u32 w) = Some (uint w)"
| "const_value (C_i32 w) = Some (sint w)"
| "const_value (C_u64 w) = Some (uint w)"
| "const_value (C_i64 w) = Some (sint w)"
| "const_value (C_bytes n bs) = None"

text \<open>The cast \<open>as u64\<close>, which extends the sign of a signed constant.\<close>

fun const_as_u64 :: "bconst \<Rightarrow> u64 option" where
  "const_as_u64 (C_u32 w) = Some (ucast w)"
| "const_as_u64 (C_i32 w) = Some (scast w)"
| "const_as_u64 (C_u64 w) = Some w"
| "const_as_u64 (C_i64 w) = Some w"
| "const_as_u64 (C_bytes n bs) = None"

text \<open>A byte string constant has the declared length and ends in its only NUL.\<close>

fun bytes_ok :: "bconst \<Rightarrow> bool" where
  "bytes_ok (C_bytes n bs) = (length bs = n \<and> last bs = CHR 0x00 \<and> CHR 0x00 \<notin> set (butlast bs))"
| "bytes_ok c = True"

definition feature_consts :: "(string \<times> bconst) list" where
  "feature_consts =
    [(''true_'', C_u32 1), (''false_'', C_u32 0), (''__bool_true_false_are_defined'', C_u32 1),
     (''__WORDSIZE'', C_u32 64), (''__DARWIN_ONLY_64_BIT_INO_T'', C_u32 0),
     (''__DARWIN_ONLY_UNIX_CONFORMANCE'', C_u32 1), (''__DARWIN_ONLY_VERS_1050'', C_u32 0),
     (''__DARWIN_UNIX03'', C_u32 1), (''__DARWIN_64_BIT_INO_T'', C_u32 1),
     (''__DARWIN_VERS_1050'', C_u32 1), (''__DARWIN_NON_CANCELABLE'', C_u32 0),
     (''__DARWIN_SUF_64_BIT_INO_T'', C_bytes 9 (''$INODE64'' @ [CHR 0x00])),
     (''__DARWIN_SUF_1050'', C_bytes 6 (''$1050'' @ [CHR 0x00])),
     (''__DARWIN_SUF_EXTSN'', C_bytes 14 (''$DARWIN_EXTSN'' @ [CHR 0x00])),
     (''__DARWIN_C_ANSI'', C_u32 4096), (''__DARWIN_C_FULL'', C_u32 900000),
     (''__DARWIN_C_LEVEL'', C_u32 900000), (''__STDC_WANT_LIB_EXT1__'', C_u32 1),
     (''__DARWIN_NO_LONG_LONG'', C_u32 0), (''_DARWIN_FEATURE_64_BIT_INODE'', C_u32 1),
     (''_DARWIN_FEATURE_ONLY_UNIX_CONFORMANCE'', C_u32 1),
     (''_DARWIN_FEATURE_UNIX_CONFORMANCE'', C_u32 3), (''__has_ptrcheck'', C_u32 0)]"

definition pthread_consts :: "(string \<times> bconst) list" where
  "pthread_consts =
    [(''__PTHREAD_SIZE__'', C_u32 8176), (''__PTHREAD_ATTR_SIZE__'', C_u32 56),
     (''__PTHREAD_MUTEXATTR_SIZE__'', C_u32 8), (''__PTHREAD_MUTEX_SIZE__'', C_u32 56),
     (''__PTHREAD_CONDATTR_SIZE__'', C_u32 8), (''__PTHREAD_COND_SIZE__'', C_u32 40),
     (''__PTHREAD_ONCE_SIZE__'', C_u32 8), (''__PTHREAD_RWLOCK_SIZE__'', C_u32 192),
     (''__PTHREAD_RWLOCKATTR_SIZE__'', C_u32 16)]"

definition limit_consts :: "(string \<times> bconst) list" where
  "limit_consts =
    [(''INT8_MAX'', C_u32 127), (''INT16_MAX'', C_u32 32767), (''INT32_MAX'', C_u32 2147483647),
     (''INT64_MAX'', C_u64 9223372036854775807), (''INT8_MIN'', C_i32 (- 128)),
     (''INT16_MIN'', C_i32 (- 32768)), (''INT32_MIN'', C_i32 (- 2147483648)),
     (''INT64_MIN'', C_i64 (- 9223372036854775808)), (''UINT8_MAX'', C_u32 255),
     (''UINT16_MAX'', C_u32 65535), (''UINT32_MAX'', C_u32 4294967295),
     (''UINT64_MAX'', C_i32 (- 1)), (''INT_LEAST8_MIN'', C_i32 (- 128)),
     (''INT_LEAST16_MIN'', C_i32 (- 32768)), (''INT_LEAST32_MIN'', C_i32 (- 2147483648)),
     (''INT_LEAST64_MIN'', C_i64 (- 9223372036854775808)), (''INT_LEAST8_MAX'', C_u32 127),
     (''INT_LEAST16_MAX'', C_u32 32767), (''INT_LEAST32_MAX'', C_u32 2147483647),
     (''INT_LEAST64_MAX'', C_u64 9223372036854775807), (''UINT_LEAST8_MAX'', C_u32 255),
     (''UINT_LEAST16_MAX'', C_u32 65535), (''UINT_LEAST32_MAX'', C_u32 4294967295),
     (''UINT_LEAST64_MAX'', C_i32 (- 1)), (''INT_FAST8_MIN'', C_i32 (- 128)),
     (''INT_FAST16_MIN'', C_i32 (- 32768)), (''INT_FAST32_MIN'', C_i32 (- 2147483648)),
     (''INT_FAST64_MIN'', C_i64 (- 9223372036854775808)), (''INT_FAST8_MAX'', C_u32 127),
     (''INT_FAST16_MAX'', C_u32 32767), (''INT_FAST32_MAX'', C_u32 2147483647),
     (''INT_FAST64_MAX'', C_u64 9223372036854775807), (''UINT_FAST8_MAX'', C_u32 255),
     (''UINT_FAST16_MAX'', C_u32 65535), (''UINT_FAST32_MAX'', C_u32 4294967295),
     (''UINT_FAST64_MAX'', C_i32 (- 1)), (''INTPTR_MAX'', C_u64 9223372036854775807),
     (''INTPTR_MIN'', C_i64 (- 9223372036854775808)), (''UINTPTR_MAX'', C_i32 (- 1)),
     (''SIZE_MAX'', C_i32 (- 1)), (''RSIZE_MAX'', C_i32 (- 1)),
     (''WINT_MIN'', C_i32 (- 2147483648)), (''WINT_MAX'', C_u32 2147483647),
     (''SIG_ATOMIC_MIN'', C_i32 (- 2147483648)), (''SIG_ATOMIC_MAX'', C_u32 2147483647)]"

definition binding_consts :: "(string \<times> bconst) list" where
  "binding_consts = feature_consts @ pthread_consts @ limit_consts"

definition const_of :: "string \<Rightarrow> int option" where
  "const_of x = Option.bind (map_of binding_consts x) const_value"

section \<open>Type aliases\<close>

text \<open>\<open>Num s n\<close> is an integer of \<open>n\<close> bits, signed or not.\<close>

datatype bty = Num bool nat | Named string | ArrayB bty nat | PtrB bty

abbreviation i8_t :: bty where "i8_t \<equiv> Num True 8"
abbreviation i16_t :: bty where "i16_t \<equiv> Num True 16"
abbreviation i32_t :: bty where "i32_t \<equiv> Num True 32"
abbreviation i64_t :: bty where "i64_t \<equiv> Num True 64"
abbreviation u8_t :: bty where "u8_t \<equiv> Num False 8"
abbreviation u16_t :: bty where "u16_t \<equiv> Num False 16"
abbreviation u32_t :: bty where "u32_t \<equiv> Num False 32"
abbreviation u64_t :: bty where "u64_t \<equiv> Num False 64"

definition stdint_types :: "(string \<times> bty) list" where
  "stdint_types =
    [(''int_least8_t'', i8_t), (''int_least16_t'', i16_t), (''int_least32_t'', i32_t),
     (''int_least64_t'', i64_t), (''uint_least8_t'', u8_t), (''uint_least16_t'', u16_t),
     (''uint_least32_t'', u32_t), (''uint_least64_t'', u64_t), (''int_fast8_t'', i8_t),
     (''int_fast16_t'', i16_t), (''int_fast32_t'', i32_t), (''int_fast64_t'', i64_t),
     (''uint_fast8_t'', u8_t), (''uint_fast16_t'', u16_t), (''uint_fast32_t'', u32_t),
     (''uint_fast64_t'', u64_t)]"

definition darwin_types :: "(string \<times> bty) list" where
  "darwin_types =
    [(''__int8_t'', i8_t), (''__uint8_t'', u8_t), (''__int16_t'', i16_t),
     (''__uint16_t'', u16_t), (''__int32_t'', i32_t), (''__uint32_t'', u32_t),
     (''__int64_t'', i64_t), (''__uint64_t'', u64_t), (''__darwin_intptr_t'', i64_t),
     (''__darwin_natural_t'', u32_t), (''__darwin_ct_rune_t'', i32_t),
     (''__darwin_mbstate_t'', Named ''__mbstate_t''), (''__darwin_ptrdiff_t'', i64_t),
     (''__darwin_size_t'', u64_t), (''__darwin_va_list'', Named ''__builtin_va_list''),
     (''__darwin_wchar_t'', i32_t), (''__darwin_rune_t'', Named ''__darwin_wchar_t''),
     (''__darwin_wint_t'', i32_t), (''__darwin_clock_t'', u64_t),
     (''__darwin_socklen_t'', Named ''__uint32_t''), (''__darwin_ssize_t'', i64_t),
     (''__darwin_time_t'', i64_t), (''__darwin_blkcnt_t'', Named ''__int64_t''),
     (''__darwin_blksize_t'', Named ''__int32_t''), (''__darwin_dev_t'', Named ''__int32_t''),
     (''__darwin_fsblkcnt_t'', u32_t), (''__darwin_fsfilcnt_t'', u32_t),
     (''__darwin_gid_t'', Named ''__uint32_t''), (''__darwin_id_t'', Named ''__uint32_t''),
     (''__darwin_ino64_t'', Named ''__uint64_t''),
     (''__darwin_ino_t'', Named ''__darwin_ino64_t''),
     (''__darwin_mach_port_name_t'', Named ''__darwin_natural_t''),
     (''__darwin_mach_port_t'', Named ''__darwin_mach_port_name_t''),
     (''__darwin_mode_t'', Named ''__uint16_t''), (''__darwin_off_t'', Named ''__int64_t''),
     (''__darwin_pid_t'', Named ''__int32_t''), (''__darwin_sigset_t'', Named ''__uint32_t''),
     (''__darwin_suseconds_t'', Named ''__int32_t''),
     (''__darwin_uid_t'', Named ''__uint32_t''),
     (''__darwin_useconds_t'', Named ''__uint32_t''), (''__darwin_uuid_t'', ArrayB u8_t 16),
     (''__darwin_uuid_string_t'', ArrayB i8_t 37)]"

definition pthread_types :: "(string \<times> bty) list" where
  "pthread_types =
    [(''__darwin_pthread_attr_t'', Named ''_opaque_pthread_attr_t''),
     (''__darwin_pthread_cond_t'', Named ''_opaque_pthread_cond_t''),
     (''__darwin_pthread_condattr_t'', Named ''_opaque_pthread_condattr_t''),
     (''__darwin_pthread_key_t'', u64_t),
     (''__darwin_pthread_mutex_t'', Named ''_opaque_pthread_mutex_t''),
     (''__darwin_pthread_mutexattr_t'', Named ''_opaque_pthread_mutexattr_t''),
     (''__darwin_pthread_once_t'', Named ''_opaque_pthread_once_t''),
     (''__darwin_pthread_rwlock_t'', Named ''_opaque_pthread_rwlock_t''),
     (''__darwin_pthread_rwlockattr_t'', Named ''_opaque_pthread_rwlockattr_t''),
     (''__darwin_pthread_t'', PtrB (Named ''_opaque_pthread_t''))]"

definition sys_types :: "(string \<times> bty) list" where
  "sys_types =
    [(''u_int8_t'', u8_t), (''u_int16_t'', u16_t), (''u_int32_t'', u32_t),
     (''u_int64_t'', u64_t), (''register_t'', i64_t), (''user_addr_t'', Named ''u_int64_t''),
     (''user_size_t'', Named ''u_int64_t''), (''user_ssize_t'', i64_t),
     (''user_long_t'', i64_t), (''user_ulong_t'', Named ''u_int64_t''),
     (''user_time_t'', i64_t), (''user_off_t'', i64_t),
     (''syscall_arg_t'', Named ''u_int64_t''), (''intmax_t'', i64_t), (''uintmax_t'', u64_t)]"

definition node_types :: "(string \<times> bty) list" where
  "node_types =
    [(''S1'', Named ''node1''), (''S2'', Named ''node2''), (''S3'', Named ''node3''),
     (''S4'', Named ''node4''), (''S5'', Named ''node5''), (''S6'', Named ''node6''),
     (''S7'', Named ''node7''), (''S8'', Named ''node8''),
     (''__builtin_va_list'', ArrayB (Named ''__va_list_tag'') 1)]"

definition binding_types :: "(string \<times> bty) list" where
  "binding_types = stdint_types @ darwin_types @ pthread_types @ sys_types @ node_types"

text \<open>The structs and unions by name, with their layouts.\<close>

definition binding_structs :: "(string \<times> lty) list" where
  "binding_structs =
    [(''__mbstate_t'', mbstate_t), (''__darwin_pthread_handler_rec'', pthread_handler_rec),
     (''_opaque_pthread_attr_t'', opaque_pthread 56), (''_opaque_pthread_cond_t'', opaque_pthread 40),
     (''_opaque_pthread_condattr_t'', opaque_pthread 8), (''_opaque_pthread_mutex_t'', opaque_pthread 56),
     (''_opaque_pthread_mutexattr_t'', opaque_pthread 8), (''_opaque_pthread_once_t'', opaque_pthread 8),
     (''_opaque_pthread_rwlock_t'', opaque_pthread 192),
     (''_opaque_pthread_rwlockattr_t'', opaque_pthread 16), (''_opaque_pthread_t'', opaque_pthread_t),
     (''node1'', node1), (''node2'', node2), (''node3'', node3), (''node4'', node4), (''node5'', node5),
     (''node6'', node6), (''node7'', node7), (''node8'', node8), (''__va_list_tag'', va_list_tag)]"

text \<open>
  Following the aliases; the fuel bounds the length of a chain, so that a cycle would give
  \<open>None\<close>.
\<close>

fun resolve_bty :: "nat \<Rightarrow> bty \<Rightarrow> lty option" where
  "resolve_bty 0 t = None"
| "resolve_bty (Suc k) (Num s n) = Some (Scalar (n div 8) 0)"
| "resolve_bty (Suc k) (ArrayB t m) = map_option (\<lambda>l. Array l m) (resolve_bty k t)"
| "resolve_bty (Suc k) (PtrB t) = Some lrawptr"
| "resolve_bty (Suc k) (Named x) =
     (case map_of binding_structs x of
        Some l \<Rightarrow> Some l
      | None \<Rightarrow> (case map_of binding_types x of None \<Rightarrow> None | Some t \<Rightarrow> resolve_bty k t))"

definition alias_size :: "string \<Rightarrow> nat option" where
  "alias_size x = map_option size_of (resolve_bty 5 (Named x))"

text \<open>Whether a type resolves does not depend on the layouts, only on the names.\<close>

definition struct_names :: "string list" where
  "struct_names = map fst binding_structs"

fun resolves :: "nat \<Rightarrow> bty \<Rightarrow> bool" where
  "resolves 0 t = False"
| "resolves (Suc k) (Num s n) = True"
| "resolves (Suc k) (ArrayB t m) = resolves k t"
| "resolves (Suc k) (PtrB t) = True"
| "resolves (Suc k) (Named x) =
     (x \<in> set struct_names \<or>
      (case map_of binding_types x of None \<Rightarrow> False | Some t \<Rightarrow> resolves k t))"

lemma struct_names_eq [code]:
  "struct_names =
    [''__mbstate_t'', ''__darwin_pthread_handler_rec'', ''_opaque_pthread_attr_t'',
     ''_opaque_pthread_cond_t'', ''_opaque_pthread_condattr_t'', ''_opaque_pthread_mutex_t'',
     ''_opaque_pthread_mutexattr_t'', ''_opaque_pthread_once_t'',
     ''_opaque_pthread_rwlock_t'', ''_opaque_pthread_rwlockattr_t'', ''_opaque_pthread_t'',
     ''node1'', ''node2'', ''node3'', ''node4'', ''node5'', ''node6'', ''node7'', ''node8'',
     ''__va_list_tag'']"
  by (simp add: struct_names_def binding_structs_def)

lemma binding_structs_None: "map_of binding_structs x = None \<longleftrightarrow> x \<notin> set struct_names"
  by (simp add: struct_names_def map_of_eq_None_iff)

lemma resolves_iff: "resolve_bty k t \<noteq> None \<longleftrightarrow> resolves k t"
proof (induction k t rule: resolves.induct)
  case (5 k x)
  show ?case
  proof (cases "map_of binding_structs x")
    case None
    then have "x \<notin> set struct_names" using binding_structs_None by blast
    with 5 None show ?thesis by (cases "map_of binding_types x") simp_all
  next
    case (Some l)
    then have "x \<in> set struct_names" using binding_structs_None [of x] by (metis option.distinct(1))
    with Some show ?thesis by simp
  qed
qed auto

text \<open>More fuel does not change an answer.\<close>

lemma resolve_bty_more: "resolve_bty k t = Some l \<Longrightarrow> k \<le> n \<Longrightarrow> resolve_bty n t = Some l"
proof (induction k t arbitrary: l n rule: resolve_bty.induct)
  case (1 t)
  then show ?case by simp
next
  case (2 k s m)
  then show ?case by (cases n) simp_all
next
  case (3 k t m)
  from 3(2,3) obtain n' l' where n: "n = Suc n'" "k \<le> n'" "l = Array l' m"
    and t: "resolve_bty k t = Some l'"
    by (cases n) (auto simp del: resolve_bty.simps(1,2,4,5))
  from 3(1) [OF t n(2)] n(1,3) show ?case by simp
next
  case (4 k t)
  then show ?case by (cases n) simp_all
next
  case (5 k x)
  from 5(3) obtain n' where n: "n = Suc n'" "k \<le> n'" by (cases n) simp_all
  show ?case
  proof (cases "map_of binding_structs x")
    case None
    with 5(2) obtain t where t: "map_of binding_types x = Some t" "resolve_bty k t = Some l"
      by (cases "map_of binding_types x") simp_all
    from 5(1) [OF None t n(2)] show ?thesis by (simp add: n(1) None t(1))
  next
    case (Some l')
    with 5(2) show ?thesis by (simp add: n(1))
  qed
qed

text \<open>The constants of one family, by name and width.\<close>

lemma show_widths: "show_nat 8 = ''8''" "show_nat 16 = ''16''" "show_nat 32 = ''32''" "show_nat 64 = ''64''"
  by code_simp+

lemmas const_tables = const_of_def binding_consts_def feature_consts_def pthread_consts_def limit_consts_def

lemma signed_limits:
  "list_all (\<lambda>p. list_all (\<lambda>w.
       const_of (p @ show_nat w @ ''_MAX'') = Some (2 ^ (w - 1) - 1) \<and>
       const_of (p @ show_nat w @ ''_MIN'') = Some (- (2 ^ (w - 1)))) [8, 16, 32, 64])
     [''INT'', ''INT_LEAST'', ''INT_FAST'']"
  by (simp add: show_widths const_tables)

lemma unsigned_limits:
  "list_all (\<lambda>p. list_all (\<lambda>w. const_of (p @ show_nat w @ ''_MAX'') = Some (2 ^ w - 1)) [8, 16, 32])
     [''UINT'', ''UINT_LEAST'', ''UINT_FAST'']"
  by (simp add: show_widths const_tables)

lemma wide_limits:
  "list_all (\<lambda>x. const_of x = Some (- 1) \<and>
       Option.bind (map_of binding_consts x) const_as_u64 = Some (2 ^ 64 - 1))
     [''UINT64_MAX'', ''UINT_LEAST64_MAX'', ''UINT_FAST64_MAX'', ''UINTPTR_MAX'', ''SIZE_MAX'', ''RSIZE_MAX'']"
  by (simp add: const_tables)

lemma exact_widths:
  "list_all (\<lambda>w.
       map_of binding_types (''int_least'' @ show_nat w @ ''_t'') = Some (Num True w) \<and>
       map_of binding_types (''int_fast'' @ show_nat w @ ''_t'') = Some (Num True w) \<and>
       map_of binding_types (''__int'' @ show_nat w @ ''_t'') = Some (Num True w) \<and>
       map_of binding_types (''uint_least'' @ show_nat w @ ''_t'') = Some (Num False w) \<and>
       map_of binding_types (''uint_fast'' @ show_nat w @ ''_t'') = Some (Num False w) \<and>
       map_of binding_types (''__uint'' @ show_nat w @ ''_t'') = Some (Num False w) \<and>
       map_of binding_types (''u_int'' @ show_nat w @ ''_t'') = Some (Num False w)) [8, 16, 32, 64]"
  by (simp add: show_widths binding_types_def stdint_types_def darwin_types_def pthread_types_def
      sys_types_def)

lemma pthread_sizes:
  "list_all (\<lambda>(x, c). map_of binding_structs x = map_option (\<lambda>n. opaque_pthread (nat n)) (const_of c))
     [(''_opaque_pthread_attr_t'', ''__PTHREAD_ATTR_SIZE__''),
      (''_opaque_pthread_mutexattr_t'', ''__PTHREAD_MUTEXATTR_SIZE__''),
      (''_opaque_pthread_mutex_t'', ''__PTHREAD_MUTEX_SIZE__''),
      (''_opaque_pthread_condattr_t'', ''__PTHREAD_CONDATTR_SIZE__''),
      (''_opaque_pthread_cond_t'', ''__PTHREAD_COND_SIZE__''),
      (''_opaque_pthread_once_t'', ''__PTHREAD_ONCE_SIZE__''),
      (''_opaque_pthread_rwlock_t'', ''__PTHREAD_RWLOCK_SIZE__''),
      (''_opaque_pthread_rwlockattr_t'', ''__PTHREAD_RWLOCKATTR_SIZE__'')]"
  by (simp add: binding_structs_def const_tables)

section \<open>Properties\<close>

text \<open>
  The limits. The signed ones, and the unsigned ones below 64 bits, are the ones their names
  say; the unsigned 64-bit ones and \<open>SIZE_MAX\<close>, however, are given the type \<open>i32\<close> and the value
  -1: they are the greatest \<open>u64\<close> only after a cast that extends the sign. The byte strings have
  their declared lengths and one NUL, at the end.
\<close>

theorem limits_correct:
  "list_all (\<lambda>p. list_all (\<lambda>w.
       const_of (p @ show_nat w @ ''_MAX'') = Some (2 ^ (w - 1) - 1) \<and>
       const_of (p @ show_nat w @ ''_MIN'') = Some (- (2 ^ (w - 1)))) [8, 16, 32, 64])
     [''INT'', ''INT_LEAST'', ''INT_FAST''] \<and>
   list_all (\<lambda>p. list_all (\<lambda>w. const_of (p @ show_nat w @ ''_MAX'') = Some (2 ^ w - 1)) [8, 16, 32])
     [''UINT'', ''UINT_LEAST'', ''UINT_FAST''] \<and>
   list_all (\<lambda>x. const_of x = Some (- 1) \<and>
       Option.bind (map_of binding_consts x) const_as_u64 = Some (2 ^ 64 - 1))
     [''UINT64_MAX'', ''UINT_LEAST64_MAX'', ''UINT_FAST64_MAX'', ''UINTPTR_MAX'', ''SIZE_MAX'', ''RSIZE_MAX''] \<and>
   list_all (bytes_ok \<circ> snd) binding_consts"
proof (intro conjI signed_limits unsigned_limits wide_limits)
  show "list_all (bytes_ok \<circ> snd) binding_consts"
    by (simp add: const_tables)
qed

text \<open>
  The aliases are well-formed: no name is declared twice, every alias leads without a cycle to
  a type with a layout, in at most four steps; the exact, least and fast integer types are
  exactly of the width and the signedness their names say; and the opaque arrays of the thread
  types have the sizes the constants announce.
\<close>

theorem aliases_resolve:
  "distinct (map fst binding_types) \<and>
   list_all (\<lambda>(x, t). resolve_bty 4 t \<noteq> None) binding_types \<and>
   list_all (\<lambda>w.
       map_of binding_types (''int_least'' @ show_nat w @ ''_t'') = Some (Num True w) \<and>
       map_of binding_types (''int_fast'' @ show_nat w @ ''_t'') = Some (Num True w) \<and>
       map_of binding_types (''__int'' @ show_nat w @ ''_t'') = Some (Num True w) \<and>
       map_of binding_types (''uint_least'' @ show_nat w @ ''_t'') = Some (Num False w) \<and>
       map_of binding_types (''uint_fast'' @ show_nat w @ ''_t'') = Some (Num False w) \<and>
       map_of binding_types (''__uint'' @ show_nat w @ ''_t'') = Some (Num False w) \<and>
       map_of binding_types (''u_int'' @ show_nat w @ ''_t'') = Some (Num False w)) [8, 16, 32, 64] \<and>
   list_all (\<lambda>(x, c). map_of binding_structs x = map_option (\<lambda>n. opaque_pthread (nat n)) (const_of c))
     [(''_opaque_pthread_attr_t'', ''__PTHREAD_ATTR_SIZE__''),
      (''_opaque_pthread_mutexattr_t'', ''__PTHREAD_MUTEXATTR_SIZE__''),
      (''_opaque_pthread_mutex_t'', ''__PTHREAD_MUTEX_SIZE__''),
      (''_opaque_pthread_condattr_t'', ''__PTHREAD_CONDATTR_SIZE__''),
      (''_opaque_pthread_cond_t'', ''__PTHREAD_COND_SIZE__''),
      (''_opaque_pthread_once_t'', ''__PTHREAD_ONCE_SIZE__''),
      (''_opaque_pthread_rwlock_t'', ''__PTHREAD_RWLOCK_SIZE__''),
      (''_opaque_pthread_rwlockattr_t'', ''__PTHREAD_RWLOCKATTR_SIZE__'')]"
proof (intro conjI exact_widths pthread_sizes)
  show "distinct (map fst binding_types)" by code_simp
  show "list_all (\<lambda>(x, t). resolve_bty 4 t \<noteq> None) binding_types"
    unfolding resolves_iff by code_simp
qed

end
