(* ===== verification/StackEstimate.thy ===== *)
theory StackEstimate
  imports Prelude
begin

text \<open>
  \<^verbatim>\<open>Sundry/Stack/estimate-thread-stack-size/src/main.rs\<close>: a recursion without end, which keeps
  the address of its parameter in the first two calls to print how much stack a call takes.
  The stack of the thread and the size of a frame are arguments; what ends the recursion is
  the guard page below the stack. \<open>offset_from\<close> is modelled twice: as documented, where two
  pointers to different variables make it undefined, and as the subtraction of addresses that
  the machine code performs.
\<close>

section \<open>Frames and pointers\<close>

text \<open>A frame holds the locals, the saved frame pointer and the return address.\<close>

record thread_stack =
  stack_hi :: nat
  stack_lo :: nat
  locals :: nat

definition frame_size :: "thread_stack \<Rightarrow> nat" where
  "frame_size k = locals k + 16"

text \<open>Where \<open>x\<close> of the call at depth \<open>d\<close> lies, if the frame fits.\<close>

definition x_address :: "thread_stack \<Rightarrow> nat \<Rightarrow> nat option" where
  "x_address k d =
     (if stack_lo k + d * frame_size k \<le> stack_hi k then Some (stack_hi k - d * frame_size k) else None)"

text \<open>A pointer is the variable it was taken from (numbered by depth) and an address.\<close>

datatype x_pointer = Dangling | XPtr nat nat

text \<open>\<open>pa.offset_from(pb)\<close>, in elements of eight bytes.\<close>

fun offset_from :: "bool \<Rightarrow> x_pointer \<Rightarrow> x_pointer \<Rightarrow> int outcome" where
  "offset_from documented (XPtr v a) (XPtr w b) =
     (if documented \<and> v \<noteq> w then Inl (UB ''offset_from between different objects'')
      else Inr ((int a - int b) div 8))"
| "offset_from documented p q = Inl (UB ''offset_from of a dangling pointer'')"

section \<open>The program\<close>

datatype est_line = Iteration u64 | AddressAt nat nat | MemoryPerCall int

datatype est_end = Overflow | Faulted fault

record est_state =
  pa :: x_pointer
  pb :: x_pointer
  est_out :: "est_line list"

definition est_init :: est_state where
  "est_init = \<lparr>pa = Dangling, pb = Dangling, est_out = []\<rparr>"

text \<open>The body of \<open>foo\<close> before the recursive call, in the frame at depth \<open>d\<close>.\<close>

definition foo_body :: "bool \<Rightarrow> nat \<Rightarrow> nat \<Rightarrow> u64 \<Rightarrow> est_state \<Rightarrow> est_state outcome" where
  "foo_body documented d a x s =
     (let s = s\<lparr>est_out := est_out s @ [Iteration x]\<rparr> in
      if x = 0 then Inr (s\<lparr>pa := XPtr d a, est_out := est_out s @ [AddressAt 0 a]\<rparr>)
      else if x = 1 then
        (let s = s\<lparr>pb := XPtr d a, est_out := est_out s @ [AddressAt 1 a]\<rparr> in
         obind (offset_from documented (pa s) (pb s)) (\<lambda>space.
           Inr (s\<lparr>est_out := est_out s @ [MemoryPerCall (space * 8)]\<rparr>)))
      else Inr s)"

function foo :: "thread_stack \<Rightarrow> bool \<Rightarrow> nat \<Rightarrow> u64 \<Rightarrow> est_state \<Rightarrow> est_state \<times> est_end" where
  "foo k documented d x s =
     (case x_address k d of
        None \<Rightarrow> (s, Overflow)
      | Some a \<Rightarrow>
          (case foo_body documented d a x s of
             Inl e \<Rightarrow> (s, Faulted e)
           | Inr s' \<Rightarrow>
               (case checked_add x 1 of
                  Inl e \<Rightarrow> (s', Faulted e)
                | Inr y \<Rightarrow> foo k documented (Suc d) y s')))"
  by pat_completeness auto

termination
proof (relation "measure (\<lambda>(k, documented, d, x, s). Suc (stack_hi k) - (stack_lo k + d * frame_size k))")
  fix k :: thread_stack and documented d x s a s' y
  assume "x_address k d = Some a"
  then have "stack_lo k + d * frame_size k \<le> stack_hi k" by (simp add: x_address_def split: if_splits)
  moreover have "0 < frame_size k" by (simp add: frame_size_def)
  ultimately show "((k, documented, Suc d, y, s'), (k, documented, d, x, s)) \<in>
      measure (\<lambda>(k, documented, d, x, s). Suc (stack_hi k) - (stack_lo k + d * frame_size k))"
    by simp
qed simp

declare foo.simps [simp del]

text \<open>What \<open>main\<close> prints itself: \<open>5036 * per / (1024 * 1024)\<close> on \<open>i32\<close>, with \<open>per = 448\<close>.\<close>

definition main_estimate :: "i32 outcome" where
  "main_estimate =
     obind (checked_mul 5036 448) (\<lambda>b. obind (checked_mul 1024 1024) (\<lambda>mb. Inr (b div mb)))"

section \<open>How the recursion ends\<close>

text \<open>The number of calls whose frame fits.\<close>

definition calls_that_fit :: "thread_stack \<Rightarrow> nat" where
  "calls_that_fit k = (if stack_lo k \<le> stack_hi k then (stack_hi k - stack_lo k) div frame_size k + 1 else 0)"

lemma frame_size_pos [simp]: "0 < frame_size k"
  by (simp add: frame_size_def)

lemma x_address_fits: "d < calls_that_fit k \<longleftrightarrow> x_address k d \<noteq> None"
proof -
  have "d * frame_size k \<le> stack_hi k - stack_lo k \<longleftrightarrow> d \<le> (stack_hi k - stack_lo k) div frame_size k"
    by (simp add: less_eq_div_iff_mult_less_eq)
  then show ?thesis by (auto simp: calls_that_fit_def x_address_def)
qed

lemma calls_bound:
  assumes "stack_hi k < 2 ^ 64"
  shows "calls_that_fit k < 2 ^ 64"
proof -
  have "(stack_hi k - stack_lo k) div frame_size k \<le> (stack_hi k - stack_lo k) div 2"
    by (rule div_le_mono2) (simp_all add: frame_size_def)
  moreover have "(stack_hi k - stack_lo k) div 2 < 2 ^ 63"
    by (rule less_mult_imp_div_less) (use assms in simp)
  ultimately show ?thesis unfolding calls_that_fit_def by simp
qed

text \<open>From the third call on only the iterations are printed, until the stack is full.\<close>

lemma foo_tail:
  "2 \<le> d \<Longrightarrow> d \<le> calls_that_fit k \<Longrightarrow> calls_that_fit k < 2 ^ 64 \<Longrightarrow>
     foo k documented d (of_nat d) s =
       (s\<lparr>est_out := est_out s @ map (Iteration \<circ> of_nat) [d..<calls_that_fit k]\<rparr>, Overflow)"
proof (induction "calls_that_fit k - d" arbitrary: d s)
  case 0
  then have "x_address k d = None" using x_address_fits [of d k] by auto
  with 0 show ?case by (subst foo.simps) simp
next
  case (Suc n)
  then have d: "d < calls_that_fit k" "d + 1 < 2 ^ 64" by linarith+
  then obtain a where a: "x_address k d = Some a" using x_address_fits by fastforce
  have u: "unat (of_nat d :: u64) = d" using d(2) by (simp add: unat_of_nat)
  have "unat (of_nat d :: u64) \<noteq> unat (0 :: u64)" "unat (of_nat d :: u64) \<noteq> unat (1 :: u64)"
    unfolding u using Suc.prems(1) by simp_all
  then have x: "(of_nat d :: u64) \<noteq> 0" "(of_nat d :: u64) \<noteq> 1" by metis+
  have "unat (of_nat d :: u64) + unat (1 :: u64) < 2 ^ 64" unfolding u using d(2) by simp
  then have "checked_add (of_nat d :: u64) 1 = Inr (of_nat (Suc d))"
    unfolding checked_add_def by simp
  moreover have "foo_body documented d a (of_nat d) s = Inr (s\<lparr>est_out := est_out s @ [Iteration (of_nat d)]\<rparr>)"
    using x by (simp add: foo_body_def)
  moreover have "[d..<calls_that_fit k] = d # [Suc d..<calls_that_fit k]" using d(1) by (rule upt_conv_Cons)
  moreover have "foo k documented (Suc d) (of_nat (Suc d)) t =
      (t\<lparr>est_out := est_out t @ map (Iteration \<circ> of_nat) [Suc d..<calls_that_fit k]\<rparr>, Overflow)" for t
    by (rule Suc.hyps(1)) (use Suc.hyps(2) Suc.prems d(1) in linarith)+
  ultimately show ?case using a by (subst foo.simps) (simp del: of_nat_Suc)
qed

lemma foo_first_two:
  assumes "2 \<le> calls_that_fit k"
  shows "foo k documented 0 0 est_init =
    (if documented then
       (\<lparr>pa = XPtr 0 (stack_hi k), pb = Dangling,
         est_out = [Iteration 0, AddressAt 0 (stack_hi k)]\<rparr>,
        Faulted (UB ''offset_from between different objects''))
     else foo k False 2 2 \<lparr>pa = XPtr 0 (stack_hi k), pb = XPtr 1 (stack_hi k - frame_size k),
       est_out = [Iteration 0, AddressAt 0 (stack_hi k), Iteration 1,
         AddressAt 1 (stack_hi k - frame_size k), MemoryPerCall (int (frame_size k) div 8 * 8)]\<rparr>)"
proof -
  have "x_address k 1 \<noteq> None" using x_address_fits [of 1 k] assms by simp
  then have le: "frame_size k \<le> stack_hi k" and a1: "x_address k 1 = Some (stack_hi k - frame_size k)"
    by (auto simp: x_address_def split: if_splits)
  have "x_address k 0 \<noteq> None" using x_address_fits [of 0 k] assms by simp
  then have a0: "x_address k 0 = Some (stack_hi k)" by (simp add: x_address_def split: if_splits)
  have c: "checked_add (0 :: u64) 1 = Inr 1" "checked_add (1 :: u64) 1 = Inr 2"
    by (simp_all add: checked_add_def)
  have "foo k documented 0 0 est_init = foo k documented 1 1
      \<lparr>pa = XPtr 0 (stack_hi k), pb = Dangling, est_out = [Iteration 0, AddressAt 0 (stack_hi k)]\<rparr>"
    using a0 c(1) by (subst foo.simps) (simp add: foo_body_def est_init_def)
  also have "\<dots> = (if documented then
       (\<lparr>pa = XPtr 0 (stack_hi k), pb = Dangling,
         est_out = [Iteration 0, AddressAt 0 (stack_hi k)]\<rparr>,
        Faulted (UB ''offset_from between different objects''))
     else foo k False 2 2 \<lparr>pa = XPtr 0 (stack_hi k), pb = XPtr 1 (stack_hi k - frame_size k),
       est_out = [Iteration 0, AddressAt 0 (stack_hi k), Iteration 1,
         AddressAt 1 (stack_hi k - frame_size k), MemoryPerCall (int (frame_size k) div 8 * 8)]\<rparr>)"
    using a1 c(2) le by (subst foo.simps) (simp add: foo_body_def numeral_2_eq_2 of_nat_diff)
  finally show ?thesis .
qed

section \<open>Properties\<close>

text \<open>
  C37: The recursion always ends, and never by returning. By the documentation of \<open>offset_from\<close> the
  second call has undefined behaviour: the two pointers are to different variables. On the
  machine the addresses are subtracted; then the second call prints the size of a frame, in
  multiples of eight bytes, and the recursion goes on until the stack is full, with exactly as
  many iterations as frames fit, so that their number times the size of a frame differs from
  the size of the stack by less than a frame. The 2 that \<open>main\<close> prints is a constant.
\<close>

theorem foo_ends_in_overflow:
  assumes "2 \<le> calls_that_fit k" and "stack_hi k < 2 ^ 64"
  shows "snd (foo k True 0 0 est_init) = Faulted (UB ''offset_from between different objects'') \<and>
    snd (foo k False 0 0 est_init) = Overflow \<and>
    est_out (fst (foo k False 0 0 est_init)) =
      [Iteration 0, AddressAt 0 (stack_hi k), Iteration 1, AddressAt 1 (stack_hi k - frame_size k),
       MemoryPerCall (int (frame_size k) div 8 * 8)] @
      map (Iteration \<circ> of_nat) [2..<calls_that_fit k] \<and>
    stack_hi k - stack_lo k < calls_that_fit k * frame_size k \<and>
    calls_that_fit k * frame_size k \<le> stack_hi k - stack_lo k + frame_size k \<and>
    main_estimate = Inr 2"
proof -
  note tail = foo_tail [OF _ assms(1) calls_bound [OF assms(2)], of False, simplified]
  let ?n = "stack_hi k - stack_lo k"
  have n: "calls_that_fit k = ?n div frame_size k + 1"
    using assms(1) by (simp add: calls_that_fit_def split: if_splits)
  have "?n div frame_size k * frame_size k \<le> ?n" by simp
  moreover have "?n < ?n div frame_size k * frame_size k + frame_size k"
    using mod_less_divisor [OF frame_size_pos, of ?n k] div_mult_mod_eq [of ?n "frame_size k"] by linarith
  moreover have "main_estimate = Inr 2" by (simp add: main_estimate_def checked_mul_def)
  ultimately show ?thesis
    by (simp add: foo_first_two [OF assms(1)] tail n algebra_simps)
qed

text \<open>A stack of two megabytes and frames of 448 bytes, the numbers of the file.\<close>

lemma foo_ends_in_overflow_witness:
  "snd (foo \<lparr>stack_hi = 0x800000, stack_lo = 0x600000, locals = 432\<rparr> False 0 0 est_init) = Overflow \<and>
   (0x800000 :: nat) - 0x600000 < 4682 * 448"
proof -
  let ?k = "\<lparr>stack_hi = 0x800000, stack_lo = 0x600000, locals = 432\<rparr>"
  have n: "calls_that_fit ?k = 4682" "frame_size ?k = 448"
    by (simp_all add: calls_that_fit_def frame_size_def)
  have p: "2 \<le> calls_that_fit ?k" "stack_hi ?k < 2 ^ 64" by (simp_all add: n)
  have "snd (foo ?k False 0 0 est_init) = Overflow"
    "stack_hi ?k - stack_lo ?k < calls_that_fit ?k * frame_size ?k"
    using foo_ends_in_overflow [OF p] by blast+
  then show ?thesis by (simp add: n)
qed

end
