(* ===== verification/LayoutMain.thy ===== *)
theory LayoutMain
  imports Layout
begin

text \<open>
  The programs of \<^verbatim>\<open>data_layout/src\<close> that print and assert layouts: \<open>main\<close> of \<^verbatim>\<open>main.rs\<close> with
  its excursion through raw pointers, the tests of \<^verbatim>\<open>repr_rust.rs\<close> and those of
  \<^verbatim>\<open>dynamically_zero_sized_type.rs\<close>. The rulers and headings that \<open>main\<close> prints are left out.
\<close>

section \<open>More types of the programs\<close>

text \<open>\<open>char\<close> is a scalar value: the surrogates and all above U+10FFFF are not characters.\<close>

definition lusize :: lty where "lusize = Scalar WIDTH 0"
definition lu128 :: lty where "lu128 = Scalar 16 0"
definition lchar :: lty where "lchar = Scalar 4 (2 ^ 32 - 0x110000 + 0x800)"

text \<open>
  \<open>Foo<u16, u32>\<close> with the offsets that \<open>test_default_representation\<close> printed (\<open>data2\<close> first,
  then \<open>count\<close> and \<open>data1\<close>), and \<open>Bar\<close> as the comment says it might be laid out.
\<close>

definition Foo_reordered :: lty where "Foo_reordered = Struct [lu32, lu16, lu16]"
definition BarRepr :: lty where "BarRepr = Struct [Union [lu32, lu64, lu8], lu8]"

text \<open>\<open>WithVec\<close> as declared; the vector's own fields are of one width each.\<close>

definition WithVec :: lty where "WithVec = Struct [lu32, lvec]"

text \<open>The iterator of \<^verbatim>\<open>phantom_data\<close>: two pointers and a marker without fields.\<close>

definition PhantomData :: lty where "PhantomData = Struct []"
definition slice_iter :: lty where "slice_iter = Struct [lrawptr, lrawptr, PhantomData]"

text \<open>
  \<open>test_default_representation\<close>: the addresses of the fields in the order of the declaration,
  with the compiler's order as in the comments, and the sizes of the two options it prints.
\<close>

definition A_addresses :: "nat \<Rightarrow> nat list" where
  "A_addresses base =
     (case field_offsets [lu32, lu16, lu8] of [b, c, a] \<Rightarrow> [base + a, base + b, base + c] | _ \<Rightarrow> [])"

definition Foo_addresses :: "nat \<Rightarrow> nat list" where
  "Foo_addresses base =
     (case field_offsets [lu32, lu16, lu16] of
        [data2, cnt, data1] \<Rightarrow> [base + cnt, base + data1, base + data2]
      | _ \<Rightarrow> [])"

definition default_option_sizes :: "(nat \<times> nat) list" where
  "default_option_sizes =
     [(size_of (OptionOf lu64), size_of lu64), (size_of (OptionOf lref), size_of lref)]"

section \<open>The main program\<close>

datatype layout_stmt = PrintSize string nat | PrintSizes string "nat \<times> nat" | AssertEq nat nat
  | PrintWord int

datatype layout_line = SizeLine string nat | SizesLine string "nat \<times> nat" | WordLine u64

text \<open>
  \<open>PrintWord k\<close> prints \<open>*ptr.offset(k)\<close> for the variable \<open>slice\<close>, at address \<open>base\<close>, which
  holds the pointer \<open>p\<close> and the length \<open>n\<close>.
\<close>

fun layout_exec :: "nat \<Rightarrow> u64 \<Rightarrow> u64 \<Rightarrow> layout_stmt \<Rightarrow> layout_line list \<Rightarrow> layout_line list outcome" where
  "layout_exec base p n (PrintSize x k) out = Inr (out @ [SizeLine x k])"
| "layout_exec base p n (PrintSizes x ks) out = Inr (out @ [SizesLine x ks])"
| "layout_exec base p n (AssertEq a b) out =
     (if a = b then Inr out else Inl (Panic ''assertion failed: left == right''))"
| "layout_exec base p n (PrintWord k) out =
     obind (slice_word base p n k) (\<lambda>w. Inr (out @ [WordLine w]))"

definition layout_main_head :: "layout_stmt list" where
  "layout_main_head =
    [PrintSize ''bool'' (size_of lbool), PrintSize ''u8/i8'' (size_of lu8),
     PrintSize ''u16/i16'' (size_of lu16), PrintSize ''u64/i64'' (size_of lu64),
     PrintSize ''usize'' (size_of lusize), PrintSize ''u128/i128'' (size_of lu128),
     PrintSize ''f32'' (size_of lf32), PrintSize ''f64'' (size_of lf64),
     PrintSize ''char'' (size_of lchar),
     PrintSize ''&i32'' (size_of lref), PrintSize ''Box'' (size_of lref),
     AssertEq WIDTH (size_of lref), AssertEq WIDTH (size_of lref),
     AssertEq WIDTH (size_of lref), AssertEq WIDTH (size_of lref),
     PrintSize ''[i32;4]'' (size_of (Array lu32 4)), PrintSize ''&[i32]'' (size_of lfat),
     PrintSize ''[Lab] Slice Layout'' (size_of lfat), PrintWord 0]"

text \<open>After the line that reads the length one word before the variable.\<close>

definition layout_main_tail :: "layout_stmt list" where
  "layout_main_tail =
    [PrintSize ''&[&dyn Trait;4]'' (size_of (Array lfat 4)), PrintSize ''str'' (size_of lfat),
     PrintSize ''&dyn SomeTrait'' (size_of lfat), PrintSize ''Box<dyn SomeTrait>'' (size_of lfat),
     AssertEq DOUBLE_WIDTH (size_of lfat), AssertEq DOUBLE_WIDTH (size_of lfat),
     AssertEq DOUBLE_WIDTH (size_of lfat), AssertEq DOUBLE_WIDTH (size_of lfat),
     PrintSizes ''i32'' (show_size lu32), PrintSizes ''&i32'' (show_size lref),
     PrintSizes ''Box<i32>'' (show_size lref), PrintSizes ''&[i32]'' (show_size lfat),
     PrintSizes ''Vec<i32>'' (show_size lvec), PrintSizes ''Result<(), Box<i32>>'' (show_size lresult_box)]"

definition layout_main :: "layout_stmt list" where
  "layout_main = layout_main_head @ PrintWord (- 1) # layout_main_tail"

text \<open>\<open>test_c_representation\<close>.\<close>

definition test_c_representation :: "layout_stmt list" where
  "test_c_representation =
    [AssertEq (size_of Union_ty) 4, AssertEq (align_of Union_ty) 2,
     AssertEq (size_of SizeRoundedUp) 8, AssertEq (align_of SizeRoundedUp) 4]"

section \<open>A dynamically sized struct\<close>

text \<open>
  \<open>test_dst\<close>: the struct with an array, as bytes; the reference to it with the array unsized is
  the address and the number of elements, and its last field starts after the \<open>u32\<close>.
\<close>

definition mss_sized :: "nat \<Rightarrow> u32 \<Rightarrow> u8 list \<Rightarrow> mem_block" where
  "mss_sized base info xs = \<lparr>blk_base = base, blk_data = le_bytes 4 info @ xs @ []\<rparr>"

record mss_ref =
  mss_addr :: nat
  mss_len :: nat

definition unsize_mss :: "nat \<Rightarrow> u8 list \<Rightarrow> mss_ref" where
  "unsize_mss base xs = \<lparr>mss_addr = base, mss_len = length xs\<rparr>"

definition mss_data :: "mem_block \<Rightarrow> mss_ref \<Rightarrow> u8 list outcome" where
  "mss_data m r = load_bytes load8 m (mss_addr r + round_up (size_of lu32) (align_of lu8)) (mss_len r)"

definition mss_info :: "mem_block \<Rightarrow> mss_ref \<Rightarrow> u32 outcome" where
  "mss_info m r = obind (load_bytes load8 m (mss_addr r) 4) (\<lambda>bs. Inr (of_le_bytes bs))"

definition test_dst :: "nat \<Rightarrow> (u32 \<times> u8 list) outcome" where
  "test_dst base =
     (let m = mss_sized base 1 (replicate 8 0); r = unsize_mss base (replicate 8 (0 :: u8))
      in obind (mss_info m r) (\<lambda>i. obind (mss_data m r) (\<lambda>d. Inr (i, d))))"

text \<open>\<open>test_zst\<close>: the two sizes it prints.\<close>

definition test_zst :: "nat \<times> nat" where
  "test_zst = (size_of lref, size_of (Array lu8 0))"

lemma mss_fields:
  "mss_info (mss_sized base info xs) (unsize_mss base xs) = Inr info"
  "mss_data (mss_sized base info xs) (unsize_mss base xs) = Inr xs"
proof -
  let ?m = "\<lparr>blk_base = base, blk_data = le_bytes 4 info @ xs @ []\<rparr>"
  have "load_bytes load8 ?m (base + length ([] :: u8 list)) (length (le_bytes 4 info)) = Inr (le_bytes 4 info)"
    using load_middle [of base "[]" "le_bytes 4 info" "xs @ []"] by simp
  then show "mss_info (mss_sized base info xs) (unsize_mss base xs) = Inr info"
    by (simp add: mss_info_def mss_sized_def unsize_mss_def of_le_bytes_le_bytes)
  have "round_up (size_of lu32) (align_of lu8) = length (le_bytes 4 info)"
    by (simp add: round_up_def lu32_def lu8_def)
  then show "mss_data (mss_sized base info xs) (unsize_mss base xs) = Inr xs"
    using load_middle [of base "le_bytes 4 info" xs "[]"]
    by (simp add: mss_data_def mss_sized_def unsize_mss_def)
qed

section \<open>Properties\<close>

lemma layout_head_runs:
  "ofold (layout_exec base p n) layout_main_head [] =
     Inr [SizeLine ''bool'' 1, SizeLine ''u8/i8'' 1, SizeLine ''u16/i16'' 2, SizeLine ''u64/i64'' 8,
       SizeLine ''usize'' 8, SizeLine ''u128/i128'' 16, SizeLine ''f32'' 4, SizeLine ''f64'' 8,
       SizeLine ''char'' 4, SizeLine ''&i32'' 8, SizeLine ''Box'' 8, SizeLine ''[i32;4]'' 16,
       SizeLine ''&[i32]'' 16, SizeLine ''[Lab] Slice Layout'' 16, WordLine p]"
proof -
  have s: "size_of lbool = 1" "size_of lu8 = 1" "size_of lu16 = 2" "size_of lu64 = 8" "size_of lusize = 8"
      "size_of lu128 = 16" "size_of lf32 = 4" "size_of lf64 = 8" "size_of lchar = 4" "size_of lref = 8"
      "size_of lu32 = 4" "WIDTH = 8"
    by (simp_all add: lbool_def lu8_def lu16_def lu64_def lusize_def lu128_def lf32_def lf64_def
        lchar_def lref_def lu32_def WIDTH_def)
  have f: "size_of lfat = 16" by code_simp
  have "slice_word base p n 0 = Inr p" using slice_words by blast
  with s f show ?thesis by (simp add: layout_main_head_def)
qed

text \<open>
  \<open>main\<close> prints the sizes its comments give and all assertions up to the slice hold; then it
  reads the length of the slice one word before the variable, which is undefined, so that the
  assertions and the table of option sizes after it are not reached by a defined execution.
  Reading one word after the pointer, the rest runs, every assertion holds and the table shows
  that only \<open>i32\<close> and \<open>Result<(), Box<i32>>\<close> grow inside an \<open>Option\<close>.
\<close>

theorem layout_main_outcome:
  "ofold (layout_exec base p n) layout_main [] =
     Inl (UB ''pointer arithmetic outside the object'') \<and>
   (\<exists>out. ofold (layout_exec base p n) (layout_main_head @ PrintWord 1 # layout_main_tail) [] =
      Inr (out @ [SizesLine ''i32'' (4, 8), SizesLine ''&i32'' (8, 8), SizesLine ''Box<i32>'' (8, 8),
        SizesLine ''&[i32]'' (16, 16), SizesLine ''Vec<i32>'' (24, 24),
        SizesLine ''Result<(), Box<i32>>'' (8, 16)]) \<and> WordLine p \<in> set out \<and> WordLine n \<in> set out)"
proof -
  have w: "slice_word base p n 1 = Inr n"
      "slice_word base p n (- 1) = Inl (UB ''pointer arithmetic outside the object'')"
    using slice_words by blast+
  have s: "size_of lfat = 16" "size_of (Array lfat 4) = 64" "DOUBLE_WIDTH = 16"
      "show_size lu32 = (4, 8)" "show_size lref = (8, 8)" "show_size lfat = (16, 16)"
      "show_size lvec = (24, 24)" "show_size lresult_box = (8, 16)"
    by code_simp+
  show ?thesis
    by (simp add: layout_main_def layout_main_tail_def ofold_append layout_head_runs w s)
qed

text \<open>
  The tests: the assertions on the C representation hold, the fields of \<open>A\<close> and \<open>Foo\<close> lie where
  the comments say, in an order in which \<open>Foo\<close> takes 8 bytes instead of 12, \<open>Bar\<close> as in the
  comment takes 16, and the marker of \<open>Iter\<close> none; the unsized reference reads
  exactly the array of the struct it was made from, whatever its length; and an empty array has
  no size while a reference to it has one.
\<close>

theorem layout_tests:
  "ofold (layout_exec base p n) test_c_representation [] = Inr [] \<and>
   size_of Foo_reordered = 8 \<and> size_of (Foo_declared lu32 lu16) = 12 \<and> size_of BarRepr = 16 \<and>
   size_of WithVec = 32 \<and> size_of slice_iter = 16 \<and>
   A_addresses 0x70000a697860 = [0x70000a697866, 0x70000a697860, 0x70000a697864] \<and>
   Foo_addresses 0x700002fac860 = [0x700002fac864, 0x700002fac866, 0x700002fac860] \<and>
   default_option_sizes = [(16, 8), (8, 8)] \<and>
   mss_info (mss_sized base info xs) (unsize_mss base xs) = Inr info \<and>
   mss_data (mss_sized base info xs) (unsize_mss base xs) = Inr xs \<and>
   test_dst base = Inr (1, replicate 8 0) \<and> test_zst = (8, 0)"
proof -
  have "size_of Union_ty = 4" "align_of Union_ty = 2" "size_of SizeRoundedUp = 8"
      "align_of SizeRoundedUp = 4" "size_of Foo_reordered = 8" "size_of (Foo_declared lu32 lu16) = 12"
      "size_of BarRepr = 16" "size_of WithVec = 32" "test_zst = (8, 0)" "size_of slice_iter = 16"
      "default_option_sizes = [(16, 8), (8, 8)]"
    by code_simp+
  moreover have "field_offsets [lu32, lu16, lu8] = [0, 4, 6]" "field_offsets [lu32, lu16, lu16] = [0, 4, 6]"
    by code_simp+
  then have "A_addresses 0x70000a697860 = [0x70000a697866, 0x70000a697860, 0x70000a697864]"
      "Foo_addresses 0x700002fac860 = [0x700002fac864, 0x700002fac866, 0x700002fac860]"
    by (simp_all add: A_addresses_def Foo_addresses_def)
  ultimately show ?thesis
    by (simp add: test_c_representation_def mss_fields test_dst_def Let_def)
qed

end
