(* ===== verification/Dispatch.thy ===== *)
theory Dispatch
  imports Strings
begin

text \<open>
  Calls through traits and closures: static and dynamic dispatch of \<^verbatim>\<open>Sundry/trait-object\<close>, the
  readers of \<^verbatim>\<open>onstack_dynamic_dispatch.rs\<close> on the stack and in a box, the closure with a
  higher-ranked bound of \<^verbatim>\<open>ownership/hrtbs\<close>, the non-exhaustive types of \<^verbatim>\<open>extensibility.rs\<close>,
  the sorted vector of \<^verbatim>\<open>temporary_mutability.rs\<close> and the iterator of \<^verbatim>\<open>Sundry/iterators\<close>.
\<close>

section \<open>Trait objects\<close>

datatype animal = Lion | Tiger | Bear

text \<open>The three implementations of \<open>growl\<close>, as the line each prints.\<close>

fun growl :: "animal \<Rightarrow> string" where
  "growl Lion = ''Lion says GROWL!''"
| "growl Tiger = ''Tiger says GROWL!''"
| "growl Bear = ''Bear says GROWL!''"

text \<open>The compiler makes one copy of \<open>static_dispatch\<close> for each type: the call is direct.\<close>

definition static_dispatch :: "animal \<Rightarrow> string list \<Rightarrow> string list" where
  "static_dispatch t out = out @ [growl t]"

text \<open>
  A trait object: the address of the data and of the table of the type's methods. The table
  of \<open>Growler\<close> has one entry after the three words for dropping, size and alignment.
\<close>

record trait_object =
  data_ptr :: nat
  vtable :: nat

definition vtable_slot :: nat where
  "vtable_slot = 3"

definition coerce_growler :: "(animal \<Rightarrow> nat) \<Rightarrow> nat \<Rightarrow> animal \<Rightarrow> trait_object" where
  "coerce_growler tables a t = \<lparr>data_ptr = a, vtable = tables t\<rparr>"

text \<open>What the tables in the program hold: at the slot of each, its type's \<open>growl\<close>.\<close>

definition growl_code :: "(animal \<Rightarrow> nat) \<Rightarrow> nat \<Rightarrow> string option" where
  "growl_code tables w =
     map_option growl (find (\<lambda>t. tables t + vtable_slot = w) [Lion, Tiger, Bear])"

definition dynamic_dispatch ::
  "(animal \<Rightarrow> nat) \<Rightarrow> trait_object \<Rightarrow> string list \<Rightarrow> string list outcome" where
  "dynamic_dispatch tables t out =
     (case growl_code tables (vtable t + vtable_slot) of
        None \<Rightarrow> Inl (UB ''call of something that is no method'')
      | Some line \<Rightarrow> Inr (out @ [line]))"

definition trait_main :: "string list" where
  "trait_main = static_dispatch Bear (static_dispatch Tiger (static_dispatch Lion []))"

definition trait_main_dynamic :: "(animal \<Rightarrow> nat) \<Rightarrow> nat \<Rightarrow> string list outcome" where
  "trait_main_dynamic tables a =
     ofold (\<lambda>t. dynamic_dispatch tables (coerce_growler tables a t)) [Lion, Tiger, Bear] []"

lemma dynamic_eq_static:
  assumes "inj tables"
  shows "dynamic_dispatch tables (coerce_growler tables a t) out = Inr (static_dispatch t out)"
proof -
  have e: "tables x = tables y \<longleftrightarrow> x = y" for x y using assms by (auto dest: injD)
  show ?thesis
    by (cases t) (simp_all add: dynamic_dispatch_def coerce_growler_def growl_code_def
        static_dispatch_def e)
qed

section \<open>Readers\<close>

datatype reader = Stdin | File string

text \<open>\<open>File::open(arg).unwrap()\<close>; \<open>opens\<close> says whether the file can be opened.\<close>

definition open_unwrap :: "(string \<Rightarrow> bool) \<Rightarrow> string \<Rightarrow> reader outcome" where
  "open_unwrap opens arg =
     (if opens arg then Inr (File arg) else Inl (Panic ''called `Result::unwrap()` on an `Err` value''))"

text \<open>
  The two variables are declared first and only one is initialised; the reference is to that
  one.
\<close>

record reader_vars =
  stdin_read :: "reader option"
  file_read :: "reader option"

datatype reader_ref = ToStdinVar | ToFileVar

definition onstack_main :: "(string \<Rightarrow> bool) \<Rightarrow> string \<Rightarrow> (reader_vars \<times> reader_ref) outcome" where
  "onstack_main opens arg =
     (let vars = \<lparr>stdin_read = None, file_read = None\<rparr> in
      if arg = ''-'' then Inr (vars\<lparr>stdin_read := Some Stdin\<rparr>, ToStdinVar)
      else obind (open_unwrap opens arg) (\<lambda>f. Inr (vars\<lparr>file_read := Some f\<rparr>, ToFileVar)))"

fun deref_reader :: "reader_vars \<times> reader_ref \<Rightarrow> reader outcome" where
  "deref_reader (vars, ToStdinVar) =
     (case stdin_read vars of None \<Rightarrow> Inl (UB ''uninitialised variable'') | Some r \<Rightarrow> Inr r)"
| "deref_reader (vars, ToFileVar) =
     (case file_read vars of None \<Rightarrow> Inl (UB ''uninitialised variable'') | Some r \<Rightarrow> Inr r)"

definition boxed_version :: "(string \<Rightarrow> bool) \<Rightarrow> string \<Rightarrow> reader outcome" where
  "boxed_version opens arg = (if arg = ''-'' then Inr Stdin else open_unwrap opens arg)"

section \<open>A closure over borrowed data\<close>

text \<open>
  \<open>Closure\<close> lies at \<open>addr\<close>; the fields of its tuple are at the offsets the compiler chose, and a
  reference to a field is its address. \<open>do_it\<close> is \<open>&data.0\<close>.
\<close>

record closure =
  addr :: nat
  off0 :: nat
  val0 :: u8
  val1 :: u16

definition do_it :: "closure \<Rightarrow> nat" where
  "do_it c = addr c + off0 c"

definition closure_call :: "(closure \<Rightarrow> nat) \<Rightarrow> closure \<Rightarrow> nat" where
  "closure_call func c = func c"

definition read_u8_field :: "closure \<Rightarrow> nat \<Rightarrow> u8 outcome" where
  "read_u8_field c p = (if p = addr c + off0 c then Inr (val0 c) else Inl (UB ''not a field of type u8''))"

text \<open>The two addresses and the value that \<open>main\<close> prints.\<close>

definition hrtb_main :: "nat \<Rightarrow> nat \<Rightarrow> (nat \<times> nat \<times> u8) outcome" where
  "hrtb_main a o0 =
     (let clo = \<lparr>addr = a, off0 = o0, val0 = 0, val1 = 1\<rparr> in
      obind (read_u8_field clo (closure_call do_it clo)) (\<lambda>v.
        Inr (addr clo + off0 clo, closure_call do_it clo, v)))"

section \<open>Non-exhaustive types\<close>

record Config =
  window_width :: u16
  window_height :: u16

definition inside_config :: Config where
  "inside_config = \<lparr>window_width = 640, window_height = 480\<rparr>"

text \<open>Variants of a later version of the library are \<open>Newer\<close>.\<close>

datatype AdmitMoreVariants = VariantA | VariantB | VariantC string | Newer nat

fun match_variant :: "AdmitMoreVariants \<Rightarrow> string" where
  "match_variant VariantA = ''it's an A''"
| "match_variant VariantB = ''it's a b''"
| "match_variant (VariantC a) = ''it's a c''"
| "match_variant (Newer n) = ''it's a new variant''"

definition print_matched_variants :: "i32 \<Rightarrow> string list" where
  "print_matched_variants foo = [match_variant VariantA]"

section \<open>Temporary mutability\<close>

definition unsorted_data :: "int list" where
  "unsorted_data = [0, 1, 2, 3, 4, 9, 8, 7, 6, 5]"

text \<open>The nested block and the rebinding.\<close>

definition sorted_in_block :: "int list" where
  "sorted_in_block = (let data = (let data = unsorted_data; data = sort data in data) in data)"

definition sorted_then_rebound :: "int list" where
  "sorted_then_rebound = (let data = unsorted_data; data = sort data; data = data in data)"

section \<open>An iterator\<close>

text \<open>\<open>iter()\<close> over a vector: what is left. \<open>next\<close> eats an item up.\<close>

fun iter_next :: "'a list \<Rightarrow> 'a option \<times> 'a list" where
  "iter_next [] = (None, [])"
| "iter_next (x # xs) = (Some x, xs)"

fun iter_calls :: "nat \<Rightarrow> 'a list \<Rightarrow> 'a option list" where
  "iter_calls 0 it = []"
| "iter_calls (Suc n) it = (case iter_next it of (r, it') \<Rightarrow> r # iter_calls n it')"

text \<open>The \<open>for\<close> loop runs until \<open>next\<close> gives \<open>None\<close>.\<close>

fun for_loop :: "('a \<Rightarrow> 's \<Rightarrow> 's) \<Rightarrow> 'a list \<Rightarrow> 's \<Rightarrow> 's" where
  "for_loop body [] s = s"
| "for_loop body (x # xs) s = for_loop body xs (body x s)"

lemma iter_calls_eq: "iter_calls n xs = map Some (take n xs) @ replicate (n - length xs) None"
proof (induction n arbitrary: xs)
  case 0
  then show ?case by simp
next
  case (Suc n)
  then show ?case by (cases xs) simp_all
qed

section \<open>Properties\<close>

text \<open>
  The call through a trait object runs the method of the value's own type: with distinct
  tables, dynamic dispatch prints what static dispatch prints, so both forms of \<open>main\<close> give the
  same three lines.
\<close>

theorem dispatch_agrees:
  assumes "inj tables"
  shows "dynamic_dispatch tables (coerce_growler tables a t) out = Inr (static_dispatch t out) \<and>
    trait_main_dynamic tables a = Inr trait_main \<and>
    trait_main = [''Lion says GROWL!'', ''Tiger says GROWL!'', ''Bear says GROWL!'']"
  by (simp add: dynamic_eq_static [OF assms] trait_main_dynamic_def trait_main_def static_dispatch_def)

definition sample_tables :: "animal \<Rightarrow> nat" where
  "sample_tables t = (case t of Lion \<Rightarrow> 0x1000 | Tiger \<Rightarrow> 0x1020 | Bear \<Rightarrow> 0x1040)"

lemma dispatch_agrees_witness:
  "trait_main_dynamic sample_tables 0x7000 = Inr trait_main"
proof -
  have "inj sample_tables" by (rule injI) (auto simp: sample_tables_def split: animal.splits)
  from dispatch_agrees [OF this] show ?thesis by blast
qed

text \<open>
  The readers: the reference of the on-stack version is always to the variable that was
  initialised, and it reads from where the boxed version does, with the same panic when the
  file cannot be opened.
\<close>

theorem readers_agree:
  "obind (onstack_main opens arg) deref_reader = boxed_version opens arg"
  by (simp add: onstack_main_def boxed_version_def open_unwrap_def)

text \<open>The closure returns a reference to its own field, and the small programs do what they say.\<close>

theorem small_programs:
  "hrtb_main a o0 = Inr (a + o0, a + o0, 0) \<and>
   sorted_in_block = [0, 1, 2, 3, 4, 5, 6, 7, 8, 9] \<and> sorted_then_rebound = sorted_in_block \<and>
   print_matched_variants foo = [''it's an A''] \<and>
   iter_calls 6 [0, 1, 2, 3, 4 :: int] = [Some 0, Some 1, Some 2, Some 3, Some 4, None]"
  by (simp add: hrtb_main_def closure_call_def do_it_def read_u8_field_def sorted_in_block_def
      sorted_then_rebound_def unsorted_data_def print_matched_variants_def iter_calls_eq)

end
