(* ===== verification/Segments.thy ===== *)
theory Segments
  imports Strings
begin

text \<open>
  Where the data of a process lies: the literals of \<^verbatim>\<open>concatenating_strings_with_format.rs\<close>, which
  the system keeps from being written, and the variables of \<^verbatim>\<open>Sundry/rust-variable-assignment\<close>
  with the blocks they own on the heap, one of which a \<open>transmute\<close> takes away from its owner.
\<close>

section \<open>The image of a process\<close>

datatype segment = Text | RoData | Data | Bss | Heap | Stack

fun writable :: "segment \<Rightarrow> bool" where
  "writable Text = False"
| "writable RoData = False"
| "writable _ = True"

record image =
  segment_at :: "nat \<Rightarrow> segment option"
  content :: "nat \<Rightarrow> u8"

text \<open>A \<open>&str\<close>: pointer and length.\<close>

record str_ref =
  sptr :: nat
  slen :: nat

definition read_str :: "image \<Rightarrow> str_ref \<Rightarrow> u8 list" where
  "read_str p r = map (\<lambda>i. content p (sptr r + i)) [0..<slen r]"

text \<open>A store outside the writable segments ends the process with a segmentation fault.\<close>

definition store_u8 :: "nat \<Rightarrow> u8 \<Rightarrow> image \<Rightarrow> nat + image" where
  "store_u8 a b p =
     (case segment_at p a of
        None \<Rightarrow> Inl a
      | Some s \<Rightarrow> if writable s then Inr (p\<lparr>content := (content p)(a := b)\<rparr>) else Inl a)"

section \<open>String literals\<close>

text \<open>\<open>h\<close> refers to one literal, then to the other, and is printed; then its first byte is written.\<close>

definition literal_and_non_literal_strings ::
  "str_ref \<Rightarrow> str_ref \<Rightarrow> image \<Rightarrow> u8 list list \<times> (nat + image)" where
  "literal_and_non_literal_strings hello world p =
     (let h = hello; h = world in ([read_str p h], store_u8 (sptr h) 42 p))"

definition text_in :: "segment \<Rightarrow> image \<Rightarrow> str_ref \<Rightarrow> string \<Rightarrow> bool" where
  "text_in s p r t \<longleftrightarrow> read_str p r = str_bytes t \<and>
     (\<forall>i < slen r. segment_at p (sptr r + i) = Some s)"

lemma length_read_str [simp]: "length (read_str p r) = slen r"
  by (simp add: read_str_def)

lemma text_in_slen: "text_in s p r t \<Longrightarrow> slen r = length t"
  unfolding text_in_def str_bytes_def by (metis length_map length_read_str)

lemma read_str_store:
  assumes "store_u8 a b p = Inr q"
  shows "read_str q r =
    (if sptr r \<le> a \<and> a < sptr r + slen r then (read_str p r)[a - sptr r := b] else read_str p r)"
  using assms
  by (intro nth_equalityI)
    (auto simp: store_u8_def read_str_def nth_list_update split: option.splits if_splits)

section \<open>Owned blocks\<close>

text \<open>The live blocks of the heap with their sizes; a block is freed once, with its size.\<close>

type_synonym blocks = "nat \<rightharpoonup> nat"

definition block_alloc :: "nat \<Rightarrow> nat \<Rightarrow> blocks \<Rightarrow> blocks outcome" where
  "block_alloc a n h = (if h a = None then Inr (h(a \<mapsto> n)) else Inl (UB ''block in use''))"

definition block_free :: "nat \<Rightarrow> nat \<Rightarrow> blocks \<Rightarrow> blocks outcome" where
  "block_free a n h = (if h a = Some n then Inr (h(a := None)) else Inl (UB ''invalid free''))"

text \<open>
  The addresses the compiler, the loader and the allocator choose; \<open>word_order\<close> is the order of
  capacity, pointer and length in a \<open>String\<close>, which is unspecified as well.
\<close>

datatype string_word = Cap | Ptr | Len

record places =
  literal_at :: nat
  g_array_at :: nat
  g_x_at :: nat
  g_y_at :: nat
  var_at :: nat
  nums_at :: nat
  vec_at :: nat
  box_block :: nat
  vec_block :: nat
  string_block :: nat
  word_order :: "string_word list"

text \<open>\<open>transmute::<String, [usize; 3]>\<close>: the words of the string, which nobody owns any more.\<close>

definition string_words :: "places \<Rightarrow> nat \<Rightarrow> nat list" where
  "string_words v n =
     map (\<lambda>w. case w of Cap \<Rightarrow> n | Ptr \<Rightarrow> string_block v | Len \<Rightarrow> n) (word_order v)"

text \<open>The printed numbers in order, and the heap after the variables were dropped.\<close>

definition variable_main :: "places \<Rightarrow> blocks \<Rightarrow> (nat list \<times> blocks) outcome" where
  "variable_main v h =
     (let out = [literal_at v, literal_at v, g_array_at v, g_x_at v, g_y_at v] in
      obind (block_alloc (box_block v) 4 h) (\<lambda>h.
      let out = out @ [box_block v] in
      obind (block_alloc (vec_block v) 24 h) (\<lambda>h.
      let out = out @ [var_at v, nums_at v, vec_at v] in
      obind (block_alloc (string_block v) 5 h) (\<lambda>h.
      let pstr = string_words v 5; out = out @ [pstr ! 0] in
      obind (block_free (vec_block v) 24 h) (\<lambda>h.
      obind (block_free (box_block v) 4 h) (\<lambda>h.
      Inr (out, h)))))))"

section \<open>Properties\<close>

text \<open>
  Assigning to \<open>h\<close> changes neither literal. The write through the pointer ends the process when
  the literals are in the read-only segment, after \<open>World\<close> was printed; were they writable, it
  would change the second literal for every user of it, and not the first.
\<close>

theorem literal_write_faults:
  assumes "text_in s p hello ''Hello''" and "text_in s p world ''World''"
    and "sptr world < sptr hello \<or> sptr hello + slen hello \<le> sptr world"
  shows "fst (literal_and_non_literal_strings hello world p) = [str_bytes ''World''] \<and>
    (if writable s
     then \<exists>q. snd (literal_and_non_literal_strings hello world p) = Inr q \<and>
       read_str q world = str_bytes ''*orld'' \<and> read_str q hello = str_bytes ''Hello''
     else snd (literal_and_non_literal_strings hello world p) = Inl (sptr world))"
proof -
  have n: "slen world = 5" using text_in_slen [OF assms(2)] by simp
  have r: "read_str p world = str_bytes ''World''" "read_str p hello = str_bytes ''Hello''"
    using assms(1,2) by (simp_all add: text_in_def)
  have s: "segment_at p (sptr world) = Some s"
    using assms(2) n unfolding text_in_def by (metis add_0_right zero_less_numeral)
  show ?thesis
  proof (cases "writable s")
    case False
    with r s show ?thesis by (simp add: literal_and_non_literal_strings_def store_u8_def)
  next
    case True
    then obtain q where q: "store_u8 (sptr world) 42 p = Inr q" using s by (simp add: store_u8_def)
    have "read_str q world = str_bytes ''*orld''"
      using read_str_store [OF q, of world] r(1) n by (simp add: str_bytes_def)
    moreover have "read_str q hello = str_bytes ''Hello''"
      using read_str_store [OF q, of hello] r(2) assms(3) by auto
    ultimately show ?thesis using True q r by (simp add: literal_and_non_literal_strings_def)
  qed
qed

lemma literal_write_faults_witness:
  "\<exists>p. snd (literal_and_non_literal_strings \<lparr>sptr = 100, slen = 5\<rparr> \<lparr>sptr = 105, slen = 5\<rparr> p) = Inl 105"
proof -
  let ?p = "\<lparr>segment_at = (\<lambda>a. if 100 \<le> a then Some RoData else None),
    content = (\<lambda>a. str_bytes ''HelloWorld'' ! (a - 100))\<rparr>"
  have "text_in RoData ?p \<lparr>sptr = 100, slen = 5\<rparr> ''Hello''"
    "text_in RoData ?p \<lparr>sptr = 105, slen = 5\<rparr> ''World''"
    by (simp_all add: text_in_def read_str_def str_bytes_def upt_rec)
  from literal_write_faults [OF this] show ?thesis by auto
qed

text \<open>
  What \<open>main\<close> of \<open>rust-variable-assignment\<close> leaves behind: it frees the box and the vector, and
  leaks the five bytes of the string, whose words went into an array without a destructor. The
  number printed for \<open>pstr\<close> is the address of these bytes only if the pointer comes first in a
  \<open>String\<close>; otherwise it is 5.
\<close>

theorem variable_main_leaks:
  assumes "distinct [box_block v, vec_block v, string_block v]"
    and "h (box_block v) = None" and "h (vec_block v) = None" and "h (string_block v) = None"
    and "word_order v = w # ws"
  shows "variable_main v h =
    Inr ([literal_at v, literal_at v, g_array_at v, g_x_at v, g_y_at v, box_block v, var_at v,
      nums_at v, vec_at v, if w = Ptr then string_block v else 5], h(string_block v \<mapsto> 5))"
proof -
  have "h(box_block v \<mapsto> 4, vec_block v \<mapsto> 24, string_block v \<mapsto> 5, vec_block v := None,
      box_block v := None) = h(string_block v \<mapsto> 5)"
    using assms(1-4) by (auto simp: fun_eq_iff)
  moreover have "string_words v 5 ! 0 = (if w = Ptr then string_block v else 5)"
    by (cases w) (simp_all add: string_words_def assms(5))
  ultimately show ?thesis
    using assms(1-4) by (simp add: variable_main_def block_alloc_def block_free_def Let_def)
qed

lemma variable_main_leaks_witness:
  "\<exists>v out. variable_main v Map.empty = Inr (out, [3 \<mapsto> 5]) \<and> last out = 5"
proof -
  let ?v = "\<lparr>literal_at = 10, g_array_at = 11, g_x_at = 12, g_y_at = 13, var_at = 20, nums_at = 21,
    vec_at = 22, box_block = 1, vec_block = 2, string_block = 3, word_order = [Cap, Ptr, Len]\<rparr>"
  have "variable_main ?v Map.empty = Inr ([10, 10, 11, 12, 13, 1, 20, 21, 22, 5], [3 \<mapsto> 5])"
    using variable_main_leaks [of ?v Map.empty Cap "[Ptr, Len]"] by simp
  then show ?thesis by fastforce
qed

end
