(* ===== verification/RepoTests.thy ===== *)
theory RepoTests
  imports Strings CStrings BinaryHeap Idioms
begin

text \<open>
  Tests of the repository that exercise several functions, run on the model: those of
  \<^verbatim>\<open>binary-heap/src/lib.rs\<close>, \<^verbatim>\<open>use_borrowed_types_for_arguments.rs\<close>, \<^verbatim>\<open>ffi.rs\<close> and
  \<^verbatim>\<open>creational/builder.rs\<close>. The builder of threads that the last one uses is the standard
  library's; whether the system can start a thread is an argument.
\<close>

definition assert_eq :: "'a \<Rightarrow> 'a \<Rightarrow> unit outcome" where
  "assert_eq a b = (if a = b then Inr () else Inl (Panic ''assertion failed: left == right''))"

lemma assert_eq_same [simp]: "assert_eq a a = Inr ()"
  by (simp add: assert_eq_def)

section \<open>The heap crate\<close>

definition test_1 :: "unit outcome" where
  "test_1 = assert_eq (xor_all [1, 1, 2, 2, 3, 4, 3]) 4"

text \<open>\<open>{:#034b}\<close>: the prefix and 32 binary digits.\<close>

definition show_bin :: "i32 \<Rightarrow> string" where
  "show_bin w = ''0b'' @ map (\<lambda>i. if bit w (31 - i) then CHR ''1'' else CHR ''0'') [0..<32]"

definition test_2 :: "(string \<times> i32 list) outcome" where
  "test_2 =
     (let nums = [1, 1, 2, 2, 3, 4, 3, 5]; ret = xor_all nums; out = show_bin ret in
      obind (location 2) (\<lambda>l. obind (assert_eq l 2) (\<lambda>_.
      obind (location 4) (\<lambda>l. obind (assert_eq l 3) (\<lambda>_.
      obind (location 8) (\<lambda>l. obind (assert_eq l 4) (\<lambda>_.
      obind (location (ucast ret)) (\<lambda>n.
      Inr (out, odd_ones nums)))))))))"

section \<open>Vowels\<close>

definition show_bool :: "bool \<Rightarrow> string" where
  "show_bool b = (if b then ''true'' else ''false'')"

definition sentence :: chars where
  "sentence = chars ''Once upon a time, there was a friendly curious crab named Ferris''"

text \<open>The last three lines reach the same \<open>str\<close> through \<open>String\<close>, \<open>Rc\<close> and \<open>Arc\<close>.\<close>

definition deref_lines :: "chars \<Rightarrow> chars list outcome" where
  "deref_lines w =
     obind (three_vowels w) (\<lambda>b. Inr (replicate 3 (w @ chars '': '' @ chars (show_bool b))))"

definition it_has_three_vowels :: "chars list outcome" where
  "it_has_three_vowels =
     obind (three_vowels (chars ''Ferris'')) (\<lambda>f. obind (assert_eq False f) (\<lambda>_.
     obind (three_vowels (chars ''Curious'')) (\<lambda>c. obind (assert_eq True c) (\<lambda>_.
     obind (vowel_words sentence) (\<lambda>ws.
     obind (deref_lines (chars ''Curious'')) (\<lambda>ls.
     Inr (map (\<lambda>w. w @ chars '' has three consecutive vowels!'') ws @ ls)))))))"

section \<open>Errors passed to C\<close>

text \<open>The first result is not looked at; the second is unwrapped. \<open>a\<close> and \<open>b\<close> are the buffers.\<close>

definition test_accept :: "nat \<Rightarrow> nat \<Rightarrow> string list outcome" where
  "test_accept a b =
     (let s = text_bytes ''value'' in
      obind (report_error_to_ffi a s) (\<lambda>(out1, _).
      obind (report_error b s) (\<lambda>(out2, r).
        case r of
          Inl e \<Rightarrow> Inl (Panic ''called `Result::unwrap()` on an `Err` value'')
        | Inr _ \<Rightarrow> Inr (out1 @ out2))))"

section \<open>Builders\<close>

text \<open>The two commands that are spawned.\<close>

definition it_non_consuming :: "(Command \<times> Command) outcome" where
  "it_non_consuming =
     (let one = Command_arg ''file.txt'' (Command_new ''/bin/cat'');
          size_sorted = True;
          cmd = Command_new ''/bin/ls'';
          cmd = Command_arg ''.'' cmd;
          cmd = (if size_sorted then Command_arg ''-S'' cmd else cmd)
      in case (Command_spawn one, Command_spawn cmd) of
           (Inr _, Inr _) \<Rightarrow> Inr (one, cmd)
         | _ \<Rightarrow> Inl (Panic ''called `Result::unwrap()` on an `Err` value''))"

text \<open>\<open>std::thread::Builder\<close>: every method takes the builder and returns it.\<close>

record thread_builder =
  tb_name :: "string option"
  tb_stack :: "nat option"

definition tb_new :: thread_builder where
  "tb_new = \<lparr>tb_name = None, tb_stack = None\<rparr>"

definition tb_set_name :: "string \<Rightarrow> thread_builder \<Rightarrow> thread_builder" where
  "tb_set_name n b = b\<lparr>tb_name := Some n\<rparr>"

definition tb_set_stack :: "nat \<Rightarrow> thread_builder \<Rightarrow> thread_builder" where
  "tb_set_stack k b = b\<lparr>tb_stack := Some k\<rparr>"

definition tb_spawn_unwrap :: "(thread_builder \<Rightarrow> bool) \<Rightarrow> thread_builder \<Rightarrow> thread_builder outcome" where
  "tb_spawn_unwrap os b =
     (if os b then Inr b else Inl (Panic ''called `Result::unwrap()` on an `Err` value''))"

definition it_consuming :: "(thread_builder \<Rightarrow> bool) \<Rightarrow> (thread_builder \<times> thread_builder) outcome" where
  "it_consuming os =
     obind (tb_spawn_unwrap os (tb_set_stack 2048 (tb_set_name ''consuming'' tb_new))) (\<lambda>one.
       let thread = tb_new;
           thread = tb_set_name ''consuming2'' thread;
           thread = tb_set_stack 4096 thread
       in obind (tb_spawn_unwrap os thread) (\<lambda>two. Inr (one, two)))"

section \<open>Properties\<close>

text \<open>
  The assertions of the tests hold and the tests print what their comments announce: the heap
  crate's exclusive or is 4, then 1, whose odd numbers include those that occur twice.
\<close>

theorem heap_tests_pass:
  "test_1 = Inr () \<and>
   test_2 = Inr (''0b00000000000000000000000000000001'', [1, 1, 3, 3, 5])"
proof -
  have "xor_all [1, 1, 2, 2, 3, 4, 3] = 4" "xor_all [1, 1, 2, 2, 3, 4, 3, 5] = 1"
      "odd_ones [1, 1, 2, 2, 3, 4, 3, 5] = [1, 1, 3, 3, 5]"
    by (simp_all add: xor_all_def odd_ones_def)
  moreover have "location 2 = Inr 2" "location 4 = Inr 3" "location 8 = Inr 4" "location 1 = Inr 1"
    by (simp_all add: location_def location_loop.simps checked_sadd_def drop_bit_eq_div)
  moreover have "show_bin 1 = ''0b00000000000000000000000000000001''"
    by code_simp
  ultimately show ?thesis by (simp add: test_1_def test_2_def Let_def)
qed

text \<open>
  The vowel test passes; one word of the sentence is printed, and the three owners of the same
  text give the same answer.
\<close>

theorem vowel_test_passes:
  "it_has_three_vowels =
     Inr (chars ''curious has three consecutive vowels!'' # replicate 3 (chars ''Curious: true''))"
  by code_simp

text \<open>Both ways to report the error print the code of the first byte, wherever the buffers lie.\<close>

theorem accept_test_passes: "test_accept a b = Inr [''118'', ''118'']"
proof -
  have c: "CString_new (text_bytes ''value'') = Inr [118, 97, 108, 117, 101, 0]" by code_simp
  have "uload (c_buffer d [118, 97, 108, 117, 101, 0]) d = Inr 118" for d
    by (simp add: uload_def c_buffer_def ub_mapped_def ub_end_def)
  moreover have "show_int (sint (118 :: u8)) = ''118''" by code_simp
  ultimately have "seterr (c_buffer d [118, 97, 108, 117, 101, 0]) d = Inr ''118''" for d
    by (simp add: seterr_def)
  with c show ?thesis
    by (simp add: test_accept_def report_error_to_ffi_def report_error_def report_error_with_def
        temporary_during_call_def)
qed

text \<open>
  The borrowing builder configures the commands in the order of the calls. The consuming one
  starts both threads with their own name and stack if the system can, and panics otherwise.
\<close>

theorem builder_tests:
  "it_non_consuming =
     Inr (\<lparr>program = ''/bin/cat'', args = [''file.txt''], cwd = None\<rparr>,
          \<lparr>program = ''/bin/ls'', args = [''.'', ''-S''], cwd = None\<rparr>) \<and>
   (let one = \<lparr>tb_name = Some ''consuming'', tb_stack = Some 2048\<rparr>;
        two = \<lparr>tb_name = Some ''consuming2'', tb_stack = Some 4096\<rparr>
    in it_consuming os =
         (if os one \<and> os two then Inr (one, two)
          else Inl (Panic ''called `Result::unwrap()` on an `Err` value'')))"
  by (simp add: it_non_consuming_def Command_arg_def Command_new_def Command_spawn_def
      it_consuming_def tb_spawn_unwrap_def tb_set_name_def tb_set_stack_def tb_new_def Let_def)

end
