(* ===== verification/Fairness.thy ===== *)
theory Fairness
  imports Prelude
begin

text \<open>
  Infinite executions of a step relation and weak fairness. An execution goes on by steps, and
  stays where it is once no step is possible. It is fair when every actor that could go on
  does something again and again. The locale is the contract of a progress argument: a state
  that is pending stays pending until the goal is reached, no step raises a measure, and in
  every pending state some actor is the one whose next action lowers it.
\<close>

definition execution :: "'s \<Rightarrow> ('s \<Rightarrow> 's \<Rightarrow> bool) \<Rightarrow> (nat \<Rightarrow> 's) \<Rightarrow> bool" where
  "execution s0 stp \<sigma> \<longleftrightarrow> \<sigma> 0 = s0 \<and>
     (\<forall>n. stp (\<sigma> n) (\<sigma> (Suc n)) \<or> (\<nexists>t. stp (\<sigma> n) t) \<and> \<sigma> (Suc n) = \<sigma> n)"

definition fair :: "('a \<Rightarrow> 's \<Rightarrow> 's \<Rightarrow> bool) \<Rightarrow> ('a \<Rightarrow> 's \<Rightarrow> bool) \<Rightarrow> (nat \<Rightarrow> 's) \<Rightarrow> bool" where
  "fair acts live \<sigma> \<longleftrightarrow> (\<forall>a n. \<exists>m \<ge> n. acts a (\<sigma> m) (\<sigma> (Suc m)) \<or> \<not> live a (\<sigma> m))"

lemma execution_reach:
  assumes "execution s0 stp \<sigma>"
  shows "reach s0 stp (\<sigma> n)"
proof (induction n)
  case 0
  have "\<sigma> 0 = s0" using assms by (simp add: execution_def)
  then show ?case by (simp add: reach_start)
next
  case (Suc n)
  have "stp (\<sigma> n) (\<sigma> (Suc n)) \<or> \<sigma> (Suc n) = \<sigma> n" using assms unfolding execution_def by blast
  with Suc show ?case by (metis reach_step)
qed

lemma execution_step:
  "execution s0 stp \<sigma> \<Longrightarrow> stp (\<sigma> n) t \<Longrightarrow> stp (\<sigma> n) (\<sigma> (Suc n))"
  unfolding execution_def by blast

text \<open>A run that ends in a state without steps, and without live actors, is a fair execution.\<close>

lemma finite_run_fair:
  assumes "(stp ^^ n) s0 t" and "\<nexists>u. stp t u" and "\<And>a. \<not> live a t"
  shows "\<exists>\<sigma>. execution s0 stp \<sigma> \<and> fair acts live \<sigma> \<and> (\<forall>m \<ge> n. \<sigma> m = t)"
proof -
  from assms(1) obtain f where f: "f 0 = s0" "f n = t" "\<forall>i < n. stp (f i) (f (Suc i))"
    unfolding relpowp_fun_conv by blast
  let ?s = "\<lambda>m. if m \<le> n then f m else t"
  have "execution s0 stp ?s"
    unfolding execution_def
  proof (intro conjI allI)
    show "stp (?s m) (?s (Suc m)) \<or> (\<nexists>u. stp (?s m) u) \<and> ?s (Suc m) = ?s m" for m
      using f(2,3) assms(2) by (cases m n rule: linorder_cases) auto
  qed (simp add: f(1))
  moreover have "fair acts live ?s"
    unfolding fair_def
  proof (intro allI)
    fix a k
    have "\<not> live a (?s (n + k))" using assms(3) f(2) by simp
    then show "\<exists>m \<ge> k. acts a (?s m) (?s (Suc m)) \<or> \<not> live a (?s m)" by (meson le_add2)
  qed
  moreover have "\<forall>m \<ge> n. ?s m = t" using f(2) by auto
  ultimately show ?thesis by blast
qed

locale fair_progress = step_invariant s0 stp Inv
  for s0 :: 's and stp and Inv +
  fixes acts :: "'a \<Rightarrow> 's \<Rightarrow> 's \<Rightarrow> bool"
    and live :: "'a \<Rightarrow> 's \<Rightarrow> bool"
    and pending :: "'s \<Rightarrow> bool"
    and goal :: "'s \<Rightarrow> bool"
    and helper :: "'s \<Rightarrow> 'a"
    and work :: "'s \<Rightarrow> nat"
  assumes helper_live: "Inv s \<Longrightarrow> pending s \<Longrightarrow> live (helper s) s"
    and not_stuck: "Inv s \<Longrightarrow> pending s \<Longrightarrow> \<exists>t. stp s t"
    and progress: "Inv s \<Longrightarrow> pending s \<Longrightarrow> stp s t \<Longrightarrow>
      goal t \<or> pending t \<and> (work t < work s \<or>
        work t = work s \<and> helper t = helper s \<and> \<not> acts (helper s) s t)"
begin

lemma execution_Inv: "execution s0 stp \<sigma> \<Longrightarrow> Inv (\<sigma> n)"
  by (rule inv_reach) (rule execution_reach)

lemma pending_step:
  assumes "execution s0 stp \<sigma>" and "pending (\<sigma> n)" and "\<not> goal (\<sigma> (Suc n))"
  shows "pending (\<sigma> (Suc n)) \<and> (work (\<sigma> (Suc n)) < work (\<sigma> n) \<or>
    work (\<sigma> (Suc n)) = work (\<sigma> n) \<and> helper (\<sigma> (Suc n)) = helper (\<sigma> n) \<and>
      \<not> acts (helper (\<sigma> n)) (\<sigma> n) (\<sigma> (Suc n)))"
proof -
  note inv = execution_Inv [OF assms(1), of n]
  obtain t where "stp (\<sigma> n) t" using not_stuck [OF inv assms(2)] by blast
  from progress [OF inv assms(2) execution_step [OF assms(1) this]] assms(3) show ?thesis by blast
qed

text \<open>Under fairness the measure falls again and again, so the goal is reached.\<close>

lemma work_falls:
  assumes "execution s0 stp \<sigma>" and "fair acts live \<sigma>" and "pending (\<sigma> n)"
    and "\<And>m. n \<le> m \<Longrightarrow> \<not> goal (\<sigma> m)"
  shows "\<exists>m \<ge> n. pending (\<sigma> m) \<and> work (\<sigma> m) < work (\<sigma> n)"
proof (rule ccontr)
  assume none: "\<not> ?thesis"
  have same: "pending (\<sigma> (n + k)) \<and> work (\<sigma> (n + k)) = work (\<sigma> n) \<and> helper (\<sigma> (n + k)) = helper (\<sigma> n)" for k
  proof (induction k)
    case 0
    then show ?case using assms(3) by simp
  next
    case (Suc k)
    from pending_step [OF assms(1), of "n + k"] Suc assms(4) [of "Suc (n + k)"] none
    show ?case by (auto simp: not_less)
  qed
  from assms(2) obtain m where m: "n \<le> m"
      "acts (helper (\<sigma> n)) (\<sigma> m) (\<sigma> (Suc m)) \<or> \<not> live (helper (\<sigma> n)) (\<sigma> m)"
    unfolding fair_def by blast
  then obtain k where k: "m = n + k" by (auto simp: le_iff_add)
  have "live (helper (\<sigma> n)) (\<sigma> m)"
    using helper_live [OF execution_Inv [OF assms(1)], of m] same [of k] k by simp
  moreover have "\<not> acts (helper (\<sigma> n)) (\<sigma> m) (\<sigma> (Suc m))"
    using pending_step [OF assms(1), of m] same [of k] same [of "Suc k"] assms(4) [of "Suc m"] m(1) k
    by simp
  ultimately show False using m(2) by blast
qed

lemma eventually_goal:
  assumes "execution s0 stp \<sigma>" and "fair acts live \<sigma>" and "pending (\<sigma> n)"
  shows "\<exists>m \<ge> n. goal (\<sigma> m)"
  using assms(3)
proof (induction "work (\<sigma> n)" arbitrary: n rule: less_induct)
  case less
  show ?case
  proof (rule ccontr)
    assume "\<not> ?thesis"
    then have none: "\<And>m. n \<le> m \<Longrightarrow> \<not> goal (\<sigma> m)" by blast
    from work_falls [OF assms(1,2) less.prems none]
    obtain m where "n \<le> m" "pending (\<sigma> m)" "work (\<sigma> m) < work (\<sigma> n)" by blast
    with less.hyps none show False by (meson le_trans)
  qed
qed

end

end
