(* ===== verification/SpinFair.thy ===== *)
theory SpinFair
  imports SpinLock Fairness Decimal
begin

text \<open>
  The spin lock program under a fair scheduler: a thread that has not finished takes steps
  again and again. The waiting thread may then fail to take the lock any finite number of
  times, but the program ends: with a releasing unlock both threads finish, and \<open>main\<close> joins
  them and prints the counter; with the relaxed unlock of the code every execution ends in the
  data race, which is undefined behaviour. Without fairness the waiting thread can be
  scheduled for ever.
\<close>

section \<open>Who acts in a step\<close>

text \<open>
  A step of a thread changes where it is, unless it is a failed round of the spin loop.
\<close>

definition spin_acts :: "tid \<Rightarrow> spin_state \<Rightarrow> spin_state \<Rightarrow> bool" where
  "spin_acts t s s' \<longleftrightarrow> pcs s' t \<noteq> pcs s t \<or>
     pcs s t = Locking \<and> spin_try_lock (lockw s) = None \<and> s' = sync_load SeqCst t s"

definition spin_live :: "tid \<Rightarrow> spin_state \<Rightarrow> bool" where
  "spin_live t s \<longleftrightarrow> pcs s t \<noteq> Done \<and> pcs s t \<noteq> Panicked \<and> \<not> race s"

text \<open>
  The end of \<open>main\<close>: \<open>join\<close> returns an error for a thread that panicked, which \<open>unwrap\<close> turns
  into a panic; it waits for a thread that is still running. A race comes before all that.
\<close>

definition spin_main_end :: "spin_state \<Rightarrow> string outcome option" where
  "spin_main_end s =
     (if race s then Some (Inl (UB ''data race''))
      else if pcs s T1 = Panicked then Some (Inl (Panic ''called `Result::unwrap()` on an `Err` value''))
      else if pcs s T1 \<noteq> Done then None
      else if pcs s T2 = Panicked then Some (Inl (Panic ''called `Result::unwrap()` on an `Err` value''))
      else if pcs s T2 \<noteq> Done then None
      else Some (Inr (''main: end with counter = '' @ show_int (sint (counter s)))))"

text \<open>The one way the program can end, by the ordering of the unlock.\<close>

definition spin_result :: "mem_order \<Rightarrow> string outcome" where
  "spin_result ord =
     (if releases ord then Inr ''main: end with counter = 2000'' else Inl (UB ''data race''))"

text \<open>The thread whose next step is progress: the holder, or anyone when the lock is free.\<close>

definition spin_helper :: "spin_state \<Rightarrow> tid" where
  "spin_helper s =
     (if inside (pcs s T1) then T1 else if inside (pcs s T2) then T2
      else if pcs s T1 \<noteq> Done then T1 else T2)"

lemma spin_step_acts:
  assumes "spin_step ord s s'"
  shows "\<exists>t. spin_acts t s s'"
  using assms unfolding spin_step_def
proof
  assume "spin_move ord s s'"
  then show ?thesis by (cases rule: spin_move.cases) (auto simp: spin_acts_def intro!: exI)
next
  assume "spin_wait s s'"
  then show ?thesis by (cases rule: spin_wait.cases) (auto simp: spin_acts_def)
qed

lemma spin_wait_no_help:
  assumes inv: "spin_inv s" and w: "spin_wait s s'"
  shows "pcs s' = pcs s" and "\<not> spin_acts (spin_helper s) s s'"
proof -
  from w obtain u where u: "pcs s u = Locking" "spin_try_lock (lockw s) = None" "pcs s' = pcs s"
    by (cases rule: spin_wait.cases) simp
  show "pcs s' = pcs s" by (rule u(3))
  from u(2) obtain t where "inside (pcs s t)"
    using spin.guards_blocked [OF spin_inv_guards [OF inv]] by blast
  then have "inside (pcs s (spin_helper s))" by (cases t) (simp_all add: spin_helper_def)
  with u(3) show "\<not> spin_acts (spin_helper s) s s'" by (auto simp: spin_acts_def)
qed

lemma spin_helper_live:
  assumes "spin_inv s" and "\<not> spin_over s"
  shows "spin_live (spin_helper s) s"
proof -
  have "pcs s t \<noteq> Panicked" for t using spin_inv_pc [OF assms(1), of t] by auto
  with assms(2) show ?thesis by (auto simp: spin_live_def spin_helper_def spin_over_def)
qed

interpretation spin_fair: fair_progress spin_init "spin_step ord" spin_inv spin_acts spin_live
  "\<lambda>s. \<not> spin_over s" spin_over spin_helper spin_work for ord
proof unfold_locales
  fix s t
  assume inv: "spin_inv s" and p: "\<not> spin_over s"
  show "spin_live (spin_helper s) s" by (rule spin_helper_live [OF inv p])
  show "\<exists>t. spin_step ord s t"
    using spin_progress [OF inv] p spin_stepI unfolding spin_over_def by metis
  assume "spin_step ord s t"
  then consider "spin_move ord s t" | "spin_wait s t" unfolding spin_step_def by blast
  then show "spin_over t \<or> \<not> spin_over t \<and> (spin_work t < spin_work s \<or>
      spin_work t = spin_work s \<and> spin_helper t = spin_helper s \<and> \<not> spin_acts (spin_helper s) s t)"
  proof cases
    case 1
    with spin_move_work [OF inv] show ?thesis by blast
  next
    case 2
    note w = spin_wait_no_help [OF inv 2]
    have "spin_work t = spin_work s" "spin_helper t = spin_helper s"
      by (simp_all add: spin_work_def spin_helper_def w(1))
    with w(2) show ?thesis by blast
  qed
qed (auto simp: spin_step_def spin_inv_init intro: spin_move_inv spin_wait_inv)

lemma spin_over_stays:
  assumes "spin_over s"
  shows "\<nexists>t. spin_step ord s t"
proof (cases "race s")
  case True
  then show ?thesis by (auto simp: spin_step_def elim!: spin_moveE spin_waitE)
next
  case False
  then have "pcs s t = Done" for t using assms by (cases t) (simp_all add: spin_over_def)
  then show ?thesis by (auto simp: spin_step_def elim!: spin_moveE spin_waitE)
qed

lemma execution_over_stays:
  assumes "execution spin_init (spin_step ord) \<sigma>" and "spin_over (\<sigma> n)" and "n \<le> m"
  shows "\<sigma> m = \<sigma> n"
  using assms(3)
proof (induction rule: dec_induct)
  case base
  show ?case by simp
next
  case (step m)
  with assms(1,2) spin_over_stays [of "\<sigma> m" ord] show ?case unfolding execution_def by metis
qed

lemma spin_over_end:
  assumes r: "reach spin_init (spin_step ord) s" and o: "spin_over s"
  shows "spin_main_end s = Some (spin_result ord)"
proof (cases "releases ord")
  case True
  have inv: "spin_inv s" "\<not> race s" using sl.inv_reach [OF r] True by (auto simp: race_inv_def)
  with o have d: "pcs s T1 = Done" "pcs s T2 = Done" by (simp_all add: spin_over_def)
  then have "sint (counter s) = 2000" using inv by (simp add: spin_inv_def SPIN_ITERS_def)
  moreover have "show_int 2000 = ''2000''" by code_simp
  ultimately show ?thesis using d inv(2) True by (simp add: spin_main_end_def spin_result_def)
next
  case False
  then have "relaxed_inv s" using slr.inv_reach [OF r] by blast
  with o have "race s" using relaxed_inv_not_done by (auto simp: spin_over_def)
  with False show ?thesis by (simp add: spin_main_end_def spin_result_def)
qed

lemma spin_main_end_None: "spin_inv s \<Longrightarrow> spin_main_end s = None \<longleftrightarrow> \<not> spin_over s"
  using spin_inv_pc [of s T1] spin_inv_pc [of s T2] by (auto simp: spin_main_end_def spin_over_def)

section \<open>Starvation without fairness\<close>

text \<open>Thread 1 holds the lock; thread 2 has failed once, and failing again changes nothing.\<close>

lemma spin_starves:
  "\<exists>\<sigma>. \<sigma> 0 = spin_init \<and> (\<forall>n. spin_step ord (\<sigma> n) (\<sigma> (Suc n))) \<and> (\<forall>n. spin_main_end (\<sigma> n) = None)"
proof -
  let ?s1 = "set_pc T1 (Loop 0) (sync_rmw SeqCst T1 (sync_load SeqCst T1 spin_init)\<lparr>lockw := 1\<rparr>)"
  let ?s2 = "sync_load SeqCst T2 ?s1"
  have m1: "spin_step ord spin_init ?s1"
    by (intro spin_stepI spin_acquire) (simp_all add: spin_init_def spin_try_lock_def compare_exchange_def)
  have w: "spin_step ord s (sync_load SeqCst T2 s)"
    if "pcs s T2 = Locking" "lockw s = 1" "\<not> race s" for s
    using that spin_again [of s T2]
    by (simp add: spin_step_def spin_try_lock_def compare_exchange_def)
  have idem: "sync_load SeqCst T2 ?s2 = ?s2"
    by (simp add: sync_load_def acquires_def vjoin_def)
  have p: "pcs ?s1 T2 = Locking" "lockw ?s1 = 1" "\<not> race ?s1" "pcs ?s1 T1 = Loop 0"
    by (simp_all add: spin_init_def)
  have l: "spin_step ord ?s2 ?s2" using w [of ?s2] p idem by simp
  let ?f = "\<lambda>n. if n = 0 then spin_init else if n = 1 then ?s1 else ?s2"
  have "spin_step ord (?f n) (?f (Suc n))" for n
    using m1 w [OF p(1-3)] l by (cases n rule: nat.exhaust [case_product nat.exhaust]) auto
  moreover have "spin_main_end (?f n) = None" for n
    using p by (simp add: spin_main_end_def spin_init_def)
  ultimately show ?thesis by (intro exI [of _ ?f] conjI allI) (simp, blast, blast)
qed

section \<open>Properties\<close>

text \<open>
  C3: The spin lock program ends under every fair scheduler, in each execution in which a thread
  that is not finished goes on again and again. With a releasing unlock both threads are done
  from some point on, without a data race on the way, and \<open>main\<close> prints the count 2000. With the
  ordering of the code, which does not release, every fair execution ends in the data race:
  no execution of the program as written is free of undefined behaviour. Fairness is needed:
  in some execution thread 2 spins for ever while thread 1, which holds the lock, is never
  scheduled.
\<close>

theorem spin_ends_when_fair:
  assumes "execution spin_init (spin_step ord) \<sigma>" and "fair spin_acts spin_live \<sigma>"
  shows "(\<exists>n. \<forall>m \<ge> n. spin_main_end (\<sigma> m) =
      Some (if releases ord then Inr ''main: end with counter = 2000'' else Inl (UB ''data race''))) \<and>
    (releases ord \<longrightarrow> (\<forall>m. \<not> race (\<sigma> m))) \<and> \<not> releases UNLOCK_ORDERING \<and>
    (\<exists>\<tau>. execution spin_init (spin_step ord) \<tau> \<and> (\<forall>n. spin_main_end (\<tau> n) = None))"
proof (intro conjI impI allI)
  obtain n where n: "spin_over (\<sigma> n)"
    using spin_fair.eventually_goal [OF assms, of 0] by blast
  from spin_over_end [OF execution_reach [OF assms(1)] n] execution_over_stays [OF assms(1) n]
  show "\<exists>n. \<forall>m \<ge> n. spin_main_end (\<sigma> m) =
      Some (if releases ord then Inr ''main: end with counter = 2000'' else Inl (UB ''data race''))"
    unfolding spin_result_def by metis
  show "\<not> race (\<sigma> m)" if "releases ord" for m
    using sl.inv_reach [OF execution_reach [OF assms(1)]] that by (auto simp: race_inv_def)
  show "\<not> releases UNLOCK_ORDERING" by (simp add: UNLOCK_ORDERING_def releases_def)
  show "\<exists>\<tau>. execution spin_init (spin_step ord) \<tau> \<and> (\<forall>n. spin_main_end (\<tau> n) = None)"
    using spin_starves [of ord] unfolding execution_def by blast
qed

text \<open>Fair executions exist: a run that is not cut short ends, for either ordering.\<close>

lemma fair_run:
  "\<exists>\<sigma>. execution spin_init (spin_step ord) \<sigma> \<and> fair spin_acts spin_live \<sigma>"
proof -
  obtain s' where s': "(spin_move ord)\<^sup>*\<^sup>* spin_init s'" "spin_over s'" "spin_inv s'"
    using spin_finishes [OF spin_inv_init] by blast
  obtain k where k: "(spin_step ord ^^ k) spin_init s'"
    using spin_moves_steps [OF s'(1)] unfolding rtranclp_power by blast
  have "\<not> spin_live a s'" for a
    using s'(2) by (cases a) (auto simp: spin_live_def spin_over_def)
  with finite_run_fair [OF k spin_over_stays [OF s'(2)]] show ?thesis by blast
qed

lemma spin_ends_when_fair_witness:
  "(\<exists>\<sigma> n. execution spin_init (spin_step Release) \<sigma> \<and> fair spin_acts spin_live \<sigma> \<and>
     spin_main_end (\<sigma> n) = Some (Inr ''main: end with counter = 2000'')) \<and>
   (\<exists>\<sigma> n. execution spin_init (spin_step UNLOCK_ORDERING) \<sigma> \<and> fair spin_acts spin_live \<sigma> \<and>
     spin_main_end (\<sigma> n) = Some (Inl (UB ''data race'')))"
proof -
  have r: "releases Release" "\<not> releases UNLOCK_ORDERING"
    by (simp_all add: UNLOCK_ORDERING_def releases_def)
  obtain \<sigma> \<tau> where "execution spin_init (spin_step Release) \<sigma>" "fair spin_acts spin_live \<sigma>"
      "execution spin_init (spin_step UNLOCK_ORDERING) \<tau>" "fair spin_acts spin_live \<tau>"
    using fair_run by metis
  moreover from this obtain n where "spin_main_end (\<sigma> n) = Some (Inr ''main: end with counter = 2000'')"
    using spin_ends_when_fair [of Release \<sigma>] r(1) by auto
  moreover from calculation obtain m where "spin_main_end (\<tau> m) = Some (Inl (UB ''data race''))"
    using spin_ends_when_fair [of UNLOCK_ORDERING \<tau>] r(2) by auto
  ultimately show ?thesis by blast
qed

text \<open>
  C25: No deadlock, and no other end. As long as \<open>main\<close> has not ended some thread can move on, and
  from every reachable state the program can reach its end, which is always the same: the
  count 2000 with a releasing unlock, the data race with one that does not release, as in the
  code. Apart from failed rounds of the spin loop every execution has at most 4004 steps, and
  at most 2004 before the race.
\<close>

theorem spin_can_finish:
  assumes "reach spin_init (spin_step ord) s"
  shows "(spin_main_end s = None \<longrightarrow> (\<exists>s'. spin_move ord s s')) \<and>
    (spin_main_end s = None \<or> spin_main_end s = Some (spin_result ord)) \<and>
    (\<exists>s'. (spin_move ord)\<^sup>*\<^sup>* s s' \<and> spin_main_end s' = Some (spin_result ord)) \<and>
    (\<forall>n s'. (spin_move ord ^^ n) s s' \<longrightarrow> n \<le> (if releases ord then 4004 else 2004))"
proof (intro conjI impI allI)
  have inv: "spin_inv s" using sl.inv_reach [OF assms] by blast
  show "\<exists>s'. spin_move ord s s'" if "spin_main_end s = None"
    using that spin_progress [OF inv] unfolding spin_main_end_None [OF inv] spin_over_def by blast
  show "spin_main_end s = None \<or> spin_main_end s = Some (spin_result ord)"
    using spin_main_end_None [OF inv] spin_over_end [OF assms] by blast
  obtain s' where s': "(spin_move ord)\<^sup>*\<^sup>* s s'" "spin_over s'"
    using spin_finishes [OF inv] by blast
  with spin_over_end [OF reach_steps [OF assms spin_moves_steps]]
  show "\<exists>s'. (spin_move ord)\<^sup>*\<^sup>* s s' \<and> spin_main_end s' = Some (spin_result ord)" by blast
  fix n s'
  assume m: "(spin_move ord ^^ n) s s'"
  then have "(spin_step ord)\<^sup>*\<^sup>* s s'" using spin_moves_steps relpowp_imp_rtranclp by metis
  with slr.inv_reach [OF reach_steps [OF assms]] relaxed_inv_work
  have "\<not> releases ord \<longrightarrow> 2000 \<le> spin_work s'" by blast
  with slm.run_bounded [OF inv m] spin_work_le [of s]
  show "n \<le> (if releases ord then 4004 else 2004)" by auto
qed

lemma spin_can_finish_witness:
  "(\<exists>s'. (spin_move Release)\<^sup>*\<^sup>* spin_init s' \<and>
     spin_main_end s' = Some (Inr ''main: end with counter = 2000'')) \<and>
   (\<exists>s'. (spin_move UNLOCK_ORDERING)\<^sup>*\<^sup>* spin_init s' \<and> spin_main_end s' = Some (Inl (UB ''data race'')))"
proof -
  have "spin_result Release = Inr ''main: end with counter = 2000''"
    "spin_result UNLOCK_ORDERING = Inl (UB ''data race'')"
    by (simp_all add: spin_result_def UNLOCK_ORDERING_def releases_def)
  with spin_can_finish [OF reach_start, of Release] spin_can_finish [OF reach_start, of UNLOCK_ORDERING]
  show ?thesis by metis
qed

end
