(* ===== verification/GreenFair.thy ===== *)
theory GreenFair
  imports GreenSwitch Fairness
begin

text \<open>
  Liveness of the green threads on the machine: in executions in which the running thread
  gives the CPU away again and again, as cooperating threads have to, every parked thread is
  resumed at the place where it is parked.
\<close>

section \<open>Cooperation\<close>

text \<open>The one actor is the running thread, and what it has to do is to call \<open>t_yield\<close>.\<close>

definition gives_cpu :: "unit \<Rightarrow> Runtime \<times> mach \<Rightarrow> Runtime \<times> mach \<Rightarrow> bool" where
  "gives_cpu u s t \<longleftrightarrow> current (fst t) \<noteq> current (fst s)"

definition someone_waits :: "unit \<Rightarrow> Runtime \<times> mach \<Rightarrow> bool" where
  "someone_waits u s \<longleftrightarrow> (\<exists>j < MAX_THREADS. state (threads (fst s) ! j) = Ready)"

lemma next_parked_first:
  assumes "cur < MAX_THREADS" and "next_parked ps cur = Some p"
    and "j < MAX_THREADS" and "ps j \<noteq> None"
  shows "p < MAX_THREADS" and "turns MAX_THREADS cur p \<le> turns MAX_THREADS cur j"
proof -
  from assms(2) obtain k where k: "k < MAX_THREADS" "p = (cur + k) mod MAX_THREADS"
    and min: "\<And>i. i < k \<Longrightarrow> ps ((cur + i) mod MAX_THREADS) = None"
    by (auto simp: next_parked_def find_Some_iff)
  have "\<not> turns MAX_THREADS cur j < k"
    using min [of "turns MAX_THREADS cur j"] turns_round [OF assms(1,3)] assms(4) by auto
  then show "turns MAX_THREADS cur p \<le> turns MAX_THREADS cur j"
    using turns_eq [OF assms(1) k(1)] k(2) by simp
  show "p < MAX_THREADS" by (simp add: k(2) MAX_THREADS_def)
qed

text \<open>A step of the coroutines either keeps the CPU or brings it closer to a parked one.\<close>

lemma coro_step_closer:
  assumes "coro_step ra bases l s t" and "running s < MAX_THREADS" and "parked s (running s) = None"
    and "i < MAX_THREADS" and "parked s i = Some x"
  shows "running t = running s \<or> running t = i \<or>
    turns MAX_THREADS (running t) i < turns MAX_THREADS (running s) i"
  using assms(1)
proof (cases rule: coro_step.cases)
  case (coro_yield p y)
  with assms(3) have "p \<noteq> running s" by auto
  moreover note next_parked_first [OF assms(2) coro_yield(3) assms(4)]
  ultimately show ?thesis using turns_advance [OF assms(2) _ assms(4)] assms(5) coro_yield(2) by auto
qed auto

lemma sys_inv_running:
  assumes "sys_inv os bases s"
  shows "running (coro_of s) < MAX_THREADS" and "parked (coro_of s) (running (coro_of s)) = None"
proof -
  obtain rt c where s: "s = (rt, c)" by (rule prod.exhaust)
  note d = sys_invD [OF assms [unfolded s]]
  show "running (coro_of s) < MAX_THREADS" "parked (coro_of s) (running (coro_of s)) = None"
    using d(4,7) by (simp_all add: s)
qed

lemma parked_waits: "parked (coro_of s) i = Some x \<Longrightarrow> i < MAX_THREADS \<and> someone_waits u s"
  by (cases s) (auto simp: someone_waits_def split: if_splits)

text \<open>What is asked for: thread \<open>i\<close>, parked at \<open>x\<close>, comes to run at \<open>x\<close>.\<close>

definition awaits :: "nat set \<Rightarrow> (nat \<Rightarrow> nat) \<Rightarrow>
    (full_context \<Rightarrow> full_context \<Rightarrow> mach \<Rightarrow> full_context \<times> mach) \<Rightarrow>
    nat \<Rightarrow> u64 \<times> full_context \<Rightarrow> Runtime \<times> mach \<Rightarrow> bool" where
  "awaits os bases switch i x s \<longleftrightarrow>
     separate os bases \<and> saves_and_loads switch \<and> parked_at i x s"

definition resumed :: "nat \<Rightarrow> u64 \<times> full_context \<Rightarrow> Runtime \<times> mach \<Rightarrow> bool" where
  "resumed i x s \<longleftrightarrow> current (fst s) = i \<and> (pc (snd s), regs (snd s)) = x"

lemma awaits_step:
  assumes inv: "sys_inv os bases s" and p: "awaits os bases switch i x s"
    and st: "sys_step switch ra guard os bases s t"
  shows "resumed i x t \<or> awaits os bases switch i x t \<and>
    (turns MAX_THREADS (current (fst t)) i < turns MAX_THREADS (current (fst s)) i \<or>
     \<not> gives_cpu () s t)"
proof (cases "current (fst t) = i")
  case True
  from p have a: "separate os bases" "saves_and_loads switch" "parked_at i x s"
    by (simp_all add: awaits_def)
  with parked_waits have "i < MAX_THREADS" unfolding parked_at_def by blast
  from sys_step_parked(1) [OF a(1,2) inv this a(3) st] True show ?thesis by (simp add: resumed_def)
next
  case False
  from p have a: "separate os bases" "saves_and_loads switch" "parked_at i x s"
    by (simp_all add: awaits_def)
  with parked_waits have i: "i < MAX_THREADS" unfolding parked_at_def by blast
  from sys_step_parked(1) [OF a(1,2) inv i a(3) st] False a
  have "awaits os bases switch i x t" by (simp add: awaits_def)
  moreover obtain l where "coro_step ra bases l (coro_of s) (coro_of t)"
    using sys_step_simulates [OF a(1,2) inv st] by blast
  from coro_step_closer [OF this sys_inv_running [OF inv] i] a(3) False
  have "current (fst t) = current (fst s) \<or>
      turns MAX_THREADS (current (fst t)) i < turns MAX_THREADS (current (fst s)) i"
    by (cases s; cases t) (auto simp: parked_at_def)
  ultimately show ?thesis by (auto simp: gives_cpu_def)
qed

interpretation green_fair: fair_progress "(Runtime_new bases, c0)" "sys_step switch ra guard os bases"
  "\<lambda>s. separate os bases \<and> saves_and_loads switch \<longrightarrow> sys_inv os bases s"
  gives_cpu someone_waits "awaits os bases switch i x" "resumed i x" "\<lambda>_. ()"
  "\<lambda>s. turns MAX_THREADS (current (fst s)) i"
  for bases c0 switch ra guard os i x
proof unfold_locales
  fix s t
  assume "separate os bases \<and> saves_and_loads switch \<longrightarrow> sys_inv os bases s"
    and p: "awaits os bases switch i x s"
  then have inv: "sys_inv os bases s" by (simp add: awaits_def)
  show "someone_waits () s" using p parked_waits unfolding awaits_def parked_at_def by blast
  show "\<exists>t. sys_step switch ra guard os bases s t"
    by (cases s) (auto intro!: exI sys_run)
  assume st: "sys_step switch ra guard os bases s t"
  have "current (fst t) = current (fst s)" if "\<not> gives_cpu () s t"
    using that by (simp add: gives_cpu_def)
  with awaits_step [OF inv p st]
  show "resumed i x t \<or> awaits os bases switch i x t \<and>
      (turns MAX_THREADS (current (fst t)) i < turns MAX_THREADS (current (fst s)) i \<or>
       turns MAX_THREADS (current (fst t)) i = turns MAX_THREADS (current (fst s)) i \<and>
       () = () \<and> \<not> gives_cpu () s t)" by metis
qed

section \<open>Two threads that yield to each other\<close>

definition room_at :: "nat set \<Rightarrow> (nat \<Rightarrow> nat) \<Rightarrow> nat \<Rightarrow> full_context \<Rightarrow> bool" where
  "room_at os bases j r \<longleftrightarrow>
     8 \<le> unat (rsp r) \<and> {unat (rsp r) - 8 ..< unat (rsp r)} \<subseteq> area os bases j"

definition ping_pong :: "nat set \<Rightarrow> (nat \<Rightarrow> nat) \<Rightarrow> Runtime \<times> mach \<Rightarrow> bool" where
  "ping_pong os bases s \<longleftrightarrow> sys_inv os bases s \<and>
     (\<exists>k y. parked (coro_of s) = [k \<mapsto> y] \<and> room_at os bases k (snd y) \<and>
        room_at os bases (running (coro_of s)) (snd (now (coro_of s))))"

lemma ping_pong_step:
  assumes sep: "separate os bases" and sw: "saves_and_loads switch" and p: "ping_pong os bases s"
  shows "\<exists>t. sys_step switch ra guard os bases s t \<and> gives_cpu () s t \<and> ping_pong os bases t"
proof -
  obtain rt c where s: "s = (rt, c)" by (rule prod.exhaust)
  from p have inv: "sys_inv os bases (rt, c)" by (simp add: ping_pong_def s)
  note d = sys_invD [OF inv]
  from p obtain k y where k: "parked (coro_of s) = [k \<mapsto> y]" "room_at os bases k (snd y)"
      "room_at os bases (running (coro_of s)) (snd (now (coro_of s)))"
    unfolding ping_pong_def by blast
  from k(1) have "parked (coro_of s) k = Some y" by simp
  then have r: "k < length (threads rt)" "state (threads rt ! k) = Ready"
    by (simp_all add: s d(3) split: if_splits)
  obtain rt' c' where y: "t_yield (call_switch switch ra) c rt = Some (Inr (SwitchedTo rt' c'))"
    by (rule t_yield_progress [OF d(1) r])
  have room: "has_room os bases rt c" using k(3) by (simp add: s has_room_def room_at_def)
  note sim = yield_simulates(1,2) [OF sep inv sw room y]
  have st: "sys_step switch ra guard os bases s (rt', c')" unfolding s by (rule sys_yield [OF room y])
  have ch: "current rt' \<noteq> current rt"
    by (rule yield_effect [OF inv sw y]) simp
  from sim(2) have "coro_of (rt', c') = \<lparr>running = k, now = y,
      parked = [running (coro_of s) \<mapsto> (ra, snd (now (coro_of s)))]\<rparr>"
  proof (cases rule: coro_step.cases)
    case (coro_yield q z)
    then have "[k \<mapsto> y] q = Some z" using k(1) by (simp only: s)
    then have "q = k" "z = y" by (simp_all split: if_splits)
    with coro_yield k(1) show ?thesis by (simp only: s) simp
  qed
  with k sim(1) have "ping_pong os bases (rt', c')" by (auto simp: ping_pong_def)
  with st ch show ?thesis by (auto simp: gives_cpu_def s)
qed

section \<open>Properties\<close>

text \<open>
  C5: No starvation on the machine. In an execution in which a thread that runs while others are
  ready calls \<open>t_yield\<close> sooner or later, every thread that is parked is resumed later on, at
  the instruction and with the registers it was parked with: after its own yield, or at the
  entry of the function it was spawned with.
\<close>

theorem parked_thread_resumes:
  assumes "separate os bases" and "saves_and_loads switch"
    and "execution (Runtime_new bases, c0) (sys_step switch ra guard os bases) \<sigma>"
    and "fair gives_cpu someone_waits \<sigma>"
    and "parked (coro_of (\<sigma> n)) i = Some x"
  shows "\<exists>m > n. running (coro_of (\<sigma> m)) = i \<and> now (coro_of (\<sigma> m)) = x"
proof -
  have inv: "sys_inv os bases (\<sigma> n)"
    using reach_sys_inv [OF execution_reach [OF assms(3)] assms(1,2)] .
  have ne: "running (coro_of (\<sigma> n)) \<noteq> i" using sys_inv_running(2) [OF inv] assms(5) by auto
  then have "awaits os bases switch i x (\<sigma> n)"
    using assms(1,2,5) by (simp add: awaits_def parked_at_def)
  from green_fair.eventually_goal [OF assms(3,4) this]
  obtain m where m: "n \<le> m" "resumed i x (\<sigma> m)" by blast
  then have r: "running (coro_of (\<sigma> m)) = i" "now (coro_of (\<sigma> m)) = x"
    by (cases "\<sigma> m"; simp add: resumed_def)+
  with ne m(1) have "n < m" by (cases "n = m") simp_all
  with r show ?thesis by blast
qed

text \<open>Main spawns a thread and the two yield to each other for ever.\<close>

lemma spawned_ping_pong:
  "\<exists>t. sys_step sample_switch 5 7 sample_os sample_bases (Runtime_new sample_bases, sample_mach) t \<and>
     ping_pong sample_os sample_bases t \<and> (\<exists>r. parked (coro_of t) 1 = Some (9, r))"
proof -
  let ?rt0 = "Runtime_new sample_bases"
  obtain rt where s: "spawn 7 9 ?rt0 = Inr rt"
    by (rule main_setup [OF sample_bases_ok, of 7 9 9]) (auto simp: gt_main_setup_def obind_eq_Inr)
  have i: "find_available (threads ?rt0) = Some 1"
    by (simp add: Runtime_new_threads Thread_new_def)
  define top' where "top' = stack_top (stack (threads ?rt0 ! 1))"
  define c where "c = spawn_stores 7 9 top' sample_mach"
  have st: "sys_step sample_switch 5 7 sample_os sample_bases (?rt0, sample_mach) (rt, c)"
    unfolding c_def top'_def by (rule sys_spawn [OF s i])
  have "reach (?rt0, sample_mach) (sys_step sample_switch 5 7 sample_os sample_bases) (rt, c)"
    by (rule reach_step [OF reach_start]) (rule st)
  note inv = reach_sys_inv [OF this sample_separate sample_switch_ok]
  note e = spawn_effect [OF sys_inv_start [OF sample_bases_ok, of sample_os sample_mach] s i, folded top'_def]
  have e1: "current rt = 0" "state (threads rt ! 1) = Ready"
      "unat (rsp (ctx (threads rt ! 1))) = top' - 32" "sample_bases 1 + 64 \<le> top'"
      "top' \<le> sample_bases 1 + DEFAULT_STACK_SIZE" "top' < 2 ^ 64"
    by (rule e, simp add: Runtime_new_threads)+
  have same: "threads rt ! j = threads ?rt0 ! j" if "j < MAX_THREADS" "j \<noteq> 1" for j
    using that by (rule_tac e) blast
  have fresh: "state (threads ?rt0 ! j) \<noteq> Ready" if "j < MAX_THREADS" for j
    using that unfolding MAX_THREADS_range Runtime_new_threads
    by (elim disjE) (simp_all add: Thread_new_def)
  let ?r = "(ctx (threads rt ! 1))\<lparr>rsp := rsp (ctx (threads rt ! 1)) + 8\<rparr>"
  have "word_at (mem c) (top' - 32) = 9" by (simp add: c_def spawn_stores_def)
  then have "parked (coro_of (rt, c)) 1 = Some (9, ?r)"
    using e1(2,3) by (simp add: MAX_THREADS_def resume_point_def)
  moreover have "parked (coro_of (rt, c)) j = None" if "j \<noteq> 1" for j
    using that same [of j] fresh [of j] by auto
  ultimately have p: "parked (coro_of (rt, c)) = [1 \<mapsto> (9, ?r)]"
    by (intro ext) (simp only: fun_upd_apply split: if_split, blast)
  have "unat (rsp ?r) = top' - 24" using unat_add8 [OF e1(3)] e1(4,6) by simp
  then have "room_at sample_os sample_bases 1 ?r"
    using e1(4,5) by (auto simp: room_at_def area_def)
  moreover have "room_at sample_os sample_bases 0 (regs c)"
    by (auto simp: room_at_def c_def spawn_stores_def sample_mach_def area_def sample_os_def)
  ultimately have "ping_pong sample_os sample_bases (rt, c)"
    using inv p e1(1) by (auto simp: ping_pong_def)
  moreover have "parked (coro_of (rt, c)) 1 = Some (9, ?r)" by (simp only: p fun_upd_same)
  ultimately show ?thesis using st by blast
qed

lemma parked_thread_resumes_witness:
  "\<exists>\<sigma> m. execution (Runtime_new sample_bases, sample_mach)
       (sys_step sample_switch 5 7 sample_os sample_bases) \<sigma> \<and>
     fair gives_cpu someone_waits \<sigma> \<and>
     running (coro_of (\<sigma> m)) = 1 \<and> fst (now (coro_of (\<sigma> m))) = 9"
proof -
  let ?start = "(Runtime_new sample_bases, sample_mach)"
  let ?step = "sys_step sample_switch 5 7 sample_os sample_bases"
  obtain s1 r where s1: "?step ?start s1" "ping_pong sample_os sample_bases s1" "parked (coro_of s1) 1 = Some (9, r)"
    using spawned_ping_pong by blast
  let ?P = "\<lambda>n s. ping_pong sample_os sample_bases s \<and> (n = 0 \<longrightarrow> s = s1)"
  have "\<exists>f. \<forall>n. ?P n (f n) \<and> (?step (f n) (f (Suc n)) \<and> gives_cpu () (f n) (f (Suc n)))"
    by (rule dependent_nat_choice)
      (use s1(2) ping_pong_step [OF sample_separate sample_switch_ok] in blast)+
  then obtain f where f: "\<And>n. ?P n (f n)" "\<And>n. ?step (f n) (f (Suc n))" "\<And>n. gives_cpu () (f n) (f (Suc n))"
    by blast
  let ?run = "\<lambda>n. case n of 0 \<Rightarrow> ?start | Suc k \<Rightarrow> f k"
  have e: "execution ?start ?step ?run"
    using s1(1) f(1) [of 0] f(2) by (auto simp: execution_def split: nat.splits)
  have fa: "fair gives_cpu someone_waits ?run"
    unfolding fair_def
  proof (intro allI)
    fix a :: unit and n
    show "\<exists>m \<ge> n. gives_cpu a (?run m) (?run (Suc m)) \<or> \<not> someone_waits a (?run m)"
      using f(3) [of n] by (intro exI [of _ "Suc n"]) simp
  qed
  have p: "parked (coro_of (?run 1)) 1 = Some (9, r)" using f(1) [of 0] s1(3) by simp
  from parked_thread_resumes [OF sample_separate sample_switch_ok e fa p]
  obtain m where "running (coro_of (?run m)) = 1" "now (coro_of (?run m)) = (9, r)" by blast
  with e fa show ?thesis by (intro exI [of _ ?run] exI [of _ m]) simp
qed

end
