(* ===== verification/DropCheck.thy ===== *)
theory DropCheck
  imports DropOrder
begin

text \<open>
  The rule behind \<^verbatim>\<open>drop_check/src/main.rs\<close>: data borrowed by a value with a destructor has to
  strictly outlive the value, unless the destructor is declared not to look at it
  (\<open>may_dangle\<close>). Variables are dropped in reverse order of declaration; the order of the
  fields, and what a destructor reads of what it borrows, is left open, as the comments of the
  file argue. The check is shown to accept exactly the functions that never fault.
\<close>

section \<open>Variables and their destructors\<close>

text \<open>
  A field owns the box at an address, or is an inspector that borrows addresses; the flag says
  whether its \<open>Drop\<close> has \<open>may_dangle\<close>.
\<close>

datatype dfield = Owner nat | Insp bool "nat list"

type_synonym dvar = "dfield list"

fun owned_by :: "dfield \<Rightarrow> nat list" where
  "owned_by (Owner a) = [a]"
| "owned_by (Insp m rs) = []"

definition owned :: "dvar \<Rightarrow> nat list" where
  "owned v = concat (map owned_by v)"

text \<open>A behaviour of the destructors: the addresses an inspector reads when it is dropped.\<close>

type_synonym behaviour = "bool \<Rightarrow> nat list \<Rightarrow> nat list"

definition honest :: "behaviour \<Rightarrow> bool" where
  "honest b \<longleftrightarrow> (\<forall>rs. b True rs = [] \<and> set (b False rs) \<subseteq> set rs)"

text \<open>
  The destructors of the file: the one that prints the days, and the ones that know when not to
  inspect.
\<close>

definition looking :: behaviour where
  "looking m rs = rs"

definition blind :: behaviour where
  "blind m rs = []"

definition read_all :: "nat list \<Rightarrow> heap \<Rightarrow> heap outcome" where
  "read_all as h = ofold (\<lambda>a h. obind (read_cell h a) (\<lambda>_. Inr h)) as h"

fun drop_dfield :: "behaviour \<Rightarrow> dfield \<Rightarrow> heap \<Rightarrow> heap outcome" where
  "drop_dfield b (Owner a) h = deallocate a h"
| "drop_dfield b (Insp m rs) h = read_all (b m rs) h"

text \<open>\<open>ord\<close> is the order in which the fields of a variable are dropped.\<close>

definition drop_var :: "behaviour \<Rightarrow> (dvar \<Rightarrow> dvar) \<Rightarrow> dvar \<Rightarrow> heap \<Rightarrow> heap outcome" where
  "drop_var b ord v h = ofold (drop_dfield b) (ord v) h"

definition drop_vars :: "behaviour \<Rightarrow> (dvar \<Rightarrow> dvar) \<Rightarrow> dvar list \<Rightarrow> heap \<Rightarrow> heap outcome" where
  "drop_vars b ord vs h = ofold (drop_var b ord) (rev vs) h"

definition reorders :: "(dvar \<Rightarrow> dvar) \<Rightarrow> bool" where
  "reorders ord \<longleftrightarrow> (\<forall>v. mset (ord v) = mset v)"

section \<open>The check\<close>

text \<open>
  \<open>env\<close> is what earlier variables own. Every borrow has to be of those or of the variable
  itself; with a destructor that may look, of those only.
\<close>

fun field_ok :: "bool \<Rightarrow> nat list \<Rightarrow> dvar \<Rightarrow> dfield \<Rightarrow> bool" where
  "field_ok strict env v (Owner a) = True"
| "field_ok strict env v (Insp m rs) =
     list_all (\<lambda>r. r \<in> set env \<or> (\<not> strict \<or> m) \<and> r \<in> set (owned v)) rs"

fun check_vars :: "bool \<Rightarrow> nat list \<Rightarrow> dvar list \<Rightarrow> bool" where
  "check_vars strict env [] = True"
| "check_vars strict env (v # vs) =
     (list_all (field_ok strict env v) v \<and> check_vars strict (env @ owned v) vs)"

text \<open>The borrow check alone, and with the drop check.\<close>

definition borrow_check :: "dvar list \<Rightarrow> bool" where
  "borrow_check vs = check_vars False [] vs"

definition drop_check :: "dvar list \<Rightarrow> bool" where
  "drop_check vs = check_vars True [] vs"

section \<open>The functions of the file\<close>

text \<open>
  A \<open>World\<close> as a variable: the inspector of the kind of the function, and the box. The
  functions as they are written, and with the assignment of their comments.
\<close>

definition world_var :: "bool \<Rightarrow> world \<Rightarrow> dvar" where
  "world_var m w =
     (case inspector w of None \<Rightarrow> [] | Some i \<Rightarrow> [Insp m [fst i]]) @ [Owner (days w)]"

definition plain_world :: "bool \<Rightarrow> nat \<Rightarrow> dvar list" where
  "plain_world m a = [world_var m \<lparr>inspector = None, days = a\<rparr>]"

definition assigned_world :: "bool \<Rightarrow> string \<Rightarrow> nat \<Rightarrow> dvar list" where
  "assigned_world m s a = [world_var m \<lparr>inspector = Some (a, s), days = a\<rparr>]"

text \<open>The generic inspector of \<open>drop_check3\<close> at the type of its comment, \<open>T = &u8\<close>.\<close>

definition drop_check3 :: "nat \<Rightarrow> dvar list" where
  "drop_check3 a = assigned_world False ''gadget'' a"

section \<open>Dropping in a heap\<close>

lemma read_all_live: "(\<And>a. a \<in> set as \<Longrightarrow> h a \<noteq> None) \<Longrightarrow> read_all as h = Inr h"
  by (induction as) (auto simp: read_all_def read_cell_def split: option.splits)

lemma read_all_dead: "a \<in> set as \<Longrightarrow> h a = None \<Longrightarrow> \<exists>u. read_all as h = Inl (UB u)"
proof (induction as)
  case Nil
  then show ?case by simp
next
  case (Cons b as)
  then show ?case
    by (cases "h b") (auto simp: read_all_def read_cell_def)
qed

lemma read_all_same: "read_all as h = Inr h' \<Longrightarrow> h' = h"
proof (induction as)
  case Nil
  then show ?case by (simp add: read_all_def)
next
  case (Cons b as)
  then show ?case by (cases "read_cell h b") (auto simp: read_all_def)
qed

definition without_cells :: "nat list \<Rightarrow> heap \<Rightarrow> heap" where
  "without_cells as h = (\<lambda>a. if a \<in> set as then None else h a)"

lemma without_cells_simps [simp]:
  "without_cells [] h = h" "without_cells as h a = (if a \<in> set as then None else h a)"
  by (simp_all add: without_cells_def)

lemma owned_simps [simp]:
  "owned [] = []" "owned (f # v) = owned_by f @ owned v"
  by (simp_all add: owned_def)

lemma owned_append [simp]: "owned (v @ w) = owned v @ owned w"
  by (simp add: owned_def)

lemma owned_mset: "mset v = mset w \<Longrightarrow> mset (owned v) = mset (owned w)"
proof -
  have "mset (owned v) = \<Sum>\<^sub># (image_mset (mset \<circ> owned_by) (mset v))" for v
    by (induction v) simp_all
  then show "mset v = mset w \<Longrightarrow> mset (owned v) = mset (owned w)" by simp
qed

lemma owned_reorders: "reorders ord \<Longrightarrow> mset (owned (ord v)) = mset (owned v)"
  by (intro owned_mset) (simp add: reorders_def)

text \<open>
  Dropping fields whose boxes are live, when everything an inspector reads is live and not
  among the boxes of these fields.
\<close>

lemma drop_fields_ok:
  assumes "distinct (owned v)" and "\<And>a. a \<in> set (owned v) \<Longrightarrow> h a \<noteq> None"
    and "\<And>m rs r. Insp m rs \<in> set v \<Longrightarrow> r \<in> set (b m rs) \<Longrightarrow> h r \<noteq> None \<and> r \<notin> set (owned v)"
  shows "ofold (drop_dfield b) v h = Inr (without_cells (owned v) h)"
  using assms
proof (induction v arbitrary: h)
  case Nil
  then show ?case by simp
next
  case (Cons f v)
  show ?case
  proof (cases f)
    case (Owner a)
    have "ofold (drop_dfield b) v (h(a := None)) = Inr (without_cells (owned v) (h(a := None)))"
      by (rule Cons.IH) (use Cons.prems Owner in \<open>fastforce+\<close>)
    moreover have "without_cells (owned v) (h(a := None)) = without_cells (owned (f # v)) h"
      by (auto simp: Owner fun_eq_iff)
    moreover have "h a \<noteq> None" using Cons.prems(2) Owner by simp
    ultimately show ?thesis by (simp add: Owner deallocate_def without_cells_def)
  next
    case (Insp m rs)
    have "read_all (b m rs) h = Inr h"
      by (rule read_all_live) (use Cons.prems(3) [of m rs] Insp in auto)
    moreover have "ofold (drop_dfield b) v h = Inr (without_cells (owned v) h)"
      by (rule Cons.IH) (use Cons.prems Insp in \<open>auto, blast+\<close>)
    ultimately show ?thesis by (simp add: Insp without_cells_def)
  qed
qed

text \<open>Every fault of dropping is undefined behaviour, not a panic.\<close>

lemma read_all_UB: "read_all as h = Inl e \<Longrightarrow> \<exists>u. e = UB u"
proof (induction as)
  case Nil
  then show ?case by (simp add: read_all_def)
next
  case (Cons a as)
  then show ?case by (cases "h a") (auto simp: read_all_def read_cell_def)
qed

lemma drop_dfield_UB: "drop_dfield b f h = Inl e \<Longrightarrow> \<exists>u. e = UB u"
  by (cases f) (auto simp: deallocate_def read_all_UB split: if_splits)

lemma ofold_UB:
  "(\<And>x s e. f x s = Inl e \<Longrightarrow> \<exists>u. e = UB u) \<Longrightarrow> ofold f xs s = Inl e \<Longrightarrow> \<exists>u. e = UB u"
proof (induction xs arbitrary: s)
  case Nil
  then show ?case by simp
next
  case (Cons x xs)
  from Cons.prems(2) consider "f x s = Inl e" | t where "f x s = Inr t" "ofold f xs t = Inl e"
    by (auto simp: obind_eq_Inl)
  then show ?case using Cons.prems(1) Cons.IH by cases blast+
qed

lemma drop_vars_UB: "drop_vars b ord vs h = Inl e \<Longrightarrow> \<exists>u. e = UB u"
  unfolding drop_vars_def drop_var_def by (rule ofold_UB [OF ofold_UB [OF drop_dfield_UB]])

lemma drop_vars_Cons:
  "drop_vars b ord (v # vs) h = obind (drop_vars b ord vs h) (drop_var b ord v)"
proof -
  have "ofold (drop_var b ord) [v] = drop_var b ord v"
  proof
    show "ofold (drop_var b ord) [v] s = drop_var b ord v s" for s
      by (cases "drop_var b ord v s") simp_all
  qed
  then show ?thesis by (simp add: drop_vars_def ofold_append)
qed

section \<open>What the check accepts\<close>

lemma accepted_vars_drop:
  assumes "honest b" and "reorders ord"
  shows "check_vars True env vs \<Longrightarrow> distinct (env @ owned (concat vs)) \<Longrightarrow>
    (\<And>a. a \<in> set (env @ owned (concat vs)) \<Longrightarrow> h a \<noteq> None) \<Longrightarrow>
    drop_vars b ord vs h = Inr (without_cells (owned (concat vs)) h)"
proof (induction vs arbitrary: env)
  case Nil
  then show ?case by (simp add: drop_vars_def)
next
  case (Cons v vs)
  let ?h = "without_cells (owned (concat vs)) h"
  from Cons.prems have "drop_vars b ord vs h = Inr ?h"
    by (intro Cons.IH [of "env @ owned v"]) auto
  moreover have "ofold (drop_dfield b) (ord v) ?h = Inr (without_cells (owned (ord v)) ?h)"
  proof (rule drop_fields_ok)
    have s: "set (ord v) = set v" using assms(2) unfolding reorders_def by (metis set_mset_mset)
    note m = owned_reorders [OF assms(2), of v]
    from m have o: "set (owned (ord v)) = set (owned v)" by (metis set_mset_mset)
    show "distinct (owned (ord v))" using Cons.prems(2) mset_eq_imp_distinct_iff [OF m] by simp
    show "?h a \<noteq> None" if "a \<in> set (owned (ord v))" for a
      using that o Cons.prems(2,3) by auto
    show "?h r \<noteq> None \<and> r \<notin> set (owned (ord v))" if "Insp m rs \<in> set (ord v)" "r \<in> set (b m rs)" for m rs r
    proof -
      from that(2) assms(1) have "\<not> m" "r \<in> set rs" unfolding honest_def by (cases m; auto)+
      moreover have "field_ok True env v (Insp m rs)"
        using Cons.prems(1) that(1) s unfolding check_vars.simps list_all_iff by blast
      ultimately have "r \<in> set env" by (simp add: list_all_iff)
      with Cons.prems(2,3) show ?thesis by (auto simp: o)
    qed
  qed
  moreover have "without_cells (owned (ord v)) ?h = without_cells (owned (concat (v # vs))) h"
    using owned_reorders [OF assms(2), of v] by (auto simp: fun_eq_iff dest: mset_eq_setD)
  ultimately show ?case by (simp add: drop_vars_Cons drop_var_def without_cells_def)
qed

section \<open>What the check rejects\<close>

text \<open>The destructors that look at everything, and the order that drops the boxes first.\<close>

definition nosy :: behaviour where
  "nosy m rs = (if m then [] else rs)"

fun is_owner :: "dfield \<Rightarrow> bool" where
  "is_owner (Owner a) = True"
| "is_owner (Insp m rs) = False"

definition owners_first :: "dvar \<Rightarrow> dvar" where
  "owners_first v = filter is_owner v @ filter (\<lambda>f. \<not> is_owner f) v"

lemma nosy_honest: "honest nosy"
  by (simp add: honest_def nosy_def)

lemma owners_first_reorders: "reorders owners_first"
  by (simp add: reorders_def owners_first_def)

lemma drop_owners_dead:
  "ofold (drop_dfield b) (filter is_owner v) h = Inr h' \<Longrightarrow> a \<in> set (owned v) \<or> h a = None \<Longrightarrow> h' a = None"
proof (induction v arbitrary: h)
  case Nil
  then show ?case by simp
next
  case (Cons f v)
  then show ?case by (cases f) (auto simp: deallocate_def split: if_splits)
qed

lemma drop_inspectors_fault:
  "Insp m rs \<in> set fs \<Longrightarrow> r \<in> set (b m rs) \<Longrightarrow> h r = None \<Longrightarrow>
     \<exists>e. ofold (drop_dfield b) (filter (\<lambda>f. \<not> is_owner f) fs) h = Inl e"
proof (induction fs)
  case Nil
  then show ?case by simp
next
  case (Cons f fs)
  show ?case
  proof (cases f)
    case (Owner a)
    with Cons show ?thesis by simp
  next
    case (Insp m' rs')
    show ?thesis
    proof (cases "read_all (b m' rs') h")
      case (Inl e)
      with Insp show ?thesis by simp
    next
      case (Inr h')
      then have h': "h' = h" by (rule read_all_same)
      with Inr read_all_dead [of r "b m' rs'" h] Cons.prems(3) have "r \<notin> set (b m' rs')" by auto
      moreover have "b m rs = b m' rs'" if "Insp m rs = f" using that Insp by simp
      ultimately have "Insp m rs \<noteq> f" using Cons.prems(2) by auto
      with Cons obtain e where "ofold (drop_dfield b) (filter (\<lambda>f. \<not> is_owner f) fs) h = Inl e" by auto
      with Inr h' show ?thesis by (simp add: Insp)
    qed
  qed
qed

lemma rejected_vars_fault:
  "check_vars False env vs \<Longrightarrow> \<not> check_vars True env vs \<Longrightarrow> \<exists>e. drop_vars nosy owners_first vs h = Inl e"
proof (induction vs arbitrary: env)
  case Nil
  then show ?case by simp
next
  case (Cons v vs)
  show ?case
  proof (cases "drop_vars nosy owners_first vs h")
    case (Inl e)
    then show ?thesis by (simp add: drop_vars_Cons)
  next
    case (Inr h1)
    with Cons obtain f where f: "f \<in> set v" "\<not> field_ok True env v f" "field_ok False env v f"
      by (fastforce simp: list_all_iff)
    obtain m rs r where r: "f = Insp m rs" "r \<in> set rs" "\<not> m" "r \<in> set (owned v)"
      using f(2,3) by (cases f) (auto simp: list_all_iff)
    have "\<exists>e. drop_var nosy owners_first v h1 = Inl e"
    proof (cases "ofold (drop_dfield nosy) (filter is_owner v) h1")
      case (Inl e)
      then show ?thesis by (simp add: drop_var_def owners_first_def ofold_append)
    next
      case (Inr h2)
      with drop_owners_dead r(4) have "h2 r = None" by blast
      with drop_inspectors_fault [of m rs v r nosy h2] f(1) r Inr show ?thesis
        by (simp add: drop_var_def owners_first_def ofold_append nosy_def)
    qed
    with Inr show ?thesis by (auto simp: drop_vars_Cons)
  qed
qed

section \<open>The structs of the file as variables\<close>

lemma world_as_variable:
  assumes "\<And>i h. obind (d i h) (\<lambda>_. Inr h) = read_all (b m [fst i]) h"
  shows "obind (drop_world d world_fields w h) (\<lambda>(h', out). Inr h') = drop_vars b (\<lambda>v. v) [world_var m w] h"
proof (cases "inspector w")
  case None
  then show ?thesis
    by (cases "deallocate (days w) h")
      (simp_all add: drop_world_def world_fields_def drop_vars_def drop_var_def world_var_def)
next
  case (Some i)
  have "read_all (b m [fst i]) h = (case d i h of Inl e \<Rightarrow> Inl e | Inr l \<Rightarrow> Inr h)"
    using assms [of i h, symmetric] by (simp split: sum.split)
  with Some show ?thesis
    by (cases "d i h"; cases "deallocate (days w) h")
      (simp_all add: drop_world_def world_fields_def drop_vars_def drop_var_def world_var_def)
qed

section \<open>Properties\<close>

text \<open>
  C11: The drop check is exact. Of the functions whose borrows live long enough, it accepts those
  that drop all their values without a fault, and free every box exactly once, whatever the
  destructors read and in whatever order the fields are dropped; for every other one there are
  destructors and an order that use memory after it was freed.
\<close>

theorem drop_check_exact:
  assumes "borrow_check vs" and "distinct (owned (concat vs))"
    and "\<And>a. h a \<noteq> None \<longleftrightarrow> a \<in> set (owned (concat vs))"
  shows "(drop_check vs \<longleftrightarrow>
      (\<forall>b ord. honest b \<longrightarrow> reorders ord \<longrightarrow> drop_vars b ord vs h = Inr Map.empty)) \<and>
    (\<not> drop_check vs \<longrightarrow>
      (\<exists>b ord u. honest b \<and> reorders ord \<and> drop_vars b ord vs h = Inl (UB u)))"
proof -
  have "h a = None" if "a \<notin> set (owned (concat vs))" for a using assms(3) [of a] that by simp
  then have e: "without_cells (owned (concat vs)) h = Map.empty" by (auto simp: fun_eq_iff)
  have acc: "drop_vars b ord vs h = Inr Map.empty" if "drop_check vs" "honest b" "reorders ord" for b ord
    using accepted_vars_drop [OF that(2,3), of "[]" vs h] that(1) assms(2,3) e
    by (simp add: drop_check_def)
  have rej: "\<exists>e. drop_vars nosy owners_first vs h = Inl e" if "\<not> drop_check vs"
    using rejected_vars_fault [of "[]" vs h] assms(1) that by (simp add: drop_check_def borrow_check_def)
  have "\<not> drop_check vs \<longrightarrow> drop_vars nosy owners_first vs h \<noteq> Inr Map.empty"
    using rej by auto
  with acc nosy_honest owners_first_reorders
  have "drop_check vs \<longleftrightarrow>
      (\<forall>b ord. honest b \<longrightarrow> reorders ord \<longrightarrow> drop_vars b ord vs h = Inr Map.empty)"
    by blast
  moreover have "\<not> drop_check vs \<longrightarrow>
      (\<exists>b ord u. honest b \<and> reorders ord \<and> drop_vars b ord vs h = Inl (UB u))"
    using rej nosy_honest owners_first_reorders drop_vars_UB by metis
  ultimately show ?thesis by blast
qed

text \<open>The world of \<open>drop_check2\<close> with the assignment of its comment.\<close>

lemma drop_check_exact_witness:
  "\<exists>b ord u. honest b \<and> reorders ord \<and>
     drop_vars b ord (assigned_world False ''gadget'' 3) [3 \<mapsto> Num 1] = Inl (UB u)"
proof -
  have "borrow_check (assigned_world False ''gadget'' 3)" "\<not> drop_check (assigned_world False ''gadget'' 3)"
    "distinct (owned (concat (assigned_world False ''gadget'' 3)))"
    "\<And>a. [3 \<mapsto> Num 1] a \<noteq> None \<longleftrightarrow> a \<in> set (owned (concat (assigned_world False ''gadget'' 3)))"
    by (simp_all add: assigned_world_def world_var_def borrow_check_def drop_check_def)
  with drop_check_exact [of "assigned_world False ''gadget'' 3" "[3 \<mapsto> Num 1]"] show ?thesis by blast
qed

text \<open>
  The functions of the file. As they are written all are accepted; with the assignments of the
  comments those of \<open>drop_check1\<close>, \<open>2\<close> and \<open>3\<close> pass the borrow check and fail the drop check,
  while \<open>drop_check4\<close>, with \<open>may_dangle\<close>, is accepted; an inspector whose box was declared in
  an earlier variable would be accepted too. The last lines relate the model
  to the functions of theory \<open>DropOrder\<close>.
\<close>

theorem drop_check_of_file:
  "drop_check (plain_world m a) \<and>
   borrow_check (assigned_world m s a) \<and> (drop_check (assigned_world m s a) \<longleftrightarrow> m) \<and>
   \<not> drop_check (drop_check3 a) \<and> drop_check [[Owner a], [Insp False [a]]] \<and>
   \<not> borrow_check [[Insp m [a]], [Owner a]] \<and>
   obind (drop_check1 a h) (\<lambda>(h', out). Inr h') =
     drop_vars looking (\<lambda>v. v) (plain_world False a) (h(a \<mapsto> Num 1)) \<and>
   obind (drop_check2 a h) (\<lambda>(h', out). Inr h') =
     drop_vars blind (\<lambda>v. v) (plain_world False a) (h(a \<mapsto> Num 1)) \<and>
   obind (drop_check4 a h) (\<lambda>(h', out). Inr h') =
     drop_vars blind (\<lambda>v. v) (assigned_world True ''gadget'' a) (h(a \<mapsto> Num 1))"
proof -
  have i2: "obind (Inspector_drop2 i h) (\<lambda>_. Inr h) = read_all (blind m [fst i]) h" for i h m
    by (simp add: Inspector_drop2_def read_all_def blind_def)
  have "obind (drop_check1 a h) (\<lambda>(h', out). Inr h') =
     drop_vars looking (\<lambda>v. v) (plain_world False a) (h(a \<mapsto> Num 1))"
    by (simp add: drop_check1_def plain_world_def world_var_def drop_world_def world_fields_def
        drop_vars_def drop_var_def deallocate_def)
  moreover have "obind (drop_check2 a h) (\<lambda>(h', out). Inr h') =
     drop_vars blind (\<lambda>v. v) (plain_world False a) (h(a \<mapsto> Num 1))"
    unfolding drop_check2_def plain_world_def by (rule world_as_variable) (rule i2)
  moreover have "obind (drop_check4 a h) (\<lambda>(h', out). Inr h') =
     drop_vars blind (\<lambda>v. v) (assigned_world True ''gadget'' a) (h(a \<mapsto> Num 1))"
    unfolding drop_check4_def assigned_world_def by (rule world_as_variable) (rule i2)
  moreover have "drop_check (plain_world m a)" "borrow_check (assigned_world m s a)"
      "drop_check (assigned_world m s a) \<longleftrightarrow> m" "\<not> drop_check (drop_check3 a)"
      "drop_check [[Owner a], [Insp False [a]]]" "\<not> borrow_check [[Insp m [a]], [Owner a]]"
    by (simp_all add: drop_check_def borrow_check_def plain_world_def assigned_world_def
        drop_check3_def world_var_def)
  ultimately show ?thesis by blast
qed

end
