(* ===== verification/EnumRepr.thy ===== *)
theory EnumRepr
  imports LayoutMain
begin

text \<open>
  The values of the enums of \<^verbatim>\<open>data_layout/src/repr_rust.rs\<close> in memory: \<open>MyEnum\<close>, whose
  representation \<open>#[repr(C)]\<close> fixes to be that of the struct \<open>MyEnumRepr\<close> declared beside it, \<open>Bar\<close>, and
  \<open>Option<&T>\<close>, whose empty case is the null pointer. Writing a value touches the bytes of its
  tag and of its variant's fields and no others, at the offsets that theory \<open>Layout\<close> computes
  from the declarations; reading it back goes through the struct. A tag that names no variant
  is undefined behaviour. A float is its 32 bits.
\<close>

section \<open>Fields at offsets\<close>

text \<open>
  Writing the fields of a struct at an address: each field is its offset and its bytes.
  Two lists of fields do not touch each other when every two of their fields are apart.
\<close>

type_synonym placed_field = "nat \<times> u8 list"

fun store_fields :: "mem_block \<Rightarrow> nat \<Rightarrow> placed_field list \<Rightarrow> mem_block outcome" where
  "store_fields m a [] = Inr m"
| "store_fields m a ((off, bs) # fs) =
     obind (store_bytes store8 m (a + off) bs) (\<lambda>m'. store_fields m' a fs)"

definition apart :: "nat \<Rightarrow> nat \<Rightarrow> placed_field \<Rightarrow> bool" where
  "apart off n f \<longleftrightarrow> off + n \<le> fst f \<or> fst f + length (snd f) \<le> off"

fun all_apart :: "placed_field list \<Rightarrow> bool" where
  "all_apart [] = True"
| "all_apart (f # fs) = (list_all (apart (fst f) (length (snd f))) fs \<and> all_apart fs)"

definition read_word :: "nat \<Rightarrow> mem_block \<Rightarrow> nat \<Rightarrow> 'a::len word outcome" where
  "read_word n m a = obind (load_bytes load8 m a n) (\<lambda>bs. Inr (of_le_bytes bs))"

lemma store_fields_ok:
  assumes "blk_base m \<le> a" and "\<And>f. f \<in> set fs \<Longrightarrow> a + fst f + length (snd f) \<le> blk_end m"
  shows "\<exists>m'. store_fields m a fs = Inr m'"
  using assms
proof (induction fs arbitrary: m)
  case Nil
  then show ?case by simp
next
  case (Cons f fs)
  obtain off bs where f: "f = (off, bs)" by (cases f)
  obtain m1 where m1: "store_bytes store8 m (a + off) bs = Inr m1"
    using blk.store_bytes_ok [of bs m "a + off"] Cons.prems(1) Cons.prems(2) [of f]
    by (auto simp: f blk_mapped_def)
  from store_bytes_base [OF m1] have "blk_base m1 = blk_base m" "blk_end m1 = blk_end m"
    by (simp_all add: blk_end_def)
  with Cons.IH [of m1] Cons.prems obtain m' where "store_fields m1 a fs = Inr m'" by auto
  with m1 show ?case by (simp add: f)
qed

lemma store_fields_frame:
  "store_fields m a fs = Inr m' \<Longrightarrow> list_all (apart off n) fs \<Longrightarrow>
     load_bytes load8 m' (a + off) n = load_bytes load8 m (a + off) n"
proof (induction fs arbitrary: m)
  case Nil
  then show ?case by simp
next
  case (Cons f fs)
  obtain o1 bs where f: "f = (o1, bs)" by (cases f)
  from Cons.prems(1) obtain m1 where m1: "store_bytes store8 m (a + o1) bs = Inr m1"
    and r: "store_fields m1 a fs = Inr m'" by (auto simp: f obind_eq_Inr)
  from Cons.IH [OF r] Cons.prems(2)
  have "load_bytes load8 m' (a + off) n = load_bytes load8 m1 (a + off) n" by simp
  also have "\<dots> = load_bytes load8 m (a + off) n"
    using Cons.prems(2) by (intro blk.load_store_disjoint [OF m1]) (auto simp: f apart_def)
  finally show ?case .
qed

lemma store_fields_load:
  "store_fields m a fs = Inr m' \<Longrightarrow> all_apart fs \<Longrightarrow> (off, bs) \<in> set fs \<Longrightarrow>
     load_bytes load8 m' (a + off) (length bs) = Inr bs"
proof (induction fs arbitrary: m)
  case Nil
  then show ?case by simp
next
  case (Cons f fs)
  obtain o1 bs1 where f: "f = (o1, bs1)" by (cases f)
  from Cons.prems(1) obtain m1 where m1: "store_bytes store8 m (a + o1) bs1 = Inr m1"
    and r: "store_fields m1 a fs = Inr m'" by (auto simp: f obind_eq_Inr)
  show ?case
  proof (cases "(off, bs) = f")
    case True
    with store_fields_frame [OF r, of off "length bs"] blk.load_store_bytes [OF m1] Cons.prems(2)
    show ?thesis by (simp add: f)
  next
    case False
    with Cons.IH [OF r] Cons.prems(2,3) show ?thesis by simp
  qed
qed

text \<open>Outside the fields nothing changes, padding included.\<close>

lemma store_fields_load8:
  "store_fields m a fs = Inr m' \<Longrightarrow>
     (\<And>f. f \<in> set fs \<Longrightarrow> c < a + fst f \<or> a + fst f + length (snd f) \<le> c) \<Longrightarrow> load8 m' c = load8 m c"
proof (induction fs arbitrary: m)
  case Nil
  then show ?case by simp
next
  case (Cons f fs)
  obtain o1 bs where f: "f = (o1, bs)" by (cases f)
  from Cons.prems(1) obtain m1 where m1: "store_bytes store8 m (a + o1) bs = Inr m1"
    and r: "store_fields m1 a fs = Inr m'" by (auto simp: f obind_eq_Inr)
  from Cons.IH [OF r] Cons.prems(2) have "load8 m' c = load8 m1 c" by simp
  also have "\<dots> = load8 m c"
    using Cons.prems(2) [of f] by (intro blk.store_bytes_frame [OF m1]) (auto simp: f)
  finally show ?case .
qed

lemma store_fields_word:
  fixes w :: "'a::len word"
  assumes "store_fields m a fs = Inr m'" and "all_apart fs" and "(off, le_bytes n w) \<in> set fs"
    and "LENGTH('a) \<le> 8 * n"
  shows "read_word n m' (a + off) = Inr w"
  using store_fields_load [OF assms(1-3)] assms(4) by (simp add: read_word_def of_le_bytes_le_bytes)

section \<open>MyEnum\<close>

datatype my_enum = EnumA u32 | EnumB u32 u64 | EnumC (enum_x: u32) (enum_y: u8) | EnumD

text \<open>\<open>MyEnumDiscriminant\<close> counts its variants from 0.\<close>

definition discriminant :: "my_enum \<Rightarrow> u32" where
  "discriminant e = (case e of EnumA _ \<Rightarrow> 0 | EnumB _ _ \<Rightarrow> 1 | EnumC _ _ \<Rightarrow> 2 | EnumD \<Rightarrow> 3)"

definition tag_offset :: nat where
  "tag_offset = field_offsets [MyEnumDiscriminant, MyEnumFields] ! 0"

definition payload_offset :: nat where
  "payload_offset = field_offsets [MyEnumDiscriminant, MyEnumFields] ! 1"

text \<open>The structs \<open>MyAFields\<close> to \<open>MyDFields\<close>, all of which the union puts at its start.\<close>

definition variant_fields :: "my_enum \<Rightarrow> placed_field list" where
  "variant_fields e =
     (case e of
        EnumA v \<Rightarrow> zip (field_offsets [lu32]) [le_bytes 4 v]
      | EnumB f v \<Rightarrow> zip (field_offsets [lf32, lu64]) [le_bytes 4 f, le_bytes 8 v]
      | EnumC x y \<Rightarrow> zip (field_offsets [lu32, lu8]) [le_bytes 4 x, le_bytes 1 y]
      | EnumD \<Rightarrow> [])"

definition enum_fields :: "my_enum \<Rightarrow> placed_field list" where
  "enum_fields e =
     (tag_offset, le_bytes 4 (discriminant e)) #
     map (\<lambda>(off, bs). (payload_offset + off, bs)) (variant_fields e)"

definition write_enum :: "mem_block \<Rightarrow> nat \<Rightarrow> my_enum \<Rightarrow> mem_block outcome" where
  "write_enum m a e = store_fields m a (enum_fields e)"

text \<open>The four views of the union \<open>MyEnumFields\<close> at an address.\<close>

definition read_A :: "mem_block \<Rightarrow> nat \<Rightarrow> my_enum outcome" where
  "read_A m p = obind (read_word 4 m (p + field_offsets [lu32] ! 0)) (\<lambda>v. Inr (EnumA v))"

definition read_B :: "mem_block \<Rightarrow> nat \<Rightarrow> my_enum outcome" where
  "read_B m p =
     obind (read_word 4 m (p + field_offsets [lf32, lu64] ! 0)) (\<lambda>f.
     obind (read_word 8 m (p + field_offsets [lf32, lu64] ! 1)) (\<lambda>v. Inr (EnumB f v)))"

definition read_C :: "mem_block \<Rightarrow> nat \<Rightarrow> my_enum outcome" where
  "read_C m p =
     obind (read_word 4 m (p + field_offsets [lu32, lu8] ! 0)) (\<lambda>x.
     obind (read_word 1 m (p + field_offsets [lu32, lu8] ! 1)) (\<lambda>y. Inr (EnumC x y)))"

definition read_enum :: "mem_block \<Rightarrow> nat \<Rightarrow> my_enum outcome" where
  "read_enum m a =
     obind (read_word 4 m (a + tag_offset)) (\<lambda>t :: u32.
       if t = 0 then read_A m (a + payload_offset)
       else if t = 1 then read_B m (a + payload_offset)
       else if t = 2 then read_C m (a + payload_offset)
       else if t = 3 then Inr EnumD
       else Inl (UB ''enum with an invalid discriminant''))"

text \<open>The offsets of the fields, computed from the declarations once.\<close>

lemma enum_offsets [simp]:
  "tag_offset = 0" "payload_offset = 8" "size_of MyEnumRepr = 24" "align_of MyEnumRepr = 8"
  "field_offsets [lu32] = [0]" "field_offsets [lf32, lu64] = [0, 8]"
  "field_offsets [lu32, lu8] = [0, 4]"
  by code_simp+

lemma enum_fields_simps [simp]:
  "enum_fields (EnumA v) = [(0, le_bytes 4 (0 :: u32)), (8, le_bytes 4 v)]"
  "enum_fields (EnumB f w) = [(0, le_bytes 4 (1 :: u32)), (8, le_bytes 4 f), (16, le_bytes 8 w)]"
  "enum_fields (EnumC x y) = [(0, le_bytes 4 (2 :: u32)), (8, le_bytes 4 x), (12, le_bytes 1 y)]"
  "enum_fields EnumD = [(0, le_bytes 4 (3 :: u32))]"
  by (simp_all add: enum_fields_def variant_fields_def discriminant_def)

lemma enum_fields_apart: "all_apart (enum_fields e)"
  by (cases e) (simp_all add: apart_def)

lemma enum_fields_inside: "f \<in> set (enum_fields e) \<Longrightarrow> fst f + length (snd f) \<le> 24"
  by (cases e) auto

lemma read_written_enum:
  assumes w: "write_enum m a e = Inr m'"
  shows "read_enum m' a = Inr e"
proof -
  note r = store_fields_word [OF w [unfolded write_enum_def] enum_fields_apart]
  have t: "read_word 4 m' a = Inr (discriminant e)"
    using r [of 0 4 "discriminant e"] by (simp add: enum_fields_def)
  show ?thesis
  proof (cases e)
    case (EnumA v)
    with t r [of 8 4 v] show ?thesis by (simp add: read_enum_def read_A_def discriminant_def)
  next
    case (EnumB f v)
    with t r [of 8 4 f] r [of 16 8 v] show ?thesis
      by (simp add: read_enum_def read_B_def discriminant_def add.commute [of _ a])
  next
    case (EnumC x y)
    with t r [of 8 4 x] r [of 12 1 y] show ?thesis
      by (simp add: read_enum_def read_C_def discriminant_def add.commute [of _ a])
  next
    case EnumD
    with t show ?thesis by (simp add: read_enum_def discriminant_def)
  qed
qed

text \<open>
  The struct form of the reference: \<open>MyEnumRepr\<close> with the discriminant and the view of the
  union that the discriminant selects. Reading a field through another view of the union
  reinterprets the bytes: the \<open>f32\<close> of a \<open>B\<close> and the \<open>x\<close> of a \<open>C\<close> are where the \<open>u32\<close> of an \<open>A\<close> is.
\<close>

definition first_word :: "my_enum \<Rightarrow> u32 option" where
  "first_word e =
     (case e of EnumA v \<Rightarrow> Some v | EnumB f _ \<Rightarrow> Some f | EnumC x _ \<Rightarrow> Some x | EnumD \<Rightarrow> None)"

lemma union_view_A:
  assumes w: "write_enum m a e = Inr m'" and x: "first_word e = Some v"
  shows "read_A m' (a + payload_offset) = Inr (EnumA v)"
proof -
  note r = store_fields_word [OF w [unfolded write_enum_def] enum_fields_apart]
  from x r [of 8 4 v] show ?thesis
    by (cases e) (simp_all add: read_A_def first_word_def)
qed

section \<open>Bar\<close>

text \<open>
  The enum of the default representation, at the layout that the comment gives as possible:
  the data first, a \<open>u64\<close>, \<open>u32\<close> or \<open>u8\<close> by the tag, and the tag of one byte after it.
\<close>

datatype bar = BarA u32 | BarB u64 | BarC u8

definition bar_tag :: "bar \<Rightarrow> u8" where
  "bar_tag b = (case b of BarA _ \<Rightarrow> 0 | BarB _ \<Rightarrow> 1 | BarC _ \<Rightarrow> 2)"

definition bar_offsets :: "nat list" where
  "bar_offsets = field_offsets [Union [lu32, lu64, lu8], lu8]"

definition bar_fields :: "bar \<Rightarrow> placed_field list" where
  "bar_fields b =
     [(bar_offsets ! 0, (case b of BarA v \<Rightarrow> le_bytes 4 v | BarB w \<Rightarrow> le_bytes 8 w | BarC x \<Rightarrow> le_bytes 1 x)),
      (bar_offsets ! 1, le_bytes 1 (bar_tag b))]"

definition write_bar :: "mem_block \<Rightarrow> nat \<Rightarrow> bar \<Rightarrow> mem_block outcome" where
  "write_bar m a b = store_fields m a (bar_fields b)"

definition read_bar :: "mem_block \<Rightarrow> nat \<Rightarrow> bar outcome" where
  "read_bar m a =
     obind (read_word 1 m (a + bar_offsets ! 1)) (\<lambda>t :: u8.
       if t = 0 then obind (read_word 4 m (a + bar_offsets ! 0)) (\<lambda>v. Inr (BarA v))
       else if t = 1 then obind (read_word 8 m (a + bar_offsets ! 0)) (\<lambda>v. Inr (BarB v))
       else if t = 2 then obind (read_word 1 m (a + bar_offsets ! 0)) (\<lambda>v. Inr (BarC v))
       else Inl (UB ''enum with an invalid discriminant''))"

lemma bar_offsets_simps [simp]: "bar_offsets = [0, 8]" "size_of BarRepr = 16"
  by code_simp+

lemma bar_fields_ok: "all_apart (bar_fields b)" "f \<in> set (bar_fields b) \<Longrightarrow> fst f + length (snd f) \<le> 16"
  by (cases b; auto simp: bar_fields_def apart_def)+

lemma read_written_bar:
  assumes w: "write_bar m a b = Inr m'"
  shows "read_bar m' a = Inr b"
proof -
  note r = store_fields_word [OF w [unfolded write_bar_def] bar_fields_ok(1)]
  have t: "read_word 1 m' (a + 8) = Inr (bar_tag b)"
    using r [of 8 1 "bar_tag b"] by (simp add: bar_fields_def)
  show ?thesis
  proof (cases b)
    case (BarA v)
    with t r [of 0 4 v] show ?thesis by (simp add: read_bar_def bar_tag_def bar_fields_def)
  next
    case (BarB v)
    with t r [of 0 8 v] show ?thesis by (simp add: read_bar_def bar_tag_def bar_fields_def)
  next
    case (BarC v)
    with t r [of 0 1 v] show ?thesis by (simp add: read_bar_def bar_tag_def bar_fields_def)
  qed
qed

section \<open>Options of references\<close>

text \<open>
  \<open>Option<&T>\<close> as the comment describes it: the null pointer is \<open>None\<close>, and no tag is
  stored. A reference is never null; a slot of it is the eight bytes of the address.
\<close>

datatype option_ref = NoRef | SomeRef u64

definition option_ref_ok :: "option_ref \<Rightarrow> bool" where
  "option_ref_ok r = (case r of NoRef \<Rightarrow> True | SomeRef p \<Rightarrow> p \<noteq> 0)"

definition option_ref_word :: "option_ref \<Rightarrow> u64" where
  "option_ref_word r = (case r of NoRef \<Rightarrow> 0 | SomeRef p \<Rightarrow> p)"

definition write_option_ref :: "mem_block \<Rightarrow> nat \<Rightarrow> option_ref \<Rightarrow> mem_block outcome" where
  "write_option_ref m a r = store_fields m a [(0, le_bytes (size_of (OptionOf lref)) (option_ref_word r))]"

definition read_option_ref :: "mem_block \<Rightarrow> nat \<Rightarrow> option_ref outcome" where
  "read_option_ref m a =
     obind (read_word (size_of (OptionOf lref)) m a)
       (\<lambda>p. Inr (if p = 0 then NoRef else SomeRef p))"

lemma size_option_ref: "size_of (OptionOf lref) = 8" "size_of lref = 8"
  by code_simp+

section \<open>Properties\<close>

text \<open>
  C31: writing any value of \<open>MyEnum\<close> at an address with \<open>size_of::<MyEnumRepr>()\<close> bytes of
  room succeeds, and reading the bytes back through the struct \<open>MyEnumRepr\<close> gives the same
  variant with the same fields; nothing outside the 24 bytes changes, nor does the padding
  between the tag and the union.
\<close>

theorem enum_roundtrip:
  assumes "blk_base m \<le> a" and "a + size_of MyEnumRepr \<le> blk_end m"
  shows "\<exists>m'. write_enum m a e = Inr m' \<and> read_enum m' a = Inr e
    \<and> (\<forall>c. c < a \<or> a + size_of MyEnumRepr \<le> c \<or> (a + 4 \<le> c \<and> c < a + payload_offset)
         \<longrightarrow> load8 m' c = load8 m c)"
proof -
  have "a + fst f + length (snd f) \<le> blk_end m" if "f \<in> set (enum_fields e)" for f
    using enum_fields_inside [OF that] assms(2) by simp
  then obtain m' where w: "write_enum m a e = Inr m'"
    using store_fields_ok [OF assms(1)] unfolding write_enum_def by blast
  moreover have "load8 m' c = load8 m c"
    if c: "c < a \<or> a + size_of MyEnumRepr \<le> c \<or> (a + 4 \<le> c \<and> c < a + payload_offset)" for c
  proof (rule store_fields_load8 [OF w [unfolded write_enum_def]])
    fix f
    assume "f \<in> set (enum_fields e)"
    with c show "c < a + fst f \<or> a + fst f + length (snd f) \<le> c" by (cases e) auto
  qed
  ultimately show ?thesis using read_written_enum [OF w] by auto
qed

lemma enum_roundtrip_witness:
  "\<exists>m'. write_enum \<lparr>blk_base = 8, blk_data = replicate 24 7\<rparr> 8 (EnumC 5 6) = Inr m'
    \<and> read_enum m' 8 = Inr (EnumC 5 6)"
  using enum_roundtrip [of "\<lparr>blk_base = 8, blk_data = replicate 24 7\<rparr>" 8 "EnumC 5 6"]
  by (auto simp: blk_end_def)

text \<open>
  an option of a reference takes exactly the eight bytes of the reference, and every
  legal value reads back: \<open>None\<close> as the null pointer, \<open>Some\<close> as the reference. The condition
  that a reference is not null is needed: a null reference would read back as \<open>None\<close>.
\<close>

theorem option_ref_roundtrip:
  assumes "blk_base m \<le> a" and "a + size_of lref \<le> blk_end m"
  shows "\<exists>m'. write_option_ref m a r = Inr m'
    \<and> (read_option_ref m' a = Inr r \<longleftrightarrow> option_ref_ok r)
    \<and> load_bytes load8 m' a (size_of lref) = Inr (le_bytes 8 (option_ref_word r))"
proof -
  let ?fs = "[(0, le_bytes 8 (option_ref_word r))]"
  have fs: "write_option_ref m a r = store_fields m a ?fs"
    by (simp only: write_option_ref_def size_option_ref)
  have "\<exists>m'. store_fields m a ?fs = Inr m'"
    by (rule store_fields_ok) (use assms in \<open>simp_all add: size_option_ref\<close>)
  then obtain m' where w: "store_fields m a ?fs = Inr m'" by blast
  have r: "read_word 8 m' a = Inr (option_ref_word r)"
    using store_fields_word [OF w, of 0 8 "option_ref_word r"] by simp
  have l: "load_bytes load8 m' a 8 = Inr (le_bytes 8 (option_ref_word r))"
    using store_fields_load [OF w, of 0 "le_bytes 8 (option_ref_word r)"] by simp
  have "read_option_ref m' a = Inr r \<longleftrightarrow> option_ref_ok r"
    unfolding read_option_ref_def size_option_ref r
    by (auto simp: option_ref_word_def option_ref_ok_def split: option_ref.splits)
  with fs w l show ?thesis unfolding size_option_ref by auto
qed

lemma option_ref_roundtrip_witness:
  "\<exists>m'. write_option_ref \<lparr>blk_base = 8, blk_data = replicate 8 0\<rparr> 8 (SomeRef 64) = Inr m'
    \<and> read_option_ref m' 8 = Inr (SomeRef 64)"
  using option_ref_roundtrip [of "\<lparr>blk_base = 8, blk_data = replicate 8 0\<rparr>" 8 "SomeRef 64"]
  by (auto simp: blk_end_def option_ref_ok_def lref_def WIDTH_def)

text \<open>
  The same for \<open>Bar\<close> at the layout of the comment: every value reads back as it was written.
\<close>

theorem bar_roundtrip:
  assumes "blk_base m \<le> a" and "a + size_of BarRepr \<le> blk_end m"
  shows "\<exists>m'. write_bar m a b = Inr m' \<and> read_bar m' a = Inr b"
proof -
  have "a + fst f + length (snd f) \<le> blk_end m" if "f \<in> set (bar_fields b)" for f
    using bar_fields_ok(2) [OF that] assms(2) by simp
  then obtain m' where "write_bar m a b = Inr m'"
    using store_fields_ok [OF assms(1)] unfolding write_bar_def by blast
  with read_written_bar show ?thesis by blast
qed

lemma bar_roundtrip_witness:
  "\<exists>m'. write_bar \<lparr>blk_base = 8, blk_data = replicate 16 0\<rparr> 8 (BarB 2) = Inr m' \<and> read_bar m' 8 = Inr (BarB 2)"
  using bar_roundtrip [of "\<lparr>blk_base = 8, blk_data = replicate 16 0\<rparr>" 8 "BarB 2"]
  by (simp add: blk_end_def)

text \<open>Bytes that hold no variant's discriminant are not a value of the enum.\<close>

lemma read_enum_invalid:
  assumes "read_word 4 m a = Inr (t :: u32)" and "3 < t"
  shows "read_enum m a = Inl (UB ''enum with an invalid discriminant'')"
  using assms by (auto simp: read_enum_def)

end
