(* ===== verification/Subtyping.thy ===== *)
theory Subtyping
  imports Prelude
begin

text \<open>
  The traits of \<^verbatim>\<open>ownership/subtyping_and_variance/src/main.rs\<close>, their implementations for
  \<open>TestDog\<close>, and the claim of its comments: the rule that a value of a subtype is accepted
  wherever its supertype is expected makes \<open>love(mr_snuggles)\<close> legal, but applied to what a
  mutable reference points to it leads to meowing dogs.

  Programs are statements over numbered variables and numbered mutable references, in the
  order of their declaration. The checker has a mode for each reading of the rule; the
  semantics calls methods through what the object implements. The file never says what
  \<open>mr_snuggles\<close> is, so what a cat prints is a parameter.
\<close>

section \<open>Traits and implementations\<close>

datatype animal_trait = Animal | Cat | Dog

datatype animal_method = Snuggle | Eat | Meow | Bark

fun supertrait :: "animal_trait \<Rightarrow> animal_trait option" where
  "supertrait Animal = None"
| "supertrait Cat = Some Animal"
| "supertrait Dog = Some Animal"

fun declared :: "animal_trait \<Rightarrow> animal_method list" where
  "declared Animal = [Snuggle, Eat]"
| "declared Cat = [Meow]"
| "declared Dog = [Bark]"

definition trait_methods :: "animal_trait \<Rightarrow> animal_method list" where
  "trait_methods t = declared t @ (case supertrait t of None \<Rightarrow> [] | Some u \<Rightarrow> declared u)"

definition subtrait :: "animal_trait \<Rightarrow> animal_trait \<Rightarrow> bool" where
  "subtrait t u \<longleftrightarrow> t = u \<or> supertrait t = Some u"

text \<open>The struct \<open>TestDog\<close> and the cat that the comment leaves open.\<close>

datatype pet = TestDog | MrSnuggles

fun implements :: "pet \<Rightarrow> animal_trait list" where
  "implements TestDog = [Dog, Animal]"
| "implements MrSnuggles = [Cat, Animal]"

fun test_dog :: "animal_method \<Rightarrow> string list option" where
  "test_dog Bark = Some [''wolf'']"
| "test_dog Eat = Some []"
| "test_dog Snuggle = Some []"
| "test_dog Meow = None"

text \<open>The implementations of \<open>Cat\<close> and \<open>Animal\<close> for the cat, over the lines they print.\<close>

definition call_pet :: "(animal_method \<Rightarrow> string list) \<Rightarrow> pet \<Rightarrow> animal_method \<Rightarrow> string list outcome" where
  "call_pet cat p m =
     (case p of
        TestDog \<Rightarrow> (case test_dog m of Some out \<Rightarrow> Inr out | None \<Rightarrow> Inl (UB ''no such method''))
      | MrSnuggles \<Rightarrow> (if m = Bark then Inl (UB ''no such method'') else Inr (cat m)))"

section \<open>Programs\<close>

text \<open>
  \<open>Let t p\<close> is \<open>let x: t = p\<close>, \<open>MutRef x t\<close> is \<open>let r: &mut t = &mut x\<close>, \<open>Overwrite r y\<close> is
  \<open>*r = y\<close>, \<open>Call x m\<close> is \<open>x.m()\<close>, and \<open>Love x\<close> is \<open>love(x)\<close>, which moves its argument.
\<close>

datatype pet_stmt = Let animal_trait pet | MutRef nat animal_trait | Overwrite nat nat
  | Call nat animal_method | Love nat

record pets =
  slots :: "pet option list"
  mut_refs :: "nat list"
  heard :: "string list"

definition slot :: "'a option list \<Rightarrow> nat \<Rightarrow> 'a option" where
  "slot xs i = (if i < length xs then xs ! i else None)"

definition use_slot :: "pets \<Rightarrow> nat \<Rightarrow> pet outcome" where
  "use_slot s x = (case slot (slots s) x of None \<Rightarrow> Inl (UB ''use of a moved value'') | Some p \<Rightarrow> Inr p)"

definition love :: "(animal_method \<Rightarrow> string list) \<Rightarrow> pet \<Rightarrow> string list outcome" where
  "love cat p = call_pet cat p Snuggle"

fun pet_exec :: "(animal_method \<Rightarrow> string list) \<Rightarrow> pet_stmt \<Rightarrow> pets \<Rightarrow> pets outcome" where
  "pet_exec cat (Let t p) s = Inr (s\<lparr>slots := slots s @ [Some p]\<rparr>)"
| "pet_exec cat (MutRef x t) s = Inr (s\<lparr>mut_refs := mut_refs s @ [x]\<rparr>)"
| "pet_exec cat (Overwrite r y) s =
     obind (use_slot s y) (\<lambda>p.
       if r < length (mut_refs s)
       then Inr (s\<lparr>slots := (slots s)[y := None, mut_refs s ! r := Some p]\<rparr>)
       else Inl (UB ''no such reference''))"
| "pet_exec cat (Call x m) s =
     obind (use_slot s x) (\<lambda>p. obind (call_pet cat p m) (\<lambda>out. Inr (s\<lparr>heard := heard s @ out\<rparr>)))"
| "pet_exec cat (Love x) s =
     obind (use_slot s x) (\<lambda>p. obind (love cat p) (\<lambda>out.
       Inr (s\<lparr>slots := (slots s)[x := None], heard := heard s @ out\<rparr>)))"

definition no_pets :: pets where
  "no_pets = \<lparr>slots = [], mut_refs = [], heard = []\<rparr>"

definition pet_run :: "(animal_method \<Rightarrow> string list) \<Rightarrow> pet_stmt list \<Rightarrow> pets outcome" where
  "pet_run cat p = ofold (pet_exec cat) p no_pets"

section \<open>The checker\<close>

text \<open>
  \<open>Strict\<close> has no subtyping, \<open>Naive\<close> accepts a subtype anywhere, behind mutable references
  too, and \<open>Invariant\<close> everywhere but there. The environment has the type of each variable
  that has not been moved out of, and the target and declared type of each reference.
\<close>

datatype variance = Strict | Naive | Invariant

record pet_env =
  types :: "animal_trait option list"
  ref_types :: "(nat \<times> animal_trait) list"

definition accepts :: "variance \<Rightarrow> animal_trait \<Rightarrow> animal_trait \<Rightarrow> bool" where
  "accepts v t u \<longleftrightarrow> (if v = Strict then t = u else subtrait t u)"

definition accepts_mut :: "variance \<Rightarrow> animal_trait \<Rightarrow> animal_trait \<Rightarrow> bool" where
  "accepts_mut v t u \<longleftrightarrow> (if v = Naive then subtrait t u else t = u)"

fun pet_check :: "variance \<Rightarrow> pet_stmt \<Rightarrow> pet_env \<Rightarrow> pet_env option" where
  "pet_check v (Let t p) e =
     (if t \<in> set (implements p) then Some (e\<lparr>types := types e @ [Some t]\<rparr>) else None)"
| "pet_check v (MutRef x t) e =
     (case slot (types e) x of
        Some u \<Rightarrow> if accepts_mut v u t then Some (e\<lparr>ref_types := ref_types e @ [(x, t)]\<rparr>) else None
      | None \<Rightarrow> None)"
| "pet_check v (Overwrite r y) e =
     (case slot (types e) y of
        Some u \<Rightarrow>
          if r < length (ref_types e) \<and> fst (ref_types e ! r) \<noteq> y
            \<and> slot (types e) (fst (ref_types e ! r)) \<noteq> None \<and> accepts v u (snd (ref_types e ! r))
          then Some (e\<lparr>types := (types e)[y := None]\<rparr>)
          else None
      | None \<Rightarrow> None)"
| "pet_check v (Call x m) e =
     (case slot (types e) x of Some t \<Rightarrow> if m \<in> set (trait_methods t) then Some e else None | None \<Rightarrow> None)"
| "pet_check v (Love x) e =
     (case slot (types e) x of
        Some t \<Rightarrow> if accepts v t Animal then Some (e\<lparr>types := (types e)[x := None]\<rparr>) else None
      | None \<Rightarrow> None)"

fun check_all :: "variance \<Rightarrow> pet_stmt list \<Rightarrow> pet_env \<Rightarrow> pet_env option" where
  "check_all v [] e = Some e"
| "check_all v (c # p) e = (case pet_check v c e of Some e' \<Rightarrow> check_all v p e' | None \<Rightarrow> None)"

definition pet_accepted :: "variance \<Rightarrow> pet_stmt list \<Rightarrow> bool" where
  "pet_accepted v p \<longleftrightarrow> check_all v p \<lparr>types = [], ref_types = []\<rparr> \<noteq> None"

text \<open>The call of the comment, and a dog put where a cat was.\<close>

definition love_mr_snuggles :: "pet_stmt list" where
  "love_mr_snuggles = [Let Cat MrSnuggles, Love 0]"

definition meowing_dog :: "pet_stmt list" where
  "meowing_dog = [Let Cat MrSnuggles, MutRef 0 Animal, Let Dog TestDog, Overwrite 0 1, Call 0 Meow]"

section \<open>Invariant\<close>

definition pets_ok :: "pet_env \<Rightarrow> pets \<Rightarrow> bool" where
  "pets_ok e s \<longleftrightarrow>
     length (slots s) = length (types e) \<and> mut_refs s = map fst (ref_types e)
     \<and> (\<forall>i t. slot (types e) i = Some t \<longrightarrow> (\<exists>p. slot (slots s) i = Some p \<and> t \<in> set (implements p)))
     \<and> (\<forall>x t. (x, t) \<in> set (ref_types e) \<longrightarrow>
            x < length (types e) \<and> (\<forall>u. slot (types e) x = Some u \<longrightarrow> u = t))"

lemma slot_simps [simp]:
  "slot (xs @ [y]) i = (if i = length xs then y else slot xs i)"
  "slot (xs[j := y]) i = (if i = j \<and> j < length xs then y else slot xs i)"
  by (auto simp: slot_def nth_append nth_list_update)

lemma slot_less: "slot xs i = Some y \<Longrightarrow> i < length xs"
  by (auto simp: slot_def split: if_splits)

lemma implements_subtrait: "t \<in> set (implements p) \<Longrightarrow> subtrait t u \<Longrightarrow> u \<in> set (implements p)"
  by (cases p; cases t) (auto simp: subtrait_def)

text \<open>An object that implements a trait has every method of it.\<close>

lemma implemented_method:
  "t \<in> set (implements p) \<Longrightarrow> m \<in> set (trait_methods t) \<Longrightarrow> \<exists>out. call_pet cat p m = Inr out"
  by (cases p; cases t) (auto simp: trait_methods_def call_pet_def)

lemma accepts_implements: "accepts v t u \<Longrightarrow> t \<in> set (implements p) \<Longrightarrow> u \<in> set (implements p)"
  by (auto simp: accepts_def implements_subtrait split: if_splits)

lemma pets_ok_use:
  assumes "pets_ok e s" and "slot (types e) x = Some t"
  obtains p where "use_slot s x = Inr p" and "t \<in> set (implements p)"
  using assms unfolding pets_ok_def use_slot_def by fastforce

lemma pets_ok_move:
  "pets_ok e s \<Longrightarrow> pets_ok (e\<lparr>types := (types e)[x := None]\<rparr>) (s\<lparr>slots := (slots s)[x := None], heard := h\<rparr>)"
  unfolding pets_ok_def by auto

lemma pet_check_sound:
  assumes "pet_check v c e = Some e'" and "v \<noteq> Naive" and ok: "pets_ok e s"
  shows "\<exists>s'. pet_exec cat c s = Inr s' \<and> pets_ok e' s'"
proof (cases c)
  case (Let t p)
  from ok have "(x, u) \<in> set (ref_types e) \<Longrightarrow> x < length (types e)" for x u
    by (auto simp: pets_ok_def)
  from this this [THEN less_SucI] this [THEN less_imp_neq] assms Let show ?thesis
    by (auto simp: pets_ok_def split: if_splits)
next
  case (MutRef x t)
  with assms show ?thesis
    by (auto simp: pets_ok_def accepts_mut_def split: option.splits if_splits dest: slot_less)
next
  case (Overwrite r y)
  with assms obtain u where u: "slot (types e) y = Some u" and r: "r < length (ref_types e)"
    and acc: "accepts v u (snd (ref_types e ! r))" and ne: "fst (ref_types e ! r) \<noteq> y"
    and tgt: "slot (types e) (fst (ref_types e ! r)) \<noteq> None"
    and e': "e' = e\<lparr>types := (types e)[y := None]\<rparr>"
    by (auto split: option.splits if_splits)
  obtain x t where xt: "ref_types e ! r = (x, t)" by fastforce
  from pets_ok_use [OF ok u] obtain p where p: "use_slot s y = Inr p" and ip: "u \<in> set (implements p)" .
  from accepts_implements [OF acc ip] xt have t: "t \<in> set (implements p)" by simp
  from r xt have "(x, t) \<in> set (ref_types e)" by (metis nth_mem)
  with ok have x: "x < length (types e)" "slot (types e) x = Some u' \<Longrightarrow> u' = t" for u'
    by (auto simp: pets_ok_def)
  let ?s' = "s\<lparr>slots := (slots s)[y := None, x := Some p]\<rparr>"
  have "pet_exec cat c s = Inr ?s'"
    using Overwrite p r xt ok by (simp add: pets_ok_def)
  moreover have "pets_ok e' ?s'"
    using ok x t xt ne unfolding pets_ok_def e' by auto
  ultimately show ?thesis by blast
next
  case (Call x m)
  with assms obtain t where t: "slot (types e) x = Some t" "m \<in> set (trait_methods t)" "e' = e"
    by (auto split: option.splits if_splits)
  from pets_ok_use [OF ok t(1)] obtain p where "use_slot s x = Inr p" "t \<in> set (implements p)" .
  moreover from implemented_method [OF this(2) t(2)] obtain out where "call_pet cat p m = Inr out" ..
  ultimately show ?thesis using Call ok t(3) by (simp add: pets_ok_def)
next
  case (Love x)
  with assms obtain t where t: "slot (types e) x = Some t" "accepts v t Animal"
    "e' = e\<lparr>types := (types e)[x := None]\<rparr>"
    by (auto split: option.splits if_splits)
  from pets_ok_use [OF ok t(1)] obtain p where p: "use_slot s x = Inr p" "t \<in> set (implements p)" .
  from implemented_method [OF accepts_implements [OF t(2) p(2)], of Snuggle]
  obtain out where "love cat p = Inr out" by (auto simp: love_def trait_methods_def)
  with Love p t(3) pets_ok_move [OF ok] show ?thesis by simp
qed

lemma check_all_sound:
  "check_all v p e = Some e' \<Longrightarrow> v \<noteq> Naive \<Longrightarrow> pets_ok e s \<Longrightarrow> \<exists>s'. ofold (pet_exec cat) p s = Inr s'"
proof (induction p arbitrary: e s)
  case Nil
  then show ?case by simp
next
  case (Cons c p)
  from Cons.prems(1) obtain e1 where c: "pet_check v c e = Some e1" and p: "check_all v p e1 = Some e'"
    by (auto split: option.splits)
  from pet_check_sound [OF c Cons.prems(2,3)] obtain s1 where "pet_exec cat c s = Inr s1" "pets_ok e1 s1"
    by blast
  with Cons.IH [OF p Cons.prems(2)] show ?case by simp
qed

section \<open>Properties\<close>

text \<open>
  C35: what the checker accepts without subtyping behind mutable references runs without ever
  calling a method that the object lacks or using a moved value.
\<close>

theorem no_meowing_dogs:
  assumes "pet_accepted v p" and "v \<noteq> Naive"
  shows "\<exists>s. pet_run cat p = Inr s"
proof -
  from assms(1) obtain e' where "check_all v p \<lparr>types = [], ref_types = []\<rparr> = Some e'"
    by (auto simp: pet_accepted_def)
  moreover have "pets_ok \<lparr>types = [], ref_types = []\<rparr> no_pets"
    by (simp add: pets_ok_def no_pets_def slot_def)
  ultimately show ?thesis using check_all_sound assms(2) unfolding pet_run_def by blast
qed

lemma no_meowing_dogs_witness:
  "pet_accepted Invariant [Let Dog TestDog, Call 0 Bark, Love 0]
    \<and> (\<exists>s. pet_run (\<lambda>_. []) [Let Dog TestDog, Call 0 Bark, Love 0] = Inr s)"
proof -
  have "pet_accepted Invariant [Let Dog TestDog, Call 0 Bark, Love 0]" by code_simp
  with no_meowing_dogs [of Invariant "[Let Dog TestDog, Call 0 Bark, Love 0]" "\<lambda>_. []"]
  show ?thesis by simp
qed

text \<open>
  the three readings differ as the comments say: without subtyping \<open>love(mr_snuggles)\<close> is
  an error, with it the call is legal and snuggles; and only the naive rule accepts the
  program in which a dog is asked to meow.
\<close>

theorem variance_of_file:
  "\<not> pet_accepted Strict love_mr_snuggles \<and> pet_accepted Invariant love_mr_snuggles
   \<and> pet_run cat love_mr_snuggles = Inr \<lparr>slots = [None], mut_refs = [], heard = cat Snuggle\<rparr>
   \<and> pet_accepted Naive meowing_dog \<and> pet_run cat meowing_dog = Inl (UB ''no such method'')
   \<and> \<not> pet_accepted Invariant meowing_dog"
proof -
  have "\<not> pet_accepted Strict love_mr_snuggles" "pet_accepted Invariant love_mr_snuggles"
    "pet_accepted Naive meowing_dog" "\<not> pet_accepted Invariant meowing_dog"
    by code_simp+
  then show ?thesis
    by (simp add: pet_run_def love_mr_snuggles_def meowing_dog_def no_pets_def use_slot_def slot_def
        love_def call_pet_def)
qed

end
