(* ===== verification/GreenMain.thy ===== *)
theory GreenMain
  imports GreenSwitch Decimal
begin

text \<open>
  The whole program \<open>main\<close> of \<^verbatim>\<open>green-thread-explained/src/main.rs\<close> on the machine of theory
  \<open>GreenSwitch\<close>: the two calls of \<open>spawn\<close>, the loop of \<open>run\<close>, the switch into the first closure,
  its lines, and its return. The addresses of the code and what a compiled function does to
  the machine before it returns are parameters, with the calling convention as contract. The
  word \<open>skip\<close> that the commented line of \<open>spawn\<close> would write is an option, so that the program
  and its variant with the line restored are one model.
\<close>

section \<open>What the closures print\<close>

definition closure_lines :: "nat \<Rightarrow> nat \<Rightarrow> string list" where
  "closure_lines k n =
     [''THREAD '' @ show_nat k @ '' STARTING''] @
     map (\<lambda>i. ''thread: '' @ show_nat k @ '' counter: '' @ show_nat i) [0..<n] @
     [''THREAD '' @ show_nat k @ '' FINISHED'']"

definition closure1 :: "string list" where
  "closure1 = closure_lines 1 10"

definition closure2 :: "string list" where
  "closure2 = closure_lines 2 15"

section \<open>The code in memory\<close>

text \<open>
  The address after the \<open>call switch\<close> of \<open>t_yield\<close>, the entries of the functions, and what the
  code at an entry does to the machine up to its final \<open>ret\<close>.
\<close>

record gt_code =
  after_switch :: u64
  guard_at :: u64
  closure1_at :: u64
  closure2_at :: u64
  body :: "u64 \<Rightarrow> mach \<Rightarrow> mach"

definition entries :: "gt_code \<Rightarrow> u64 option \<Rightarrow> u64 list" where
  "entries cd skip =
     [closure1_at cd, closure2_at cd, guard_at cd] @ (case skip of None \<Rightarrow> [] | Some s \<Rightarrow> [s])"

text \<open>
  The calling convention: a function leaves the stack pointer and the callee-saved registers as
  they were, and on the stacks it writes only below the stack pointer.
\<close>

definition keeps_abi :: "nat set \<Rightarrow> (nat \<Rightarrow> nat) \<Rightarrow> gt_code \<Rightarrow> u64 option \<Rightarrow> bool" where
  "keeps_abi os bases cd skip \<longleftrightarrow>
     (\<forall>f \<in> set (entries cd skip). \<forall>c. regs (body cd f c) = regs c \<and>
        (\<forall>j < MAX_THREADS. unat (rsp (regs c)) \<in> area os bases j \<longrightarrow>
           (\<forall>a \<in> area os bases j. unat (rsp (regs c)) \<le> a \<longrightarrow> mem (body cd f c) a = mem c a)))"

text \<open>No function and no return point is at address 0, and they are different addresses.\<close>

definition code_ok :: "gt_code \<Rightarrow> u64 option \<Rightarrow> bool" where
  "code_ok cd skip \<longleftrightarrow> 0 \<notin> set (after_switch cd # entries cd skip) \<and>
     distinct (after_switch cd # entries cd skip)"

section \<open>Running the program\<close>

definition x86_return :: "mach \<Rightarrow> mach" where
  "x86_return c =
     c\<lparr>pc := word_at (mem c) (unat (rsp (regs c))), regs := (regs c)\<lparr>rsp := rsp (regs c) + 8\<rparr>\<rparr>"

datatype gt_end = Exited int | Died fault | Hangs

type_synonym gt_state = "Runtime \<times> mach \<times> string list"

text \<open>\<open>while self.t_yield() {}\<close> and the exit of the process after it.\<close>

definition run_once ::
  "(full_context \<Rightarrow> full_context \<Rightarrow> mach \<Rightarrow> full_context \<times> mach) \<Rightarrow> gt_code \<Rightarrow> gt_state \<Rightarrow> gt_end + gt_state" where
  "run_once switch cd = (\<lambda>(rt, c, out).
     case t_yield (call_switch switch (after_switch cd)) c rt of
       None \<Rightarrow> Inl Hangs
     | Some (Inl e) \<Rightarrow> Inl (Died e)
     | Some (Inr NothingReady) \<Rightarrow> Inl (Exited 0)
     | Some (Inr (SwitchedTo rt' c')) \<Rightarrow> Inr (rt', c', out))"

text \<open>
  What comes next is decided by the program counter: back in \<open>t_yield\<close>, whose caller is the
  loop of \<open>run\<close>; at the entry of a closure, which prints its lines and returns; or at that of
  \<open>guard\<close> or \<open>skip\<close>, which print nothing. Anywhere else there is no code.
\<close>

definition gt_next ::
  "(full_context \<Rightarrow> full_context \<Rightarrow> mach \<Rightarrow> full_context \<times> mach) \<Rightarrow> gt_code \<Rightarrow> u64 option \<Rightarrow>
     gt_state \<Rightarrow> gt_end + gt_state" where
  "gt_next switch cd skip = (\<lambda>(rt, c, out).
     let f = pc c; c' = x86_return (body cd f c) in
     if f = after_switch cd
     then if t_yield_resumed rt then run_once switch cd (rt, c, out) else Inl (Exited 0)
     else if f = closure1_at cd then Inr (rt, c', out @ closure1)
     else if f = closure2_at cd then Inr (rt, c', out @ closure2)
     else if f = guard_at cd \<or> skip = Some f then Inr (rt, c', out)
     else Inl (Died (UB ''jump to an address without code'')))"

fun gt_steps ::
  "(full_context \<Rightarrow> full_context \<Rightarrow> mach \<Rightarrow> full_context \<times> mach) \<Rightarrow> gt_code \<Rightarrow> u64 option \<Rightarrow>
     nat \<Rightarrow> gt_state \<Rightarrow> (gt_end \<times> string list) option" where
  "gt_steps switch cd skip 0 s = None"
| "gt_steps switch cd skip (Suc n) s =
     (case gt_next switch cd skip s of
        Inl e \<Rightarrow> Some (e, snd (snd s))
      | Inr s' \<Rightarrow> gt_steps switch cd skip n s')"

text \<open>\<open>spawn\<close> on the runtime and on the memory, with the commented write as an option.\<close>

definition spawn_memory :: "gt_code \<Rightarrow> u64 option \<Rightarrow> u64 \<Rightarrow> nat \<Rightarrow> mach \<Rightarrow> mach" where
  "spawn_memory cd skip f s_ptr c =
     (let c' = spawn_stores (guard_at cd) f s_ptr c
      in case skip of None \<Rightarrow> c' | Some s \<Rightarrow> c'\<lparr>mem := store_word (s_ptr - 24) s (mem c')\<rparr>)"

definition spawn_on :: "gt_code \<Rightarrow> u64 option \<Rightarrow> u64 \<Rightarrow> Runtime \<times> mach \<Rightarrow> (Runtime \<times> mach) outcome" where
  "spawn_on cd skip f = (\<lambda>(rt, c).
     case find_available (threads rt) of
       None \<Rightarrow> Inl (Panic ''no available thread.'')
     | Some i \<Rightarrow> obind (spawn (guard_at cd) f rt) (\<lambda>rt'.
         Inr (rt', spawn_memory cd skip f (stack_top (stack (threads rt ! i))) c)))"

text \<open>\<open>vec![0_u8; DEFAULT_STACK_SIZE]\<close> for the four threads.\<close>

definition zero_stacks :: "(nat \<Rightarrow> nat) \<Rightarrow> mach \<Rightarrow> mach" where
  "zero_stacks bases c =
     c\<lparr>mem := (\<lambda>a. if \<exists>j \<in> set [0..<MAX_THREADS]. bases j \<le> a \<and> a < bases j + DEFAULT_STACK_SIZE
                   then 0 else mem c a)\<rparr>"

definition gt_boot :: "gt_code \<Rightarrow> u64 option \<Rightarrow> (nat \<Rightarrow> nat) \<Rightarrow> mach \<Rightarrow> (Runtime \<times> mach) outcome" where
  "gt_boot cd skip bases c =
     obind (spawn_on cd skip (closure1_at cd) (Runtime_new bases, zero_stacks bases c))
       (spawn_on cd skip (closure2_at cd))"

definition gt_program ::
  "(full_context \<Rightarrow> full_context \<Rightarrow> mach \<Rightarrow> full_context \<times> mach) \<Rightarrow> gt_code \<Rightarrow> u64 option \<Rightarrow>
     (nat \<Rightarrow> nat) \<Rightarrow> mach \<Rightarrow> nat \<Rightarrow> (gt_end \<times> string list) option" where
  "gt_program switch cd skip bases c n =
     (case gt_boot cd skip bases c of
        Inl e \<Rightarrow> Some (Died e, [])
      | Inr (rt, c') \<Rightarrow>
          (case run_once switch cd (rt, c', []) of
             Inl e \<Rightarrow> Some (e, [])
           | Inr s \<Rightarrow> gt_steps switch cd skip n s))"

section \<open>After the two calls of spawn\<close>

lemma sys_inv_mach: "sys_inv os bases (rt, c) \<Longrightarrow> sys_inv os bases (rt, c')"
  by (simp add: sys_inv_def)

lemma booted_runtime:
  assumes "separate os bases"
  obtains rt1 rt2 where "spawn g f1 (Runtime_new bases) = Inr rt1" and "spawn g f2 rt1 = Inr rt2"
    and "find_available (threads (Runtime_new bases)) = Some 1" and "find_available (threads rt1) = Some 2"
    and "\<And>c. sys_inv os bases (rt2, c)" and "current rt2 = 0" and "state (threads rt2 ! 1) = Ready"
    and "unat (rsp (ctx (threads rt2 ! 1))) = stack_top (zeroed_stack (bases 1) DEFAULT_STACK_SIZE) - 32"
    and "stack (threads rt1 ! 2) = zeroed_stack (bases 2) DEFAULT_STACK_SIZE"
proof -
  let ?rt0 = "Runtime_new bases"
  have ok: "bases_ok bases" using assms by (simp add: separate_def)
  have th: "stack (threads ?rt0 ! 1) = zeroed_stack (bases 1) DEFAULT_STACK_SIZE"
      "stack (threads ?rt0 ! 2) = zeroed_stack (bases 2) DEFAULT_STACK_SIZE"
      "state (threads ?rt0 ! 0) = Running" "state (threads ?rt0 ! 2) = Available"
    by (simp_all add: Runtime_new_threads Thread_new_def)
  obtain rt1 rt2 where s1: "spawn g f1 ?rt0 = Inr rt1" and s2: "spawn g f2 rt1 = Inr rt2"
    by (rule main_setup [OF ok, of g f1 f2]) (auto simp: gt_main_setup_def obind_eq_Inr)
  have a0: "find_available (threads ?rt0) = Some 1"
    by (simp add: Runtime_new_threads Thread_new_def)
  note i0 = sys_inv_start [OF ok, of os]
  note ef = spawn_effect [OF i0 [of undefined] s1 a0]
  have "current rt1 = current ?rt0" "length (threads rt1) = MAX_THREADS" "state (threads rt1 ! 1) = Ready"
      "unat (rsp (ctx (threads rt1 ! 1))) = stack_top (stack (threads ?rt0 ! 1)) - 32"
    by (rule ef, assumption)+
  then have e1: "current rt1 = 0" "length (threads rt1) = MAX_THREADS" "state (threads rt1 ! 1) = Ready"
      "unat (rsp (ctx (threads rt1 ! 1))) = stack_top (zeroed_stack (bases 1) DEFAULT_STACK_SIZE) - 32"
    unfolding th(1) by (simp_all add: Runtime_new_threads(2))
  have k1: "threads rt1 ! j = threads ?rt0 ! j" if "j < MAX_THREADS" "j \<noteq> 1" for j
    by (rule ef) (use that in blast)
  have i1: "sys_inv os bases (rt1, c)" for c
    using spawn_simulates(1) [OF assms i0 s1 a0 refl] by (rule sys_inv_mach)
  have r2: "threads rt1 ! 2 = threads ?rt0 ! 2" "threads rt1 ! 0 = threads ?rt0 ! 0"
    by (rule k1; simp add: MAX_THREADS_def)+
  have a1: "find_available (threads rt1) = Some 2"
    using e1(2,3) r2 th by (auto simp: find_available_Some MAX_THREADS_def less_2_cases_iff)
  note eg = spawn_effect [OF i1 [of undefined] s2 a1]
  have "current rt2 = current rt1" by (rule eg)
  moreover have k2: "threads rt2 ! 1 = threads rt1 ! 1"
    by (rule eg) (simp add: MAX_THREADS_def)
  ultimately have e2: "current rt2 = 0" "threads rt2 ! 1 = threads rt1 ! 1"
    using e1(1) by simp_all
  have i2: "sys_inv os bases (rt2, c)" for c
    using spawn_simulates(1) [OF assms i1 s2 a1 refl] by (rule sys_inv_mach)
  show thesis
    by (rule that [OF s1 s2 a0 a1 i2 e2(1)]) (simp_all only: e2(2) e1(3,4) r2(1) th(2))
qed

text \<open>The bounds of the aligned top of a fresh stack.\<close>

lemma fresh_top:
  assumes "bases_ok bases" and "i < MAX_THREADS"
  defines "top' \<equiv> stack_top (zeroed_stack (bases i) DEFAULT_STACK_SIZE)"
  shows "bases i + 32 \<le> top'" and "top' \<le> bases i + DEFAULT_STACK_SIZE" and "top' < 2 ^ 64"
proof -
  have "stack_ok (Thread_new (bases i) i)"
    using assms(1,2) by (simp add: stack_ok_def Thread_new_def bases_ok_def)
  from stack_top_bounds [OF this] show "bases i + 32 \<le> top'" "top' \<le> bases i + DEFAULT_STACK_SIZE" "top' < 2 ^ 64"
    by (simp_all add: top'_def Thread_new_def blk_end_def)
qed

lemma store_word_apart:
  "a + 8 \<le> b \<or> b + 8 \<le> a \<Longrightarrow> word_at (store_word b w \<mu>) a = word_at \<mu> a"
  by (intro word_at_cong store_word_other) auto

lemma spawn_memory_outside:
  assumes "32 \<le> p" and "a < p - 32 \<or> p \<le> a"
  shows "mem (spawn_memory cd skip f p c) a = mem c a"
proof -
  from assms(1) obtain q where p: "p = q + 32" by (metis le_add_diff_inverse2)
  with assms(2) show ?thesis
    by (auto simp: spawn_memory_def spawn_stores_def Let_def store_word_other split: option.splits)
qed

text \<open>The four words at the top of a stack.\<close>

lemma spawn_memory_words:
  assumes "32 \<le> p"
  shows "word_at (mem (spawn_memory cd skip f p c)) (p - 32) = f"
    and "word_at (mem (spawn_memory cd skip f p c)) (p - 24) =
      (case skip of None \<Rightarrow> word_at (mem c) (p - 24) | Some s \<Rightarrow> s)"
    and "word_at (mem (spawn_memory cd skip f p c)) (p - 16) = guard_at cd"
    and "word_at (mem (spawn_memory cd skip f p c)) (p - 8) = word_at (mem c) (p - 8)"
proof -
  from assms obtain q where p: "p = q + 32" by (metis le_add_diff_inverse2)
  show "word_at (mem (spawn_memory cd skip f p c)) (p - 32) = f"
    "word_at (mem (spawn_memory cd skip f p c)) (p - 24) =
      (case skip of None \<Rightarrow> word_at (mem c) (p - 24) | Some s \<Rightarrow> s)"
    "word_at (mem (spawn_memory cd skip f p c)) (p - 16) = guard_at cd"
    "word_at (mem (spawn_memory cd skip f p c)) (p - 8) = word_at (mem c) (p - 8)"
    by (auto simp: p spawn_memory_def spawn_stores_def Let_def store_word_apart split: option.splits)
qed

lemma zero_word:
  assumes "j < MAX_THREADS" and "bases j \<le> a" and "a + 8 \<le> bases j + DEFAULT_STACK_SIZE"
  shows "word_at (mem (zero_stacks bases c)) a = 0"
proof -
  have "word_at (mem (zero_stacks bases c)) a = word_at (\<lambda>_. 0) a"
    using assms by (intro word_at_cong) (auto simp: zero_stacks_def dest!: bspec [of _ _ j])
  also have "\<dots> = 0" by (rule bit_word_eqI) (simp add: word_at_def bit_of_le_bytes)
  finally show ?thesis .
qed

section \<open>Functions that return\<close>

text \<open>
  On the stack \<open>A\<close> the machine is at \<open>p\<close>: below it anything may have been written, from there
  on the memory is \<open>\<mu>\<close>.
\<close>

definition stack_at :: "nat set \<Rightarrow> (nat \<Rightarrow> u8) \<Rightarrow> nat \<Rightarrow> mach \<Rightarrow> bool" where
  "stack_at A \<mu> p c \<longleftrightarrow> unat (rsp (regs c)) = p \<and> (\<forall>a \<in> A. p \<le> a \<longrightarrow> mem c a = \<mu> a)"

lemma function_returns:
  assumes "keeps_abi os bases cd skip" and "f \<in> set (entries cd skip)" and "j < MAX_THREADS"
    and "stack_at (area os bases j) \<mu> p c"
    and "{p ..< p + 8} \<subseteq> area os bases j" and "p + 8 < 2 ^ 64"
  shows "pc (x86_return (body cd f c)) = word_at \<mu> p"
    and "stack_at (area os bases j) \<mu> (p + 8) (x86_return (body cd f c))"
proof -
  let ?A = "area os bases j" and ?b = "body cd f c"
  have p: "unat (rsp (regs c)) = p" and m: "\<And>a. a \<in> ?A \<Longrightarrow> p \<le> a \<Longrightarrow> mem c a = \<mu> a"
    using assms(4) by (auto simp: stack_at_def)
  have "p \<in> ?A" using assms(5) by auto
  with assms(1-3) p have b: "regs ?b = regs c" "\<And>a. a \<in> ?A \<Longrightarrow> p \<le> a \<Longrightarrow> mem ?b a = mem c a"
    unfolding keeps_abi_def by metis+
  have "word_at (mem ?b) p = word_at \<mu> p"
    using assms(5) b(2) m by (intro word_at_cong) auto
  then show "pc (x86_return ?b) = word_at \<mu> p" by (simp add: x86_return_def b(1) p)
  show "stack_at ?A \<mu> (p + 8) (x86_return ?b)"
    using unat_add8 [OF p assms(6)] b m by (simp add: stack_at_def x86_return_def)
qed

section \<open>The switch into the first closure\<close>

lemma spawn_memory_regs [simp]: "regs (spawn_memory cd skip f p c) = regs c"
  by (simp add: spawn_memory_def spawn_stores_def Let_def split: option.splits)

lemma zero_stacks_regs [simp]: "regs (zero_stacks bases c) = regs c"
  by (simp add: zero_stacks_def)

lemma round_robin_first_ready:
  assumes "length ts = MAX_THREADS" and "state (ts ! 0) = Running" and "state (ts ! 1) = Ready"
  shows "round_robin ts 0 = Some 1"
proof -
  have "[0..<MAX_THREADS] = [0, 1, 2, 3]" by (simp add: MAX_THREADS_def upt_rec)
  with assms show ?thesis by (simp add: round_robin_def MAX_THREADS_def)
qed

lemma first_closure_entered:
  fixes bases :: "nat \<Rightarrow> nat"
  defines "p \<equiv> stack_top (zeroed_stack (bases 1) DEFAULT_STACK_SIZE)"
  assumes sep: "separate os bases" and sw: "saves_and_loads switch"
    and room: "has_room os bases (Runtime_new bases) c"
  obtains rt2 c2 rt' c' where "gt_boot cd skip bases c = Inr (rt2, c2)"
    and "run_once switch cd (rt2, c2, []) = Inr (rt', c', [])"
    and "pc c' = closure1_at cd"
    and "stack_at (area os bases 1) (mem (spawn_memory cd skip (closure1_at cd) p (zero_stacks bases c)))
           (p - 24) c'"
proof -
  have ok: "bases_ok bases" using sep by (simp add: separate_def)
  note t1 = fresh_top [OF ok, of 1, folded p_def]
  have one: "1 < MAX_THREADS" "2 < MAX_THREADS" by (simp_all add: MAX_THREADS_def)
  note t1 = t1 [OF one(1)] and t2 = fresh_top [OF ok one(2)]
  let ?A = "area os bases 1" and ?q = "stack_top (zeroed_stack (bases 2) DEFAULT_STACK_SIZE)"
  obtain rt1 rt2 where b: "spawn (guard_at cd) (closure1_at cd) (Runtime_new bases) = Inr rt1"
      "spawn (guard_at cd) (closure2_at cd) rt1 = Inr rt2"
      "find_available (threads (Runtime_new bases)) = Some 1" "find_available (threads rt1) = Some 2"
      "\<And>c. sys_inv os bases (rt2, c)" "current rt2 = 0" "state (threads rt2 ! 1) = Ready"
      "unat (rsp (ctx (threads rt2 ! 1))) = p - 32"
      "stack (threads rt1 ! 2) = zeroed_stack (bases 2) DEFAULT_STACK_SIZE"
    by (rule booted_runtime [OF sep, where g = "guard_at cd" and ?f1.0 = "closure1_at cd"
          and ?f2.0 = "closure2_at cd"]) (rule that, simp_all only: p_def)
  let ?c1 = "spawn_memory cd skip (closure1_at cd) p (zero_stacks bases c)"
  let ?c2 = "spawn_memory cd skip (closure2_at cd) ?q ?c1"
  have "stack (threads (Runtime_new bases) ! 1) = zeroed_stack (bases 1) DEFAULT_STACK_SIZE"
    by (simp add: Runtime_new_threads Thread_new_def)
  then have boot: "gt_boot cd skip bases c = Inr (rt2, ?c2)"
    by (simp add: gt_boot_def spawn_on_def b(1-4,9) p_def)
  note d = sys_invD [OF b(5) [of ?c2]]
  obtain rt' c' where y: "t_yield (call_switch switch (after_switch cd)) ?c2 rt2 = Some (Inr (SwitchedTo rt' c'))"
    by (rule t_yield_progress [OF d(1)]) (use one(1) d(3) b(7) in simp_all)
  obtain pos where pos: "round_robin (threads rt2) (current rt2) = Some pos"
    and m: "mem c' = store_word (unat (rsp (regs ?c2) - 8)) (after_switch cd) (mem ?c2)"
    and r: "regs c' = (ctx (threads rt2 ! pos))\<lparr>rsp := rsp (ctx (threads rt2 ! pos)) + 8\<rparr>"
    and pcc: "pc c' = word_at (mem c') (unat (rsp (ctx (threads rt2 ! pos))))"
    by (rule yield_effect [OF b(5) sw y]) (rule that)
  have "pos = 1"
    using pos round_robin_first_ready [OF d(3)] d(7) b(6,7) by simp
  note r = r [unfolded this] and pcc = pcc [unfolded this b(8)]
  have A: "{p - 32 ..< p} \<subseteq> ?A" using t1 by (auto simp: area_def)
  have osA: "a \<notin> area os bases 0" "a \<notin> area os bases 2" if "a \<in> ?A" for a
    using separate_disjoint [OF sep _ one(1) _ that] one by simp_all
  have slot: "{unat (rsp (regs c)) - 8 ..< unat (rsp (regs c)) - 8 + 8} \<subseteq> area os bases 0"
      "unat (rsp (regs c) - 8) = unat (rsp (regs c)) - 8"
    using room by (auto simp: has_room_def unat_sub word_le_nat_alt Runtime_new_threads(2))
  have same: "mem c' a = mem ?c1 a" if "a \<in> ?A" for a
  proof -
    have "a < ?q - 32 \<or> ?q \<le> a" using osA(2) [OF that] t2 by (auto simp: area_def)
    then have "mem ?c2 a = mem ?c1 a" using t2(1) by (intro spawn_memory_outside) simp_all
    with osA(1) [OF that] slot show ?thesis by (simp add: m store_word_outside)
  qed
  have "{p - 32 ..< p - 32 + 8} \<subseteq> {p - 32 ..< p}" using t1(1) by auto
  then have "{p - 32 ..< p - 32 + 8} \<subseteq> ?A" using A by (rule subset_trans)
  then have "pc c' = word_at (mem ?c1) (p - 32)"
    unfolding pcc using same by (rule word_at_outside)
  with spawn_memory_words(1) [of p cd skip "closure1_at cd"] t1(1) have "pc c' = closure1_at cd" by simp
  moreover have "unat (rsp (regs c')) = p - 24"
    using unat_add8 [OF b(8)] t1(1,3) by (simp add: r)
  then have "stack_at ?A (mem ?c1) (p - 24) c'" using same by (simp add: stack_at_def)
  moreover have "run_once switch cd (rt2, ?c2, []) = Inr (rt', c', [])" by (simp add: run_once_def y)
  ultimately show thesis using that boot by blast
qed

section \<open>The returns\<close>

text \<open>
  What the machine does from the entry of the first closure on. Its return goes to the word
  above the entry of the function: to address 0, or through \<open>skip\<close> to \<open>guard\<close>, which returns
  to the word above that, 0 as well.
\<close>

lemma dead_end:
  assumes "code_ok cd skip" and "pc c = 0"
  shows "gt_next switch cd skip (rt, c, out) = Inl (Died (UB ''jump to an address without code''))"
  using assms by (auto simp: gt_next_def code_ok_def entries_def Let_def split: option.splits)

lemma function_step:
  assumes "code_ok cd skip" and "pc c \<in> set (entries cd skip)"
  shows "gt_next switch cd skip (rt, c, out) = Inr (rt, x86_return (body cd (pc c) c),
    out @ (if pc c = closure1_at cd then closure1 else if pc c = closure2_at cd then closure2 else []))"
  using assms by (auto simp: gt_next_def code_ok_def entries_def Let_def split: option.splits)

lemma closure_returns:
  fixes bases :: "nat \<Rightarrow> nat"
  defines "p \<equiv> stack_top (zeroed_stack (bases 1) DEFAULT_STACK_SIZE)"
  assumes ok: "bases_ok bases" and abi: "keeps_abi os bases cd skip" and cd: "code_ok cd skip"
    and c: "pc c = closure1_at cd" "stack_at (area os bases 1)
      (mem (spawn_memory cd skip (closure1_at cd) p (zero_stacks bases z))) (p - 24) c"
    and n: "4 \<le> n"
  shows "gt_steps switch cd skip n (rt, c, []) =
    Some (Died (UB ''jump to an address without code''), closure1)"
proof -
  let ?A = "area os bases 1" and ?\<mu> = "mem (spawn_memory cd skip (closure1_at cd) p (zero_stacks bases z))"
  have one: "1 < MAX_THREADS" by (simp add: MAX_THREADS_def)
  note t = fresh_top [OF ok one, folded p_def]
  from t(1) obtain q where q: "p = q + 32" "bases 1 \<le> q" by (metis add_le_cancel_right le_add_diff_inverse2 add_leE)
  have A: "{q + k ..< q + k + 8} \<subseteq> ?A" if "k \<le> 24" for k using that t(2) q by (auto simp: area_def)
  have lim: "q + k + 8 < 2 ^ 64" if "k \<le> 24" for k using that t(3) q(1) by simp
  have ret: "pc (x86_return (body cd f m)) = word_at ?\<mu> (q + k)"
      "stack_at ?A ?\<mu> (q + (k + 8)) (x86_return (body cd f m))"
    if "f \<in> set (entries cd skip)" "stack_at ?A ?\<mu> (q + k) m" "k \<le> 24" for f m k
    using function_returns [OF abi that(1) one that(2) A [OF that(3)] lim [OF that(3)]]
    by (simp_all only: add.assoc)
  have z: "word_at (mem (zero_stacks bases z)) (q + k) = 0" if "k \<le> 24" for k
    by (rule zero_word [OF one]) (use that t(2) q in simp_all)
  have sub: "p - 24 = q + 8" "p - 16 = q + 16" "p - 8 = q + 24" using q(1) by simp_all
  have "32 \<le> p" using q(1) by simp
  note w = spawn_memory_words [OF this, of cd skip "closure1_at cd" "zero_stacks bases z", unfolded sub]
  have w24: "word_at ?\<mu> (q + 8) = (case skip of None \<Rightarrow> 0 | Some s \<Rightarrow> s)"
    unfolding w(2) using z [of 8] by (simp split: option.splits)
  have w8: "word_at ?\<mu> (q + 24) = 0" unfolding w(4) using z [of 24] by simp
  obtain k where k: "n = Suc (Suc (Suc (Suc k)))" using n by (auto simp: le_iff_add eval_nat_numeral)
  define c1 where "c1 = x86_return (body cd (pc c) c)"
  have f1: "pc c \<in> set (entries cd skip)" by (simp add: c(1) entries_def)
  have s1: "gt_next switch cd skip (rt, c, []) = Inr (rt, c1, closure1)"
    using function_step [OF cd f1] c(1) by (simp add: c1_def)
  have r1: "pc c1 = word_at ?\<mu> (q + 8)" "stack_at ?A ?\<mu> (q + 16) c1"
    using ret [OF f1, of 8 c] c(2) unfolding sub c1_def by simp_all
  show ?thesis
  proof (cases skip)
    case None
    with r1(1) w24 have "pc c1 = 0" by simp
    from dead_end [OF cd this] s1 show ?thesis by (simp add: k)
  next
    case (Some s)
    define c2 where "c2 = x86_return (body cd (pc c1) c1)"
    define c3 where "c3 = x86_return (body cd (pc c2) c2)"
    have p1: "pc c1 = s" using r1(1) w24 Some by simp
    then have f2: "pc c1 \<in> set (entries cd skip)" by (simp add: Some entries_def)
    have d: "s \<noteq> closure1_at cd" "s \<noteq> closure2_at cd" "guard_at cd \<noteq> closure1_at cd" "guard_at cd \<noteq> closure2_at cd"
      using cd by (auto simp: code_ok_def entries_def Some)
    have s2: "gt_next switch cd skip (rt, c1, closure1) = Inr (rt, c2, closure1)"
      using function_step [OF cd f2] d p1 by (simp add: c2_def)
    have r2: "pc c2 = guard_at cd" "stack_at ?A ?\<mu> (q + 24) c2"
      using ret [OF f2, of 16 c1] r1(2) w(3) by (simp_all add: c2_def)
    then have f3: "pc c2 \<in> set (entries cd skip)" by (simp add: entries_def)
    have s3: "gt_next switch cd skip (rt, c2, closure1) = Inr (rt, c3, closure1)"
      using function_step [OF cd f3] d r2(1) by (simp add: c3_def)
    have "pc c3 = 0" using ret(1) [OF f3 r2(2)] w8 by (simp add: c3_def)
    from dead_end [OF cd this] s1 s2 s3 show ?thesis by (simp add: k)
  qed
qed

section \<open>Properties\<close>

text \<open>
  C12: The program of \<open>main.rs\<close> ends in a crash after the first closure. Whatever routine saves and
  loads contexts is linked in, the lines printed are exactly those of the first closure, and
  the next thing the processor does is to jump to address 0: the second closure is never
  entered, the loop of \<open>run\<close> never regains control and the process does not exit. Restoring the
  commented write of \<open>skip\<close> changes nothing in this, since \<open>guard\<close> is empty and returns.
\<close>

theorem gt_program_outcome:
  assumes "separate os bases" and "saves_and_loads switch" and "has_room os bases (Runtime_new bases) c"
    and "keeps_abi os bases cd skip" and "code_ok cd skip" and "4 \<le> n"
  shows "gt_program switch cd skip bases c n =
    Some (Died (UB ''jump to an address without code''), closure1)"
proof -
  obtain rt2 c2 rt' c' where e: "gt_boot cd skip bases c = Inr (rt2, c2)"
      "run_once switch cd (rt2, c2, []) = Inr (rt', c', [])" "pc c' = closure1_at cd"
      "stack_at (area os bases 1) (mem (spawn_memory cd skip (closure1_at cd)
         (stack_top (zeroed_stack (bases 1) DEFAULT_STACK_SIZE)) (zero_stacks bases c)))
         (stack_top (zeroed_stack (bases 1) DEFAULT_STACK_SIZE) - 24) c'"
    by (rule first_closure_entered [OF assms(1-3)]) (rule that)
  have "bases_ok bases" using assms(1) by (simp add: separate_def)
  from closure_returns [OF this assms(4,5) e(3,4) assms(6)] e(1,2) show ?thesis
    by (simp add: gt_program_def)
qed

text \<open>A machine code whose functions only return, without and with the restored word.\<close>

definition sample_code :: gt_code where
  "sample_code = \<lparr>after_switch = 0x1100, guard_at = 0x1200, closure1_at = 0x1300,
     closure2_at = 0x1400, body = (\<lambda>f c. c)\<rparr>"

lemma gt_program_outcome_witness:
  "gt_program sample_switch sample_code None sample_bases sample_mach 9 =
     Some (Died (UB ''jump to an address without code''), closure1) \<and>
   gt_program sample_switch sample_code (Some 0x1500) sample_bases sample_mach 9 =
     Some (Died (UB ''jump to an address without code''), closure1)"
proof -
  have r: "has_room sample_os sample_bases (Runtime_new sample_bases) sample_mach"
    by (auto simp: has_room_def sample_mach_def sample_os_def area_def Runtime_new_threads(2))
  have "keeps_abi sample_os sample_bases sample_code sk" for sk
    by (simp add: keeps_abi_def sample_code_def)
  moreover have "code_ok sample_code None" "code_ok sample_code (Some 0x1500)"
    by (simp_all add: code_ok_def entries_def sample_code_def)
  ultimately show ?thesis
    using gt_program_outcome [OF sample_separate sample_switch_ok r] by simp
qed

text \<open>
  The lines themselves: ten counters between a first and a last line, and none of thread 2.
\<close>

theorem first_closure_lines:
  "length closure1 = 12 \<and> hd closure1 = ''THREAD 1 STARTING'' \<and> closure1 ! 10 = ''thread: 1 counter: 9'' \<and>
   last closure1 = ''THREAD 1 FINISHED'' \<and> set closure1 \<inter> set closure2 = {}"
  by code_simp

end
