(* ===== verification/Mains.thy ===== *)
theory Mains
  imports Traversal Idioms Dispatch Decimal
begin

text \<open>
  Test functions and main programs that put the functions of several theories together: the
  two timing experiments of \<^verbatim>\<open>write-cpu-adaptation-code\<close>, with the trace of what each timed call
  does in place of its time, \<open>main\<close> of \<^verbatim>\<open>stack-changes-during-function-calls\<close>, the test of
  \<^verbatim>\<open>limits_of_lifetimes.rs\<close> and that of the iterators.
\<close>

section \<open>The timing experiments\<close>

definition test_nums :: matrix where
  "test_nums =
     [[1, 2, 3, 4, 5, 6, 7, 8], [2, 3, 4, 5, 6, 7, 8, 9], [3, 4, 5, 6, 7, 8, 9, 10],
      [4, 5, 6, 7, 8, 9, 10, 11], [1, 2, 3, 4, 5, 6, 7, 8], [2, 3, 4, 5, 6, 7, 8, 9],
      [3, 4, 5, 6, 7, 8, 9, 10], [4, 5, 6, 7, 8, 9, 10, 11]]"

text \<open>The two timed calls, both of \<open>traverse1\<close>; the result has the elements each writes.\<close>

definition test_data_cache_hit :: "((nat \<times> nat) list \<times> (nat \<times> nat) list) outcome" where
  "test_data_cache_hit =
     obind (traverse1 test_nums) (\<lambda>(_, t1). obind (traverse1 test_nums) (\<lambda>(_, t2). Inr (t1, t2)))"

text \<open>
  The shuffled numbers from 1 to 99 are an argument; the branch outcomes of the two timed calls,
  both of \<open>traverse_before_sort\<close>.
\<close>

definition shuffled :: "int list \<Rightarrow> bool" where
  "shuffled nums \<longleftrightarrow> mset nums = mset (map int [1..<100])"

definition test_instruction_cache_hit :: "int list \<Rightarrow> (bool list \<times> bool list) outcome" where
  "test_instruction_cache_hit nums =
     obind (traverse_before_sort nums) (\<lambda>(_, b1).
     obind (traverse_before_sort nums) (\<lambda>(_, b2). Inr (b1, b2)))"

section \<open>Small programs\<close>

definition sum_main :: "string outcome" where
  "sum_main = obind (sum_i32 5 10) (\<lambda>z. Inr (''x + y = '' @ show_int (sint z)))"

text \<open>The map of the test: three insertions, then the lookup and the line it prints.\<close>

definition test_get_default :: "nat \<Rightarrow> string outcome" where
  "test_get_default key =
     (let m = Map.empty(0 \<mapsto> ''AD'', 1 \<mapsto> ''BD'', 3 \<mapsto> ''CD'')
      in obind (get_default m key) (\<lambda>(v, _). Inr v))"

text \<open>The assertions of \<open>iterator_demonstration\<close> in order, and the lines of its loop.\<close>

definition iterator_demonstration :: "string list outcome" where
  "iterator_demonstration =
     (let v = [0, 1, 2, 3, 4 :: int] in
      if iter_calls 6 v = [Some 0, Some 1, Some 2, Some 3, Some 4, None]
      then Inr (for_loop (\<lambda>x out. out @ [''Got '' @ show_int x]) v [])
      else Inl (Panic ''assertion failed''))"

section \<open>Properties\<close>

text \<open>
  The first experiment times the same traversal twice: both calls enter a cache line 8 times,
  while the function it means to compare with would enter one 64 times.
\<close>

theorem data_cache_test:
  "test_data_cache_hit = Inr (positions 8, positions 8) \<and> line_misses (positions 8) = 8 \<and>
   (\<exists>m t. traverse2 test_nums = Inr (m, t) \<and> line_misses t = 64)"
proof -
  have "square 8 test_nums" by (simp add: square_def test_nums_def)
  from traversals_agree [OF this] show ?thesis by (auto simp: test_data_cache_hit_def)
qed

lemma shuffled_below: "shuffled nums \<Longrightarrow> length (filter (\<lambda>b. b) (map (\<lambda>x. x < 50) nums)) = 49"
proof -
  assume "shuffled nums"
  then have "mset (filter (\<lambda>x. x < 50) nums) = mset (filter (\<lambda>x. x < 50) (map int [1..<100]))"
    by (simp only: shuffled_def mset_filter)
  then have "length (filter (\<lambda>x. x < 50) nums) = length (filter (\<lambda>x. x < 50) (map int [1..<100]))"
    by (metis size_mset)
  also have "\<dots> = 49" by code_simp
  finally show ?thesis by (simp add: filter_map comp_def)
qed

text \<open>
  The second experiment, for every shuffle: the two timed calls take the same branches, 49 of
  the 99 tests are true in each, and only a call of \<open>traverse_after_sort\<close>, which is never made,
  would have them in two runs.
\<close>

theorem instruction_cache_test:
  assumes "shuffled nums"
  shows "\<exists>b. test_instruction_cache_hit nums = Inr (b, b) \<and> length b = 99 \<and>
    length (filter (\<lambda>x. x) b) = 49 \<and>
    (\<exists>ns b'. traverse_after_sort nums = Inr (ns, b') \<and> flips b' \<le> 1)"
proof -
  from assms have "size (mset nums) = size (mset (map int [1..<100]))" by (simp only: shuffled_def)
  then have "length nums = 99" by simp
  moreover have "traverse_before_sort nums = Inr (sort (map threshold nums), map (\<lambda>x. x < 50) nums)"
    by (simp add: traverse_before_sort_def threshold_loop_map)
  moreover have "traverse_after_sort nums = Inr (map threshold (sort nums), map (\<lambda>x. x < 50) (sort nums))"
    by (simp add: traverse_after_sort_def threshold_loop_map)
  ultimately show ?thesis
    using shuffled_below [OF assms] flips_sorted [of "sort nums"]
    by (simp add: test_instruction_cache_hit_def)
qed

lemma instruction_cache_test_witness:
  "\<exists>b. test_instruction_cache_hit (rev (map int [1..<100])) = Inr (b, b) \<and> length b = 99"
  using instruction_cache_test [of "rev (map int [1..<100])"] by (auto simp: shuffled_def)

text \<open>What the other programs print; the key of the test is present, a missing one panics.\<close>

theorem main_outputs:
  "sum_main = Inr ''x + y = 15'' \<and> test_get_default 0 = Inr ''AD'' \<and>
   test_get_default 2 = Inl (Panic ''not yet implemented'') \<and>
   iterator_demonstration = Inr [''Got 0'', ''Got 1'', ''Got 2'', ''Got 3'', ''Got 4'']"
  by code_simp

end
