(* ===== verification/EventQueue.thy ===== *)
theory EventQueue
  imports EpollExample
begin

text \<open>
  The parts of \<^verbatim>\<open>minimio\<close> together, used the way the comments of \<^verbatim>\<open>lib.rs\<close> ask for: threads
  register interest through \<open>Registrator\<close>s while others wait in \<open>select\<close>, in any order and on
  any number of event queues. A history is the list of the calls that returned, with what they
  returned; a wait that blocks for ever is not in it. The operations are those of theory
  \<open>Epoll\<close>; the definitions here are the clients' side of them and the specification: for every
  event queue the registrations that wait to be reported.
\<close>

section \<open>Histories of calls\<close>

datatype queue_op = Register Registrator i32 u64 Interests | Select Selector "i32 option"

datatype queue_res = Registered | Failed i32 | Panicked | Delivered "u64 list"

text \<open>What a client finds in its vector, read with \<open>Event::data\<close>.\<close>

definition vec_tokens :: "event_vec \<Rightarrow> u64 list outcome" where
  "vec_tokens v = obind (vec_elems v [0..<vec_len v]) (\<lambda>es. Inr (map Event_data es))"

text \<open>A panic of \<open>register\<close> ends the thread that called it; the others go on.\<close>

fun queue_exec :: "'k libc \<Rightarrow> queue_op \<Rightarrow> 'k \<times> event_vec \<Rightarrow> (queue_res \<times> 'k \<times> event_vec) outcome" where
  "queue_exec L (Register r fd token interest) (k, v) =
     (case register L r fd token interest k of
        Inl (UB m) \<Rightarrow> Inl (UB m)
      | Inl (Panic m) \<Rightarrow> Inr (Panicked, k, v)
      | Inr (Inl e, k') \<Rightarrow> Inr (Failed e, k', v)
      | Inr (Inr _, k') \<Rightarrow> Inr (Registered, k', v))"
| "queue_exec L (Select s timeout_ms) (k, v) =
     obind (select L s v timeout_ms k) (\<lambda>(res, v', k'). case res of
        Inl e \<Rightarrow> Inr (Failed e, k', v')
      | Inr _ \<Rightarrow> obind (vec_tokens v') (\<lambda>ts. Inr (Delivered ts, k', v')))"

fun queue_run :: "'k libc \<Rightarrow> queue_op list \<Rightarrow> 'k \<times> event_vec \<Rightarrow>
    ((queue_op \<times> queue_res) list \<times> 'k \<times> event_vec) outcome" where
  "queue_run L [] s = Inr ([], s)"
| "queue_run L (opn # ops) s =
     obind (queue_exec L opn s) (\<lambda>(res, s').
     obind (queue_run L ops s') (\<lambda>(h, s''). Inr ((opn, res) # h, s'')))"

text \<open>
  The field of \<open>Interests\<close> is private, so that clients have the two constants only.
\<close>

fun legal_op :: "queue_op \<Rightarrow> bool" where
  "legal_op (Register r fd token interest) \<longleftrightarrow>
     interest = Interests_READABLE \<or> interest = Interests_WRITABLE"
| "legal_op (Select s t) \<longleftrightarrow> True"

text \<open>One call as a step that is labelled with the call and its result.\<close>

fun queue_act :: "'k libc \<Rightarrow> queue_op \<times> queue_res \<Rightarrow> 'k \<times> event_vec \<Rightarrow> 'k \<times> event_vec \<Rightarrow> bool" where
  "queue_act L (opn, res) s t \<longleftrightarrow> legal_op opn \<and> queue_exec L opn s = Inr (res, t)"

section \<open>The specification\<close>

text \<open>The errors of a call: those the kernel gives when it fails with exactly these arguments.\<close>

fun call_error :: "'k libc \<Rightarrow> queue_op \<Rightarrow> i32 \<Rightarrow> bool" where
  "call_error L (Register r fd x i) e \<longleftrightarrow>
     (\<exists>k ret k'. sys_epoll_ctl L (reg_fd r) EPOLL_CTL_ADD fd (Event_new (EPOLLIN OR EPOLLONESHOT) x) k =
        (ret, k') \<and> sint ret < 0 \<and> e = last_errno L k')"
| "call_error L (Select s t) e \<longleftrightarrow>
     (\<exists>k ret evs k'. sys_epoll_wait L (sel_fd s) 1024 (case t of None \<Rightarrow> - 1 | Some t \<Rightarrow> t) k =
        ((ret, evs), k') \<and> sint ret < 0 \<and> e = last_errno L k')"

text \<open>
  A registration for reading adds to the queue of its registrator; a wait takes some of the
  registrations of its own queue and delivers their tokens, at least one if it has no timeout;
  asking for writing panics; an error is one of the kernel's, and then nothing has changed.
\<close>

inductive oq_step :: "(queue_op \<Rightarrow> i32 \<Rightarrow> bool) \<Rightarrow> queue_op \<times> queue_res \<Rightarrow>
    registrations \<Rightarrow> registrations \<Rightarrow> bool" for err where
  oq_add: "oq_step err (Register r fd x Interests_READABLE, Registered) a
     (a(reg_fd r := add_mset (fd, x) (a (reg_fd r))))"
| oq_panic: "oq_step err (Register r fd x Interests_WRITABLE, Panicked) a a"
| oq_fail: "err opn e \<Longrightarrow> oq_step err (opn, Failed e) a a"
| oq_deliver: "a (sel_fd s) = gone + rest \<Longrightarrow> mset ts = image_mset snd gone \<Longrightarrow> length ts \<le> 1024 \<Longrightarrow>
    (t = None \<longrightarrow> ts \<noteq> []) \<Longrightarrow>
    oq_step err (Select s t, Delivered ts) a (a(sel_fd s := rest))"

text \<open>What a history registered on a queue and what it got from it.\<close>

fun asked :: "i32 \<Rightarrow> (queue_op \<times> queue_res) list \<Rightarrow> u64 list" where
  "asked q [] = []"
| "asked q ((Register r fd x i, Registered) # h) = (if reg_fd r = q then x # asked q h else asked q h)"
| "asked q (_ # h) = asked q h"

fun got :: "i32 \<Rightarrow> (queue_op \<times> queue_res) list \<Rightarrow> u64 list" where
  "got q [] = []"
| "got q ((Select s t, Delivered ts) # h) = (if sel_fd s = q then ts @ got q h else got q h)"
| "got q (_ # h) = got q h"

text \<open>In the specification no token is lost or made up, and none gets to another queue.\<close>

lemma oq_run_accounted:
  "labelled_run (oq_step err) a h b \<Longrightarrow>
     mset (asked q h) + image_mset snd (a q) = mset (got q h) + image_mset snd (b q)"
proof (induction rule: labelled_run.induct)
  case (run_nil a)
  then show ?case by simp
next
  case (run_cons l a b h c)
  from run_cons(1) show ?case
  proof (cases rule: oq_step.cases)
    case (oq_add r fd x)
    with run_cons.IH show ?thesis by auto
  next
    case (oq_panic r fd x)
    with run_cons.IH show ?thesis by simp
  next
    case (oq_fail opn e)
    with run_cons.IH show ?thesis by (cases opn) simp_all
  next
    case (oq_deliver s gone rest ts t)
    with run_cons.IH show ?thesis by (auto simp: ac_simps)
  qed
qed

section \<open>One call\<close>

lemma register_legal:
  assumes "oneshot_epoll L armed"
  shows "register L r fd x Interests_WRITABLE k = Inl (Panic ''not implemented'')"
    and "\<exists>res k'. register L r fd x Interests_READABLE k = Inr (res, k') \<and>
      (case res of
         Inl e \<Rightarrow> call_error L (Register r fd x i) e \<and> armed k' = armed k
       | Inr _ \<Rightarrow> armed k' = (armed k)(reg_fd r := add_mset (fd, x) (armed k (reg_fd r))))"
proof -
  show "register L r fd x Interests_WRITABLE k = Inl (Panic ''not implemented'')"
    by (simp add: register_def register_writable_def)
  obtain ret k' where c: "sys_epoll_ctl L (reg_fd r) EPOLL_CTL_ADD fd
      (Event_new (EPOLLIN OR EPOLLONESHOT) x) k = (ret, k')" by (metis surj_pair)
  note a = oneshot_epoll_add [OF assms c]
  have r: "register L r fd x Interests_READABLE k =
      Inr (if sint ret < 0 then Inl (last_errno L k') else Inr (), k')"
    using c by (simp add: register_def register_writable_def epoll_ctl_def)
  have "call_error L (Register r fd x i) (last_errno L k')" if "sint ret < 0"
    unfolding call_error.simps using c that by blast
  with r a show "\<exists>res k'. register L r fd x Interests_READABLE k = Inr (res, k') \<and>
      (case res of
         Inl e \<Rightarrow> call_error L (Register r fd x i) e \<and> armed k' = armed k
       | Inr _ \<Rightarrow> armed k' = (armed k)(reg_fd r := add_mset (fd, x) (armed k (reg_fd r))))"
    by (intro exI conjI) (auto split: sum.splits if_splits simp del: call_error.simps)
qed

lemma vec_tokens_read:
  assumes "\<And>i. i < vec_len v \<Longrightarrow> vec_get v i = Inr (evs ! i)" and "vec_len v = length evs"
  shows "vec_tokens v = Inr (map epoll_data evs)"
proof -
  have "vec_elems v [0..<length evs] = Inr (map ((!) evs) [0..<length evs])"
    by (rule vec_elems_collect) (use assms in simp)
  then show ?thesis by (simp add: vec_tokens_def assms(2) map_nth Event_data_def)
qed

lemma select_cap:
  assumes "select L s v t k = Inr (res, v', k')"
  shows "vec_cap v' = vec_cap v"
proof -
  have "vec_cap (vec_clear v) = vec_cap v" by (simp add: vec_clear_def vec_cap_def)
  moreover have "vec_cap (v1\<lparr>vec_len := n\<rparr>) = vec_cap v1" for v1 n by (simp add: vec_cap_def)
  ultimately show ?thesis
    using assms
    by (auto simp: select_def epoll_wait_def vec_set_len_def obind_eq_Inr split: if_splits prod.splits
        dest!: write_events_len)
qed

lemma oneshot_epoll_wait_contract: "oneshot_epoll L armed \<Longrightarrow> wait_contract L"
  unfolding oneshot_epoll_def wait_contract_def by metis

lemma select_delivers:
  assumes o: "oneshot_epoll L armed" and c: "1024 \<le> vec_cap v"
  obtains (failed) e v' k' where "select L s v t k = Inr (Inl e, v', k')" and "vec_cap v' = vec_cap v"
    and "call_error L (Select s t) e" and "armed k' = armed k"
  | (delivered) v' k' gone ts where "select L s v t k = Inr (Inr (), v', k')" and "vec_cap v' = vec_cap v"
    and "vec_tokens v' = Inr ts" and "mset ts = image_mset snd gone" and "length ts \<le> 1024"
    and "armed k = (armed k')(sel_fd s := gone + armed k' (sel_fd s))" and "t = None \<longrightarrow> ts \<noteq> []"
proof -
  let ?t = "case t of None \<Rightarrow> - 1 | Some t \<Rightarrow> t"
  obtain ret evs k' where w: "sys_epoll_wait L (sel_fd s) 1024 ?t k = ((ret, evs), k')" by (metis surj_pair)
  note e = oneshot_epoll_waited [OF o w]
  then have fit: "length evs \<le> vec_cap v" using c by (simp split: if_splits)
  from select_returns [OF w oneshot_epoll_wait_contract [OF o] fit]
  obtain res v' where s: "select L s v t k = Inr (res, v', k')"
    and r: "if sint ret < 0 then res = Inl (last_errno L k') \<and> vec_len v' = 0
      else res = Inr () \<and> vec_len v' = length evs \<and> int (length evs) = sint ret \<and>
        (\<forall>i < length evs. vec_get v' i = Inr (evs ! i))" by blast
  show thesis
  proof (cases "sint ret < 0")
    case True
    then have "call_error L (Select s t) (last_errno L k')" unfolding call_error.simps using w by blast
    with failed s select_cap [OF s] r e True show thesis by simp
  next
    case False
    with e obtain gone where g: "armed k = (armed k')(sel_fd s := gone + armed k' (sel_fd s))"
        "mset (map epoll_data evs) = image_mset snd gone" by auto
    have ts: "vec_tokens v' = Inr (map epoll_data evs)"
      by (rule vec_tokens_read) (use r False in auto)
    show thesis
    proof (rule delivered [OF _ select_cap [OF s] ts g(2) _ g(1)])
      show "select L s v t k = Inr (Inr (), v', k')" using s r False by simp
      show "length (map epoll_data evs) \<le> 1024" using e False by simp
      show "t = None \<longrightarrow> map epoll_data evs \<noteq> []" using e False by auto
    qed
  qed
qed

text \<open>Every legal call returns, and is a step of the specification.\<close>

definition queue_ok :: "'k libc \<Rightarrow> ('k \<Rightarrow> registrations) \<Rightarrow> 'k \<times> event_vec \<Rightarrow> bool" where
  "queue_ok L armed s \<longleftrightarrow> oneshot_epoll L armed \<and> 1024 \<le> vec_cap (snd s)"

lemma queue_exec_step:
  assumes ok: "queue_ok L armed s" and l: "legal_op opn"
  obtains res t where "queue_exec L opn s = Inr (res, t)" and "queue_ok L armed t"
    and "oq_step (call_error L) (opn, res) (armed (fst s)) (armed (fst t))"
proof -
  obtain k v where s: "s = (k, v)" by (rule prod.exhaust)
  from ok have o: "oneshot_epoll L armed" and c: "1024 \<le> vec_cap v" by (simp_all add: queue_ok_def s)
  show thesis
  proof (cases opn)
    case (Register r fd x i)
    show thesis
    proof (cases "i = Interests_READABLE")
      case False
      with l Register have i: "i = Interests_WRITABLE" by simp
      with register_legal(1) [OF o] have "queue_exec L opn s = Inr (Panicked, s)" by (simp add: Register s)
      with that ok i show thesis by (simp add: Register oq_panic)
    next
      case True
      obtain res k' where reg: "register L r fd x Interests_READABLE k = Inr (res, k')"
        and p: "case res of
             Inl e \<Rightarrow> call_error L (Register r fd x Interests_READABLE) e \<and> armed k' = armed k
           | Inr _ \<Rightarrow> armed k' = (armed k)(reg_fd r := add_mset (fd, x) (armed k (reg_fd r)))"
        using register_legal(2) [OF o] by blast
      have ok': "queue_ok L armed (k', v)" using ok by (simp add: queue_ok_def s)
      show thesis
      proof (cases res)
        case (Inl e)
        then have "queue_exec L opn s = Inr (Failed e, k', v)" by (simp add: Register s True reg)
        moreover have "oq_step (call_error L) (opn, Failed e) (armed k) (armed k')"
          using p Inl by (simp add: Register True oq_fail)
        ultimately show thesis using that ok' by (simp add: s)
      next
        case (Inr u)
        then have "queue_exec L opn s = Inr (Registered, k', v)" by (simp add: Register s True reg)
        moreover have "oq_step (call_error L) (opn, Registered) (armed k) (armed k')"
          using p Inr oq_add [of "call_error L" r fd x "armed k"] by (simp add: Register True)
        ultimately show thesis using that ok' by (simp add: s)
      qed
    qed
  next
    case (Select sel t)
    show thesis
    proof (cases rule: select_delivers [OF o c, of sel t k, case_names failed delivered])
      case (failed e v' k')
      then have "queue_exec L opn s = Inr (Failed e, k', v')" by (simp add: Select s)
      moreover have "oq_step (call_error L) (opn, Failed e) (armed k) (armed k')"
        using failed(3,4) by (simp add: Select oq_fail del: call_error.simps)
      ultimately show thesis using that ok failed(2) by (simp add: s queue_ok_def)
    next
      case (delivered v' k' gone ts)
      then have x: "queue_exec L opn s = Inr (Delivered ts, k', v')" by (simp add: Select s)
      have q: "armed k (sel_fd sel) = gone + armed k' (sel_fd sel)" using fun_cong [OF delivered(6)] by simp
      have "oq_step (call_error L) (opn, Delivered ts) (armed k) ((armed k)(sel_fd sel := armed k' (sel_fd sel)))"
        unfolding Select by (rule oq_deliver) (use q delivered(4,5,7) in simp_all)
      moreover have "(armed k)(sel_fd sel := armed k' (sel_fd sel)) = armed k'"
        by (subst delivered(6)) simp
      ultimately show thesis using that x ok delivered(2) by (simp add: s queue_ok_def)
    qed
  qed
qed

interpretation queues: simulation "queue_act L" "oq_step (call_error L)" "\<lambda>s. armed (fst s)"
  "queue_ok L armed" for L :: "'k libc" and armed
proof
  fix s t :: "'k \<times> event_vec" and l
  assume ok: "queue_ok L armed s" and a: "queue_act L l s t"
  obtain opn res where l: "l = (opn, res)" by (rule prod.exhaust)
  from a l have "legal_op opn" "queue_exec L opn s = Inr (res, t)" by simp_all
  with queue_exec_step [OF ok] show "queue_ok L armed t \<and> oq_step (call_error L) l (armed (fst s)) (armed (fst t))"
    unfolding l by (metis Inr_inject prod.inject)
qed

lemma queue_run_returns:
  "queue_ok L armed s \<Longrightarrow> list_all legal_op ops \<Longrightarrow>
     \<exists>h t. queue_run L ops s = Inr (h, t) \<and> map fst h = ops \<and> labelled_run (queue_act L) s h t"
proof (induction ops arbitrary: s)
  case Nil
  then show ?case by (simp add: run_nil)
next
  case (Cons opn ops)
  then have l: "legal_op opn" "list_all legal_op ops" by simp_all
  obtain res s1 where s1: "queue_exec L opn s = Inr (res, s1)" "queue_ok L armed s1"
    by (rule queue_exec_step [OF Cons.prems(1) l(1)])
  from Cons.IH [OF s1(2) l(2)] obtain h t where h: "queue_run L ops s1 = Inr (h, t)" "map fst h = ops"
      "labelled_run (queue_act L) s1 h t" by blast
  have "queue_act L (opn, res) s s1" using l(1) s1(1) by simp
  with h s1(1) show ?case by (auto intro: run_cons)
qed

section \<open>Properties\<close>

text \<open>
  C6: The event queue implements one-shot queues. On every kernel with the documented behaviour,
  with a vector of a capacity of at least 1024 events (without which \<open>select\<close> is undefined), and
  for every interleaving of registrations and waits, through any registrators and selectors:
  no call faults, and each call acts on the queue of its own descriptor as the specification
  says. So on every queue the tokens that were registered, with those that waited at the start,
  are exactly those that were delivered from it and those that still wait, with their
  multiplicity, and a wait without a timeout delivers at least one when it returns without an
  error.
\<close>

theorem queue_refines_oneshot:
  assumes "oneshot_epoll L armed" and "1024 \<le> vec_cap v" and "list_all legal_op ops"
  shows "\<exists>h k' v'. queue_run L ops (k, v) = Inr (h, k', v') \<and> map fst h = ops \<and>
    labelled_run (oq_step (call_error L)) (armed k) h (armed k') \<and>
    (\<forall>q. mset (asked q h) + tokens armed q k = mset (got q h) + tokens armed q k')"
proof -
  have ok: "queue_ok L armed (k, v)" using assms(1,2) by (simp add: queue_ok_def)
  from queue_run_returns [OF ok assms(3)] obtain h k' v' where
    h: "queue_run L ops (k, v) = Inr (h, k', v')" "map fst h = ops" "labelled_run (queue_act L) (k, v) h (k', v')"
    by auto
  have "labelled_run (oq_step (call_error L)) (armed k) h (armed k')"
    using queues.runs_simulate [OF h(3) ok] by simp
  with h(1,2) oq_run_accounted [OF this] show ?thesis unfolding tokens_def by blast
qed

text \<open>Two queues: each gets its own token; the interest in writing panics.\<close>

lemma queue_refines_oneshot_witness:
  "\<exists>h k' v'. queue_run listed_kernel
       [Register \<lparr>reg_fd = 3\<rparr> 5 7 Interests_READABLE, Register \<lparr>reg_fd = 4\<rparr> 6 8 Interests_READABLE,
        Register \<lparr>reg_fd = 4\<rparr> 6 9 Interests_WRITABLE, Select \<lparr>sel_fd = 4\<rparr> None]
       ([], vec_with_capacity 4096 1024) = Inr (h, k', v') \<and>
     mset (asked 4 h) = mset (got 4 h) + tokens listed_armed 4 k' \<and>
     mset (asked 3 h) = mset (got 3 h) + tokens listed_armed 3 k'"
proof -
  have c: "1024 \<le> vec_cap (vec_with_capacity 4096 1024)"
    by (simp add: vec_cap_def vec_with_capacity_def EVENT_SIZE_def)
  have e: "tokens listed_armed q [] = {#}" for q by (simp add: tokens_def listed_armed_def)
  have "list_all legal_op
      [Register \<lparr>reg_fd = 3\<rparr> 5 7 Interests_READABLE, Register \<lparr>reg_fd = 4\<rparr> 6 8 Interests_READABLE,
       Register \<lparr>reg_fd = 4\<rparr> 6 9 Interests_WRITABLE, Select \<lparr>sel_fd = 4\<rparr> None]" by simp
  from queue_refines_oneshot [OF listed_kernel_oneshot c this, of "[]"] show ?thesis
    unfolding e by fastforce
qed

end
