(* ===== verification/DefaultLayout.thy ===== *)
theory DefaultLayout
  imports LayoutMain
begin

text \<open>
  The default representation of structs, whose field order the compiler chooses. The choice is
  a parameter: a list of the indices of the declared fields in the order in which they are
  placed. What the programs of \<^verbatim>\<open>repr_rust.rs\<close> may rely on is shown for every choice; the
  addresses its comments record are those of particular ones.
\<close>

section \<open>Layouts in a chosen order\<close>

definition is_order :: "nat \<Rightarrow> nat list \<Rightarrow> bool" where
  "is_order n ord \<longleftrightarrow> distinct ord \<and> set ord = {0..<n}"

definition reordered :: "nat list \<Rightarrow> lty list \<Rightarrow> lty list" where
  "reordered ord ts = map ((!) ts) ord"

definition place_of :: "nat list \<Rightarrow> nat \<Rightarrow> nat" where
  "place_of ord i = length (takeWhile (\<lambda>j. j \<noteq> i) ord)"

text \<open>The offset of the declared field \<open>i\<close>, and size and alignment of the struct.\<close>

definition default_offset :: "nat list \<Rightarrow> lty list \<Rightarrow> nat \<Rightarrow> nat" where
  "default_offset ord ts i = field_offsets (reordered ord ts) ! place_of ord i"

definition default_size :: "nat list \<Rightarrow> lty list \<Rightarrow> nat" where
  "default_size ord ts = size_of (Struct (reordered ord ts))"

definition default_align :: "nat list \<Rightarrow> lty list \<Rightarrow> nat" where
  "default_align ord ts = align_of (Struct (reordered ord ts))"

text \<open>By descending alignment.\<close>

definition best_order :: "lty list \<Rightarrow> nat list" where
  "best_order ts = sort_key (\<lambda>i. - int (align_of (ts ! i))) [0..<length ts]"

text \<open>Types built of scalars of 1, 2, 4, 8 or 16 bytes, as all types of the sources are.\<close>

fun built :: "lty \<Rightarrow> bool" where
  "built (Scalar n k) \<longleftrightarrow> n \<in> {1, 2, 4, 8, 16}"
| "built (Array t n) \<longleftrightarrow> built t"
| "built (Struct ts) \<longleftrightarrow> list_all built ts"
| "built (Union ts) \<longleftrightarrow> list_all built ts"
| "built (OptionOf t) \<longleftrightarrow> built t"

section \<open>The printed addresses\<close>

text \<open>
  \<open>test_default_representation\<close>: the addresses of the fields of \<open>A { a: u8, b: u32, c: u16 }\<close> and
  of \<open>Foo::<u16, u32> { count: u16, data1: u16, data2: u32 }\<close>, and \<open>test_another\<close> those of
  \<open>WithVec\<close>, in the order of the declaration.
\<close>

definition A_fields :: "lty list" where "A_fields = [lu8, lu32, lu16]"
definition Foo_fields :: "lty list" where "Foo_fields = [lu16, lu16, lu32]"
definition WithVec_fields :: "lty list" where "WithVec_fields = [lu32, lvec]"

definition printed_addresses :: "nat list \<Rightarrow> lty list \<Rightarrow> nat \<Rightarrow> nat list" where
  "printed_addresses ord ts base = map (\<lambda>i. base + default_offset ord ts i) [0..<length ts]"

section \<open>Empty types\<close>

text \<open>
  Types as far as \<^verbatim>\<open>dynamically_zero_sized_type.rs\<close> asks whether they have values: an enum is the
  list of its variants' fields. A value of an enum is made by a variant whose fields have values.
\<close>

datatype enum_type = Prim | Enum "enum_type list list"

fun inhabited :: "enum_type \<Rightarrow> bool" where
  "inhabited Prim = True"
| "inhabited (Enum vs) = (\<exists>v \<in> set vs. \<forall>t \<in> set v. inhabited t)"

text \<open>\<open>enum Void {}\<close>, and \<open>Result<u32, Void>\<close> with the variants \<open>Ok\<close> (0) and \<open>Err\<close> (1).\<close>

definition Void :: enum_type where "Void = Enum []"

definition result_variants :: "enum_type \<Rightarrow> enum_type \<Rightarrow> enum_type list list" where
  "result_variants t e = [[t], [e]]"

text \<open>Patterns for the variants \<open>ps\<close> match every value.\<close>

definition irrefutable :: "enum_type list list \<Rightarrow> nat list \<Rightarrow> bool" where
  "irrefutable vs ps \<longleftrightarrow>
     (\<forall>i \<in> set [0..<length vs]. (\<forall>t \<in> set (vs ! i). inhabited t) \<longrightarrow> i \<in> set ps)"

text \<open>\<open>let res: Result<u32, Void> = Ok(0)\<close>, and whether \<open>let Ok(num) = res\<close> would be accepted.\<close>

definition test_empty :: "nat \<times> u32 \<times> bool" where
  "test_empty = (0, 0, irrefutable (result_variants Prim Void) [0])"

section \<open>Orders\<close>

lemma takeWhile_found:
  "i \<in> set xs \<Longrightarrow> length (takeWhile (\<lambda>j. j \<noteq> i) xs) < length xs \<and> xs ! length (takeWhile (\<lambda>j. j \<noteq> i) xs) = i"
  by (induction xs) auto

lemma place_of_nth:
  assumes "is_order n ord" and "i < n"
  shows "place_of ord i < length ord" and "ord ! place_of ord i = i"
  using takeWhile_found [of i ord] assms by (auto simp: is_order_def place_of_def)

lemma length_order: "is_order n ord \<Longrightarrow> length ord = n"
  unfolding is_order_def by (metis card_atLeastLessThan diff_zero distinct_card)

lemma mset_order: "is_order n ord \<Longrightarrow> mset ord = mset [0..<n]"
  unfolding is_order_def by (metis atLeastLessThan_upt distinct_upt set_eq_iff_mset_eq_distinct)

lemma mset_reordered:
  assumes "is_order (length ts) ord"
  shows "mset (reordered ord ts) = mset ts"
proof -
  have "mset (reordered ord ts) = image_mset ((!) ts) (mset ord)" by (simp add: reordered_def)
  also have "\<dots> = mset (map ((!) ts) [0..<length ts])" unfolding mset_order [OF assms] mset_map ..
  also have "\<dots> = mset ts" by (simp only: map_nth)
  finally show ?thesis .
qed

lemma best_order_order: "is_order (length ts) (best_order ts)"
  by (simp add: is_order_def best_order_def)

section \<open>Sizes and alignments\<close>

definition field_pairs :: "lty list \<Rightarrow> (nat \<times> nat) list" where
  "field_pairs ts = map (\<lambda>t. (size_of t, align_of t)) ts"

lemma max_list_in: "ns \<noteq> [] \<Longrightarrow> \<forall>n \<in> set ns. 0 < n \<Longrightarrow> max_list ns \<in> set ns"
proof -
  assume a: "ns \<noteq> []" "\<forall>n \<in> set ns. 0 < n"
  then obtain n where "n \<in> set ns" "0 < n" by (cases ns) auto
  then have "1 \<le> Max (set ns)" by (metis List.finite_set Max_ge One_nat_def Suc_leI le_trans)
  moreover have "max_list ns = max 1 (Max (set ns))" using a(1) by (simp add: max_list_Max)
  ultimately show ?thesis using a(1) by (simp add: max_def)
qed

lemma max_list_two_powers:
  "\<forall>n \<in> set ns. n \<in> {1, 2, 4, 8, 16} \<Longrightarrow> max_list ns \<in> {1, 2, 4, 8, 16 :: nat}"
proof (cases "ns = []")
  case True
  then show ?thesis by (simp add: max_list_def)
next
  case False
  assume "\<forall>n \<in> set ns. n \<in> {1, 2, 4, 8, 16}"
  moreover from this False have "max_list ns \<in> set ns" by (intro max_list_in) auto
  ultimately show ?thesis by blast
qed

lemma built_align: "built t \<Longrightarrow> align_of t \<in> {1, 2, 4, 8, 16}"
proof (induction t)
  case (Struct ts)
  then show ?case by (simp only: align_of.simps built.simps) (rule max_list_two_powers, auto simp: list_all_iff)
next
  case (Union ts)
  then show ?case by (simp only: align_of.simps built.simps) (rule max_list_two_powers, auto simp: list_all_iff)
qed auto

lemma built_size: "built t \<Longrightarrow> align_of t dvd size_of t"
proof (induction t)
  case (Struct ts)
  have "map align_of ts = map snd (field_pairs ts)" by (simp add: field_pairs_def)
  then show ?case by (simp add: struct_size_def field_pairs_def comp_def)
qed auto

lemma two_powers_dvd: "a \<in> {1, 2, 4, 8, 16 :: nat} \<Longrightarrow> b \<in> {1, 2, 4, 8, 16} \<Longrightarrow> a \<le> b \<Longrightarrow> a dvd b"
  by auto

lemma placed_built: "list_all built ts \<Longrightarrow> placed (field_pairs ts)"
proof -
  assume "list_all built ts"
  then have "0 < align_of t" if "t \<in> set ts" for t
    using built_align [of t] that by (auto simp: list_all_iff)
  then show ?thesis by (auto simp: placed_def field_pairs_def)
qed

text \<open>The struct layouts of theory \<open>Layout\<close> on the reordered fields.\<close>

lemma default_eqs:
  "default_offset ord ts i = offsets 0 (field_pairs (reordered ord ts)) ! place_of ord i"
  "default_size ord ts = struct_size (field_pairs (reordered ord ts))"
  "default_align ord ts = max_list (map snd (field_pairs (reordered ord ts)))"
  by (simp_all add: default_offset_def default_size_def default_align_def field_offsets_def
      field_pairs_def comp_def)

lemma descending_best:
  assumes "list_all built ts"
  shows "descending (field_pairs (reordered (best_order ts) ts))"
proof -
  have b: "i \<in> set (best_order ts) \<Longrightarrow> built (ts ! i)" for i
    using best_order_order [of ts] assms by (auto simp: is_order_def list_all_length)
  have "sorted (map (\<lambda>i. - int (align_of (ts ! i))) (best_order ts))"
    by (simp add: best_order_def)
  then have "sorted_wrt (\<lambda>i j. align_of (ts ! j) \<le> align_of (ts ! i)) (best_order ts)"
    by (simp add: sorted_map)
  then have "sorted_wrt (\<lambda>i j. align_of (ts ! j) dvd align_of (ts ! i)) (best_order ts)"
    by (rule sorted_wrt_mono_rel [rotated]) (intro two_powers_dvd built_align b, assumption+)
  moreover have "\<forall>i \<in> set (best_order ts). align_of (ts ! i) dvd size_of (ts ! i)"
    using b built_size by blast
  ultimately show ?thesis
    by (simp add: descending_def field_pairs_def reordered_def sorted_wrt_map)
qed

lemma reordered_nth:
  assumes "is_order (length ts) ord" and "i < length ts"
  shows "field_pairs (reordered ord ts) ! place_of ord i = (size_of (ts ! i), align_of (ts ! i))"
    and "place_of ord i < length (field_pairs (reordered ord ts))"
  using place_of_nth [OF assms] by (simp_all add: field_pairs_def reordered_def)

lemma place_of_inj:
  "is_order n ord \<Longrightarrow> i < n \<Longrightarrow> j < n \<Longrightarrow> place_of ord i = place_of ord j \<longleftrightarrow> i = j"
  by (metis place_of_nth(2))

lemma align_dvd_struct:
  assumes "list_all built ts" and "i < length ts"
  shows "align_of (ts ! i) dvd align_of (Struct ts)"
proof -
  have "built (ts ! i)" "built (Struct ts)" using assms by (simp_all add: list_all_length)
  moreover have "align_of (ts ! i) \<le> align_of (Struct ts)" using assms(2) by (simp add: max_list_ge)
  ultimately show ?thesis by (intro two_powers_dvd built_align)
qed

text \<open>The orders of three fields.\<close>

lemma orders_3: "is_order 3 ord \<Longrightarrow>
  ord \<in> set [[0, 1, 2], [0, 2, 1], [1, 0, 2], [1, 2, 0], [2, 0, 1], [2, 1, 0]]"
proof -
  assume o: "is_order 3 ord"
  have "length ord = 3" using length_order [OF o] .
  then obtain a b c where abc: "ord = [a, b, c]" by (auto simp: length_Suc_conv eval_nat_numeral)
  have s: "{a, b, c} = {0, 1, 2}" "distinct [a, b, c]" using o
    by (auto simp: is_order_def abc eval_nat_numeral atLeast0LessThan lessThan_Suc)
  then have "a = 0 \<or> a = 1 \<or> a = 2" "b = 0 \<or> b = 1 \<or> b = 2" "c = 0 \<or> c = 1 \<or> c = 2" by blast+
  with s(2) show ?thesis unfolding abc by (elim disjE) simp_all
qed

section \<open>Properties\<close>

text \<open>
  C34: whatever order the compiler chooses, the layout is legal: every field is aligned and inside
  the struct, no two fields overlap, the alignment does not depend on the order, and the size
  is at least that of the order by descending alignment, which is never worse than that of the
  declaration. So the addresses that the tests print for the fields of a struct at an aligned
  address are multiples of the alignments of the fields, inside the struct, and apart.
\<close>

theorem default_layout_sound:
  assumes "is_order (length ts) ord" and "list_all built ts" and "i < length ts"
  shows "align_of (ts ! i) dvd default_offset ord ts i \<and>
    default_offset ord ts i + size_of (ts ! i) \<le> default_size ord ts \<and>
    (\<forall>j < length ts. i \<noteq> j \<longrightarrow>
       default_offset ord ts i + size_of (ts ! i) \<le> default_offset ord ts j \<or>
       default_offset ord ts j + size_of (ts ! j) \<le> default_offset ord ts i) \<and>
    default_align ord ts = align_of (Struct ts) \<and>
    default_size (best_order ts) ts \<le> default_size ord ts \<and>
    default_size (best_order ts) ts \<le> size_of (Struct ts) \<and>
    (default_align ord ts dvd base \<longrightarrow> align_of (ts ! i) dvd printed_addresses ord ts base ! i) \<and>
    base \<le> printed_addresses ord ts base ! i \<and>
    printed_addresses ord ts base ! i + size_of (ts ! i) \<le> base + default_size ord ts \<and>
    (\<forall>j < length ts. i \<noteq> j \<longrightarrow> 0 < size_of (ts ! i) \<longrightarrow> 0 < size_of (ts ! j) \<longrightarrow>
       printed_addresses ord ts base ! i \<noteq> printed_addresses ord ts base ! j)"
proof -
  let ?fs = "field_pairs (reordered ord ts)" and ?gs = "field_pairs (reordered (best_order ts) ts)"
  note m = mset_reordered [OF assms(1)] and mb = mset_reordered [OF best_order_order, of ts]
  have b: "list_all built (reordered ord ts)" using assms(2) m by (metis list_all_iff set_mset_mset)
  note pl = placed_built [OF b]
  note n = reordered_nth [OF assms(1,3)]
  have dis: "default_offset ord ts i + size_of (ts ! i) \<le> default_offset ord ts j \<or>
       default_offset ord ts j + size_of (ts ! j) \<le> default_offset ord ts i"
    if j: "j < length ts" "i \<noteq> j" for j
    using offsets_disjoint [OF pl, of "place_of ord i" "place_of ord j" 0]
      offsets_disjoint [OF pl, of "place_of ord j" "place_of ord i" 0]
      n reordered_nth [OF assms(1) j(1)] place_of_inj [OF assms(1,3) j(1)] j(2)
    by (cases "place_of ord i < place_of ord j") (simp_all add: default_eqs)
  have "mset ?gs = mset ?fs" "mset ?gs = mset (field_pairs ts)"
    using m mb by (simp_all add: field_pairs_def)
  then have opt: "struct_size ?gs \<le> struct_size ?fs" "struct_size ?gs \<le> struct_size (field_pairs ts)"
    using reorder_optimal [OF _ pl descending_best [OF assms(2)]]
      reorder_optimal [OF _ placed_built [OF assms(2)] descending_best [OF assms(2)]] by blast+
  have "set (reordered ord ts) = set ts" using m by (metis set_mset_mset)
  then have al: "default_align ord ts = align_of (Struct ts)"
    by (simp add: default_align_def max_list_Max)
  have "struct_end 0 ?fs \<le> struct_size ?fs" by (simp add: struct_size_def round_up_ge)
  with offsets_sound [OF pl n(2), of 0] n(1)
  have f: "align_of (ts ! i) dvd default_offset ord ts i"
      "default_offset ord ts i + size_of (ts ! i) \<le> default_size ord ts"
    by (simp_all add: default_eqs)
  have pr: "printed_addresses ord ts base ! j = base + default_offset ord ts j" if "j < length ts" for j
    using that by (simp add: printed_addresses_def)
  have "align_of (ts ! i) dvd printed_addresses ord ts base ! i" if "default_align ord ts dvd base"
    using f(1) dvd_trans [OF align_dvd_struct [OF assms(2,3)]] that al pr [OF assms(3)] by simp
  moreover have "printed_addresses ord ts base ! i \<noteq> printed_addresses ord ts base ! j"
    if "j < length ts" "i \<noteq> j" "0 < size_of (ts ! i)" "0 < size_of (ts ! j)" for j
    using dis [OF that(1,2)] that pr [OF assms(3)] pr [OF that(1)] by auto
  moreover have "default_size (best_order ts) ts \<le> default_size ord ts"
      "default_size (best_order ts) ts \<le> size_of (Struct ts)"
    using opt by (simp_all add: default_eqs) (simp_all add: field_pairs_def)
  ultimately show ?thesis using f dis al pr [OF assms(3)] by simp
qed

lemma default_layout_sound_witness:
  "is_order 3 [1, 2, 0] \<and> default_offset [1, 2, 0] A_fields 2 + 2 \<le> default_size [1, 2, 0] A_fields \<and>
   printed_addresses [1, 2, 0] A_fields 96 ! 2 + 2 \<le> 96 + default_size [1, 2, 0] A_fields"
proof -
  have "is_order (length A_fields) [1, 2, 0]" "list_all built A_fields" "(2 :: nat) < length A_fields"
    by (auto simp: is_order_def A_fields_def lu8_def lu16_def lu32_def)
  from default_layout_sound [OF this, of 96] this(1) show ?thesis
    by (simp add: A_fields_def lu16_def numeral_2_eq_2 numeral_3_eq_3)
qed

text \<open>
  The structs of \<^verbatim>\<open>repr_rust.rs\<close>. \<open>A\<close> takes 8 or 12 bytes, in 8 exactly when \<open>a\<close> and \<open>c\<close> are
  next to each other; the printed addresses of the comments are those of the orders
  \<open>b, c, a\<close> and \<open>data2, count, data1\<close>. The instance \<open>Foo::<u16, u32>\<close> that the test creates is
  as small in the order of its declaration, 8 bytes, as in any; the padded struct of the
  comment is another instance.
\<close>

theorem default_structs_of_file:
  assumes "is_order 3 ord"
  shows "default_size ord A_fields = (if ord ! 1 = 1 then 12 else 8) \<and>
    default_size ord Foo_fields = (if ord ! 1 = 2 then 12 else 8) \<and>
    printed_addresses [1, 2, 0] A_fields base = [base + 6, base, base + 4] \<and>
    printed_addresses [2, 0, 1] Foo_fields base = [base + 4, base + 6, base] \<and>
    size_of (Foo_declared lu16 lu32) = 8 \<and> size_of (Foo_declared lu32 lu16) = 12"
proof -
  have sizes: "\<forall>ord \<in> set [[0, 1, 2], [0, 2, 1], [1, 0, 2], [1, 2, 0], [2, 0, 1], [2, 1, 0]].
      default_size ord A_fields = (if ord ! 1 = 1 then 12 else 8) \<and>
      default_size ord Foo_fields = (if ord ! 1 = 2 then 12 else 8)"
    by code_simp
  have "default_size ord A_fields = (if ord ! 1 = 1 then 12 else 8) \<and>
      default_size ord Foo_fields = (if ord ! 1 = 2 then 12 else 8)"
    using orders_3 [OF assms] sizes by blast
  moreover have "map (default_offset [1, 2, 0] A_fields) [0..<3] = [6, 0, 4]"
      "map (default_offset [2, 0, 1] Foo_fields) [0..<3] = [4, 6, 0]"
      "size_of (Foo_declared lu16 lu32) = 8" "size_of (Foo_declared lu32 lu16) = 12"
    by code_simp+
  ultimately show ?thesis
    by (simp add: printed_addresses_def A_fields_def Foo_fields_def eval_nat_numeral)
qed

lemma default_structs_of_file_witness: "default_size [1, 2, 0] A_fields = 8"
proof -
  have "is_order 3 [1, 2, 0]" by (auto simp: is_order_def)
  from default_structs_of_file [OF this] show ?thesis by simp
qed

text \<open>
  The empty type: it has no value, a result with it as error is always \<open>Ok\<close>, so that the
  pattern of the comment needs no other case, and this is due to the error type alone.
\<close>

theorem void_result:
  "\<not> inhabited Void \<and> test_empty = (0, 0, True) \<and>
   (irrefutable (result_variants t e) [0] \<longleftrightarrow> \<not> inhabited e)"
  by (auto simp: Void_def test_empty_def irrefutable_def result_variants_def less_Suc_eq)

end
