(* ===== verification/ObjectSafety.thy ===== *)
theory ObjectSafety
  imports Prelude
begin

text \<open>
  The program of \<^verbatim>\<open>box-a-trait-that-has-associated-types\<close>: a trait without a usable trait object,
  an implementation of it for every option of a component, two components whose functions are
  all \<open>todo!()\<close>, and a vector of trait objects. The framework that declares \<open>Component\<close> is not
  part of the sources; only which types implement it is used. The rule of the compiler for
  trait objects is modelled over signatures, and justified by what a method table can hold.
\<close>

section \<open>Signatures\<close>

datatype rust_type = SelfType | Named string | Generic string "rust_type list" | Ref rust_type

text \<open>
  A function of a trait: whether it has a receiver, the types of its other parameters and of
  its result, and whether it has the bound \<open>where Self: Sized\<close>.
\<close>

record signature =
  has_receiver :: bool
  param_types :: "rust_type list"
  result_type :: rust_type
  self_sized :: bool

type_synonym rust_trait = "(string \<times> signature) list"

fun mentions_self :: "rust_type \<Rightarrow> bool" where
  "mentions_self SelfType = True"
| "mentions_self (Named n) = False"
| "mentions_self (Generic n ts) = list_ex mentions_self ts"
| "mentions_self (Ref t) = mentions_self t"

text \<open>The trait object rule: every function is dispatchable or excluded by the bound.\<close>

definition dispatchable :: "signature \<Rightarrow> bool" where
  "dispatchable m \<longleftrightarrow> has_receiver m \<and> \<not> list_ex mentions_self (param_types m) \<and> \<not> mentions_self (result_type m)"

definition object_safe :: "rust_trait \<Rightarrow> bool" where
  "object_safe tr \<longleftrightarrow> list_all (\<lambda>(n, m). self_sized m \<or> dispatchable m) tr"

section \<open>Method tables\<close>

text \<open>
  What an implementation for the type \<open>t\<close> puts into a method table: the types of the function
  with \<open>Self\<close> replaced, the receiver being an untyped pointer.
\<close>

fun instantiate :: "rust_type \<Rightarrow> rust_type \<Rightarrow> rust_type" where
  "instantiate t SelfType = t"
| "instantiate t (Named n) = Named n"
| "instantiate t (Generic n ts) = Generic n (map (instantiate t) ts)"
| "instantiate t (Ref u) = Ref (instantiate t u)"

definition entry_type :: "signature \<Rightarrow> rust_type \<Rightarrow> rust_type list \<times> rust_type" where
  "entry_type m t = (map (instantiate t) (param_types m), instantiate t (result_type m))"

text \<open>
  A call through a trait object knows neither the implementing type nor an instance of it
  other than the receiver.
\<close>

definition callable_dyn :: "signature \<Rightarrow> bool" where
  "callable_dyn m \<longleftrightarrow> has_receiver m \<and> (\<forall>t u. entry_type m t = entry_type m u)"

lemma instantiate_same: "\<not> mentions_self ty \<Longrightarrow> instantiate t ty = instantiate u ty"
  by (induction ty) (auto simp: list_ex_iff)

lemma instantiate_differs: "mentions_self ty \<Longrightarrow> instantiate (Named ''a'') ty \<noteq> instantiate (Named ''b'') ty"
  by (induction ty) (auto simp: list_ex_iff)

lemma instantiate_uniform: "(\<forall>t u. instantiate t ty = instantiate u ty) \<longleftrightarrow> \<not> mentions_self ty"
  using instantiate_same instantiate_differs by blast

lemma instantiates_uniform:
  "(\<forall>t u. map (instantiate t) tys = map (instantiate u) tys) \<longleftrightarrow> \<not> list_ex mentions_self tys"
  unfolding map_eq_conv list_ex_iff using instantiate_same instantiate_differs by blast

lemma dispatchable_callable: "dispatchable m \<longleftrightarrow> callable_dyn m"
  using instantiates_uniform [of "param_types m"] instantiate_uniform [of "result_type m"]
  unfolding dispatchable_def callable_dyn_def entry_type_def prod.inject by blast

section \<open>The program\<close>

text \<open>\<open>fn create(ctx: &yew::Context<Self>) -> Self\<close>, the same with the bound that would exclude it.\<close>

definition create_sig :: signature where
  "create_sig = \<lparr>has_receiver = False, param_types = [Ref (Generic ''Context'' [SelfType])],
     result_type = SelfType, self_sized = False\<rparr>"

definition ComponentWrapper :: rust_trait where
  "ComponentWrapper = [(''create'', create_sig)]"

definition ComponentWrapper_sized :: rust_trait where
  "ComponentWrapper_sized = [(''create'', create_sig\<lparr>self_sized := True\<rparr>)]"

text \<open>
  \<open>impl Component for Item1\<close> and \<open>Item2\<close>, whose functions are \<open>todo!()\<close>, as is the provided body
  of the wrapper; \<open>impl<T: Component> ComponentWrapper for Option<T>\<close>.
\<close>

definition is_component :: "rust_type \<Rightarrow> bool" where
  "is_component t \<longleftrightarrow> t \<in> {Named ''Item1'', Named ''Item2''}"

fun implements_wrapper :: "rust_type \<Rightarrow> bool" where
  "implements_wrapper (Generic n [t]) \<longleftrightarrow> n = ''Option'' \<and> is_component t"
| "implements_wrapper _ \<longleftrightarrow> False"

fun component_function :: "rust_type \<Rightarrow> string \<Rightarrow> unit outcome option" where
  "component_function t f =
     (if is_component t \<and> f \<in> {''create'', ''view''} \<or> implements_wrapper t \<and> f = ''create''
      then Some (Inl (Panic ''not yet implemented'')) else None)"

text \<open>
  The vector of \<open>main\<close>: \<open>Vec<Box<dyn ComponentWrapper>>\<close> needs the trait to be object safe, each
  \<open>push(Box::new(Some(item)))\<close> that the option implements it. \<open>None\<close> is a compile-time error.
\<close>

definition push_boxed :: "rust_type \<Rightarrow> rust_type list \<Rightarrow> rust_type list option" where
  "push_boxed t v = (if implements_wrapper t then Some (v @ [t]) else None)"

definition wrapper_main :: "rust_trait \<Rightarrow> rust_type list option" where
  "wrapper_main tr =
     (if object_safe tr
      then Option.bind (push_boxed (Generic ''Option'' [Named ''Item1'']) [])
             (push_boxed (Generic ''Option'' [Named ''Item2'']))
      else None)"

section \<open>Properties\<close>

text \<open>
  the rule for trait objects is the one that method tables ask for: a trait is object safe
  exactly when each of its functions has the bound or can be called without knowing the type
  that implements it.
\<close>

theorem object_safe_iff_callable:
  "object_safe tr \<longleftrightarrow> (\<forall>(n, m) \<in> set tr. self_sized m \<or> callable_dyn m)"
  by (auto simp: object_safe_def list_all_iff dispatchable_callable)

text \<open>
  the program is refused by the compiler: \<open>create\<close> has no receiver and the type \<open>Self\<close> in its
  parameter and in its result, each of which alone forbids the trait object. With the bound
  \<open>where Self: Sized\<close> on it, main is accepted and builds its vector of two without calling any
  of the unfinished functions, all of which panic.
\<close>

theorem wrapper_main_refused:
  "wrapper_main ComponentWrapper = None \<and> \<not> callable_dyn create_sig \<and>
   \<not> object_safe [(''create'', create_sig\<lparr>has_receiver := True\<rparr>)] \<and>
   \<not> object_safe [(''create'', create_sig\<lparr>has_receiver := True, result_type := Named ''Html''\<rparr>)] \<and>
   \<not> object_safe [(''create'', create_sig\<lparr>has_receiver := True, param_types := []\<rparr>)] \<and>
   wrapper_main ComponentWrapper_sized =
     Some [Generic ''Option'' [Named ''Item1''], Generic ''Option'' [Named ''Item2'']] \<and>
   component_function (Named ''Item1'') ''view'' = Some (Inl (Panic ''not yet implemented''))"
proof -
  have "\<not> callable_dyn create_sig"
    by (simp add: dispatchable_callable [symmetric] dispatchable_def create_sig_def)
  then show ?thesis
    by (simp add: wrapper_main_def ComponentWrapper_def ComponentWrapper_sized_def object_safe_def
        dispatchable_def create_sig_def push_boxed_def is_component_def)
qed

end
