(* ===== verification/Constructors.thy ===== *)
theory Constructors
  imports Prelude "HOL-Library.Multiset"
begin

text \<open>
  Struct and enum expressions of \<^verbatim>\<open>constructors-destructors/src/constructors.rs\<close> with the check
  the compiler makes: every declared field exactly once, with a value of its type, in any
  order. The comment of the file says that this is the only way to make an instance.
\<close>

section \<open>Declarations and expressions\<close>

datatype field_type = TU8 | TU32 | TBool

datatype field_value = VU8 u8 | VU32 u32 | VBool bool

fun type_of_value :: "field_value \<Rightarrow> field_type" where
  "type_of_value (VU8 x) = TU8"
| "type_of_value (VU32 x) = TU32"
| "type_of_value (VBool b) = TBool"

type_synonym struct_decl = "(string \<times> field_type) list"

type_synonym struct_expr = "(string \<times> field_value) list"

text \<open>An instance has its values in the order of the declaration.\<close>

definition expr_ok :: "struct_decl \<Rightarrow> struct_expr \<Rightarrow> bool" where
  "expr_ok d e \<longleftrightarrow> mset (map (\<lambda>(f, v). (f, type_of_value v)) e) = mset d"

definition construct :: "struct_decl \<Rightarrow> struct_expr \<Rightarrow> field_value list option" where
  "construct d e =
     (if expr_ok d e then Some (map (\<lambda>(f, t). the (map_of e f)) d) else None)"

text \<open>The field expression \<open>s.f\<close>.\<close>

definition field_of :: "struct_decl \<Rightarrow> field_value list \<Rightarrow> string \<Rightarrow> field_value option" where
  "field_of d vs f = map_of (zip (map fst d) vs) f"

section \<open>The types and the test of the file\<close>

definition Foo_decl :: struct_decl where
  "Foo_decl = [(''a'', TU8), (''b'', TU32), (''c'', TBool)]"

datatype two_variants = VariantX u32 | VariantY bool

text \<open>The struct \<open>Unit\<close> has no fields.\<close>

definition Unit_decl :: struct_decl where "Unit_decl = []"

definition construcotrs :: "(field_value list option \<times> two_variants \<times> field_value list option)" where
  "construcotrs =
     (construct Foo_decl [(''a'', VU8 0), (''b'', VU32 1), (''c'', VBool False)],
      VariantX 0, construct Unit_decl [])"

section \<open>Lemmas\<close>

lemma expr_ok_names: "expr_ok d e \<Longrightarrow> mset (map fst e) = mset (map fst d)"
proof -
  assume "expr_ok d e"
  then have "image_mset fst (mset (map (\<lambda>(f, v). (f, type_of_value v)) e)) = image_mset fst (mset d)"
    by (simp only: expr_ok_def)
  then have "mset (map fst (map (\<lambda>(f, v). (f, type_of_value v)) e)) = mset (map fst d)"
    by (simp only: mset_map)
  moreover have "map fst (map (\<lambda>(f, v). (f, type_of_value v)) e) = map fst e"
    by (simp add: case_prod_beta)
  ultimately show ?thesis by (simp only:)
qed

lemma expr_ok_typed:
  assumes "expr_ok d e" and "distinct (map fst d)" and "(f, t) \<in> set d"
  obtains v where "map_of e f = Some v" and "type_of_value v = t"
proof -
  have "distinct (map fst e)"
    using expr_ok_names [OF assms(1)] assms(2) by (metis mset_eq_imp_distinct_iff)
  moreover have "(f, t) \<in> set (map (\<lambda>(f, v). (f, type_of_value v)) e)"
    using assms(1,3) unfolding expr_ok_def by (metis set_mset_mset)
  ultimately show thesis using that by (auto intro: map_of_is_SomeI)
qed

lemma construct_typed:
  assumes "distinct (map fst d)" and "construct d e = Some vs"
  shows "map type_of_value vs = map snd d"
proof -
  have "expr_ok d e" "vs = map (\<lambda>(f, t). the (map_of e f)) d"
    using assms(2) by (auto simp: construct_def split: if_splits)
  then show ?thesis using assms(1) by (auto elim: expr_ok_typed)
qed

lemma construct_zip:
  assumes "distinct (map fst d)" and "map type_of_value vs = map snd d"
  shows "construct d (zip (map fst d) vs) = Some vs"
proof -
  have l: "length vs = length d" using assms(2) by (metis length_map)
  have "map (\<lambda>(f, v). (f, type_of_value v)) (zip (map fst d) vs) = zip (map fst d) (map type_of_value vs)"
    by (simp add: zip_map2)
  also have "\<dots> = d" by (simp add: assms(2) zip_map_fst_snd)
  finally have "expr_ok d (zip (map fst d) vs)" by (simp add: expr_ok_def)
  moreover have "map (\<lambda>(f, t). the (map_of (zip (map fst d) vs) f)) d = vs"
  proof (rule nth_equalityI)
    fix i
    assume "i < length (map (\<lambda>(f, t). the (map_of (zip (map fst d) vs) f)) d)"
    then show "map (\<lambda>(f, t). the (map_of (zip (map fst d) vs) f)) d ! i = vs ! i"
      using map_of_zip_nth [of "map fst d" vs i] assms(1) l by (simp add: case_prod_beta)
  qed (simp add: l)
  ultimately show ?thesis by (simp add: construct_def)
qed

lemma construct_determines:
  assumes "distinct (map fst d)" and "construct d e = Some vs"
  shows "mset e = mset (zip (map fst d) vs)"
proof -
  have ok: "expr_ok d e" and vs: "vs = map (\<lambda>(f, t). the (map_of e f)) d"
    using assms(2) by (auto simp: construct_def split: if_splits)
  have de: "distinct (map fst e)"
    using expr_ok_names [OF ok] assms(1) by (metis mset_eq_imp_distinct_iff)
  have "zip (map fst d) vs = map (\<lambda>f. (f, the (map_of e f))) (map fst d)"
    by (simp add: vs zip_map1 zip_map2 zip_same_conv_map case_prod_beta)
  then have "mset (zip (map fst d) vs) = image_mset (\<lambda>f. (f, the (map_of e f))) (mset (map fst d))"
    by (simp add: multiset.map_comp)
  also have "\<dots> = mset (map (\<lambda>p. (fst p, the (map_of e (fst p)))) e)"
    unfolding expr_ok_names [OF ok, symmetric] by (simp add: multiset.map_comp comp_def)
  also have "map (\<lambda>p. (fst p, the (map_of e (fst p)))) e = e"
    using de by (intro map_idI) (auto simp: map_of_is_SomeI)
  finally show ?thesis by simp
qed

section \<open>Properties\<close>

text \<open>
  every instance is made by one expression, up to the order in which its fields are
  written: expressions are accepted exactly in the orders of one another, two that differ
  give different instances, and reading the fields gives back what was written.
\<close>

theorem one_way_to_construct:
  assumes "distinct (map fst d)"
  shows "(\<exists>e. construct d e = Some vs) \<longleftrightarrow> map type_of_value vs = map snd d"
    and "construct d e = Some vs \<Longrightarrow> construct d e' = Some vs \<longleftrightarrow> mset e' = mset e"
    and "construct d e = Some vs \<Longrightarrow> (f, v) \<in> set e \<Longrightarrow> field_of d vs f = Some v"
proof -
  show "(\<exists>e. construct d e = Some vs) \<longleftrightarrow> map type_of_value vs = map snd d"
    using construct_typed [OF assms] construct_zip [OF assms] by blast
  assume c: "construct d e = Some vs"
  show "construct d e' = Some vs \<longleftrightarrow> mset e' = mset e"
  proof
    assume "construct d e' = Some vs"
    with c construct_determines [OF assms] show "mset e' = mset e" by metis
  next
    assume m: "mset e' = mset e"
    have "expr_ok d e" using c by (simp add: construct_def split: if_splits)
    then have "expr_ok d e'" using m by (simp only: expr_ok_def mset_map)
    moreover from this have "distinct (map fst e')"
      using expr_ok_names assms by (metis mset_eq_imp_distinct_iff)
    then have "map_of e' = map_of e"
      using m by (metis map_of_eqI map_of_inject_set mset_eq_setD mset_map mset_eq_imp_distinct_iff)
    ultimately show "construct d e' = Some vs"
      using c by (simp add: construct_def split: if_splits)
  qed
next
  assume c: "construct d e = Some vs" and f: "(f, v) \<in> set e"
  have "length vs = length d" using construct_typed [OF assms c] by (metis length_map)
  moreover have "(f, v) \<in> set (zip (map fst d) vs)"
    using construct_determines [OF assms c] f by (metis set_mset_mset)
  ultimately show "field_of d vs f = Some v"
    using assms by (simp add: field_of_def map_of_is_SomeI)
qed

text \<open>The test of the file; an expression that leaves a field out, or names it twice, is refused.\<close>

theorem constructors_test:
  "construcotrs = (Some [VU8 0, VU32 1, VBool False], VariantX 0, Some []) \<and>
   construct Foo_decl [(''c'', VBool False), (''a'', VU8 0), (''b'', VU32 1)] = Some [VU8 0, VU32 1, VBool False] \<and>
   construct Foo_decl [(''a'', VU8 0), (''b'', VU32 1)] = None \<and>
   construct Foo_decl [(''a'', VU8 0), (''b'', VU32 1), (''c'', VBool False), (''c'', VBool True)] = None \<and>
   construct Foo_decl [(''a'', VU32 0), (''b'', VU32 1), (''c'', VBool False)] = None"
proof -
  have "(''c'', TBool) \<notin># mset (map (\<lambda>(f, v). (f, type_of_value v)) [(''a'', VU8 0), (''b'', VU32 1)])"
    by simp
  then show ?thesis
    by (auto simp: construcotrs_def construct_def expr_ok_def Foo_decl_def Unit_decl_def)
qed

end
