(* ===== verification/Spec2Isabelle.thy ===== *)
theory Spec2Isabelle
  imports Prelude Memory Decimal StackSwitch GreenThreads Locks SpinLock Deadlock Epoll
    EpollExample Destructors DropOrder CStrings Strings Aliasing Layout BinaryHeap Traversal
    Views Idioms GreenSwitch DotOperator Borrows ScopedThreads Bindings StackEstimate LayoutMain
    Dispatch Segments RepoTests Fairness SpinFair GreenFair DropCheck EnumRepr Subtyping
    GreenMain Mains EventQueue DefaultLayout ObjectSafety Constructors
begin

text \<open>
  A verification development for the Rust programs of Easton-playground. The repository is a
  collection of small crates, grouped below by what they do; nothing is shared between the
  crates, so the theories share only the prelude and the models of memory, locks and the heap.

  The parts of the program, their theories and their sources (paths under \<^verbatim>\<open>src/\<close>):

  \<^item> Green threads, \<^verbatim>\<open>Rustaceans/Sundry/Asynchronization/green-thread-explained/src\<close>. Theory
    \<open>StackSwitch\<close> models the two assembly programs (\<^verbatim>\<open>assembly.rs\<close>, \<^verbatim>\<open>bonus.rs\<close>): the prepared
    stack as a byte buffer, the saved registers as records, the switch as a function on the
    processor state, and the printing loops. Theory \<open>GreenThreads\<close> models the runtime of
    \<^verbatim>\<open>main.rs\<close>: \<open>Runtime\<close> and \<open>Thread\<close> as records, \<open>t_yield\<close>, \<open>spawn\<close>, \<open>run\<close> and \<open>main\<close> as
    functions over them, and a step relation for the threads that yield and spawn. The
    symbol \<open>switch\<close> that \<open>t_yield\<close> calls is not defined in the sources: it is a parameter, as is
    the address of \<open>guard\<close>. Theory \<open>GreenSwitch\<close> puts the runtime on a machine (registers, program
    counter, memory): the call instruction, the words \<open>spawn\<close> writes, the steps of the running
    thread on its own stack with a label for what it does (\<open>sys_act\<close>; \<open>sys_step\<close> without the
    labels), and as specification a set of coroutines with the same labels (\<open>coro_step\<close>), in
    which a spawned coroutine starts at the function of its label. There \<open>switch\<close> has the contract \<open>saves_and_loads\<close>, what the comment before its call says of it. The routine of
    the assembly programs only loads; \<open>gt_switch_loads_alike\<close> shows that it loads the same.
    Theory \<open>GreenFair\<close> adds the executions in which threads cooperate and shows that every parked
    thread resumes.
    Theory \<open>GreenMain\<close> runs the whole \<open>main\<close> with its closures on the machine, up to its crash; what
    compiled functions do is a parameter with the calling convention as contract (\<open>keeps_abi\<close>).
    Theory \<open>StackEstimate\<close> models the recursion of \<^verbatim>\<open>Sundry/Stack/estimate-thread-stack-size\<close>.
  \<^item> Locks, \<^verbatim>\<open>OperatingSystem/concurrency\<close>. Theory \<open>Locks\<close> states the interface \<open>lock\<close> and
    interprets it on the spin lock and on the standard library's mutex. Theory \<open>SpinLock\<close>
    models the program of \<^verbatim>\<open>locks/src/spin_lock.rs\<close>: two threads, the atomic word, the counter,
    and vector clocks for the happens-before order that the memory orderings give; a data race
    on the counter ends the execution, and no execution of the program as written escapes it.
    Theory \<open>SpinFair\<close> has its main function under a fair scheduler, for the ordering of the code
    and for a releasing one, and the starvation without fairness. Theory
    \<open>Deadlock\<close> models \<^verbatim>\<open>simulate-deadlock/src/main.rs\<close> as three statement lists over two mutexes;
    theory \<open>ScopedThreads\<close> in the same way the scoped threads of
    \<^verbatim>\<open>EffectiveRust/types/src/i5_standard_traits.rs\<close>.
  \<^item> The event queue, \<^verbatim>\<open>Rustaceans/Sundry/Asynchronization/minimio/src\<close>. Theory \<open>Epoll\<close> models
    \<^verbatim>\<open>lib.rs\<close> and \<^verbatim>\<open>linux.rs\<close>, theory \<open>EpollExample\<close> the program \<^verbatim>\<open>example.rs\<close>. The kernel and the
    network are the fields of the records \<open>libc\<close> and \<open>net\<close>, parameters of every operation;
    \<open>wait_contract\<close>, \<open>oneshot_epoll\<close> (registrations by epoll instance and descriptor) and
    \<open>oneshot_kernel\<close> state the documented behaviour the theorems assume, of the calls that return;
    \<open>calls_succeed\<close> says that none fails. Theory \<open>EventQueue\<close> runs registrations and waits of any
    number of registrators and selectors in any order and relates them to one-shot queues, one
    for each descriptor, as specification; the histories of calls and their results are the
    clients' side and model no code.
  \<^item> Ownership. Theory \<open>Destructors\<close> models the smart pointers of
    \<^verbatim>\<open>Rustonomicon/obrm/constructors-destructors/src/destructors.rs\<close> with the drop glue the
    compiler adds; theory \<open>DropOrder\<close> the drop scopes of
    \<^verbatim>\<open>RustReference/rust-reference/src/c10_type_system/destructors.rs\<close> and the structs of
    \<^verbatim>\<open>Rustonomicon/ownership/drop_check/src/main.rs\<close>, theory \<open>DropCheck\<close> the drop check that these
    illustrate; theory \<open>Subtyping\<close> the traits of \<^verbatim>\<open>ownership/subtyping_and_variance/src/main.rs\<close>
    and the rule of its comments; theory \<open>Constructors\<close> the struct expressions of
    \<^verbatim>\<open>obrm/constructors-destructors/src/constructors.rs\<close>; theory \<open>Aliasing\<close> the functions of
    \<^verbatim>\<open>Rustonomicon/ownership/reference_aliasing/src/main.rs\<close> on a store; theory \<open>Borrows\<close> the
    programs of \<^verbatim>\<open>Rustonomicon/ownership/lifetime/src/lib.rs\<close> with the borrow check, as a
    backwards analysis of the references still in use; theory \<open>DotOperator\<close> the method calls of
    \<^verbatim>\<open>Rustonomicon/type_conversions/src/dot_operator.rs\<close>, the search that resolves them and the
    reference counts that they change.
  \<^item> Memory as bytes. Theory \<open>CStrings\<close> models \<^verbatim>\<open>RustDesignPatterns/.../idiom/ffi.rs\<close> on buffers
    with uninitialised bytes; theory \<open>Layout\<close> the type layouts of
    \<^verbatim>\<open>Rustonomicon/data_layout/src\<close>, theory \<open>LayoutMain\<close> the programs there that print and assert
    them, theory \<open>EnumRepr\<close> the bytes of its enums with fields and of an option of a reference,
    theory \<open>DefaultLayout\<close> the structs whose field order the compiler chooses (a parameter) and the
    empty type, theory \<open>Bindings\<close> the constants and aliases of the generated \<^verbatim>\<open>binding.rs\<close>; theory \<open>Views\<close> the casts of
    \<^verbatim>\<open>Rustonomicon/type_conversions/src/main.rs\<close> and of \<^verbatim>\<open>little-big-endian.rs\<close>.
  \<^item> Small libraries. Theory \<open>Strings\<close> (string scanning and building), \<open>BinaryHeap\<close>
    (\<^verbatim>\<open>collections/binary-heap\<close>), \<open>Traversal\<close> (\<^verbatim>\<open>write-cpu-adaptation-code\<close>), \<open>Idioms\<close>
    (the builder, a map lookup, and two functions on numbers) and \<open>Dispatch\<close> (trait objects, the
    closure of \<^verbatim>\<open>ownership/hrtbs\<close>, and the idioms of dispatch, extensibility and mutability);
    theory \<open>ObjectSafety\<close> has the trait of \<^verbatim>\<open>box-a-trait-that-has-associated-types\<close> that cannot be
    made an object.
    Theory \<open>Segments\<close> has the programs about where data lies (the write to a string literal,
    \<^verbatim>\<open>rust-variable-assignment\<close>), theories \<open>RepoTests\<close> and \<open>Mains\<close> the tests and main functions that run several of
    these functions.

  Conventions. A computation that can fail has type \<open>'a outcome\<close>: \<open>Panic\<close> for a panic and \<open>UB\<close>
  for a point of undefined behaviour, after which nothing is modelled. Arithmetic is checked,
  as in Cargo's development profile. Machine integers are words of their width where overflow
  matters (counters, tokens, return values of system calls, addresses that are computed with
  bit operations); sizes and addresses that the code only compares are naturals. The target
  is 64-bit x86. Interfaces are locales, interpreted on the code's model: \<open>step_invariant\<close> and
  \<open>step_measure\<close> (invariants and bounded runs of a step relation), \<open>simulation\<close> (labelled runs,
  interpreted on the green threads and on the event queue), \<open>fair_progress\<close> (goals that
  every fair execution reaches, in theory \<open>Fairness\<close>, interpreted on the spin lock and on the
  green threads), \<open>byte_memory\<close> (multi-byte
  accesses, on heap buffers and on partly uninitialised ones), \<open>lock\<close>, \<open>checked_call\<close> (the
  wrappers of the C library), \<open>destructor\<close> and \<open>destructor_pair\<close>, and \<open>may_dangle\<close>.

  What the lemmas show. For the step relations (\<open>rt_step\<close>, \<open>spin_step\<close>, \<open>dl_step\<close>): an invariant
  of every reachable state, and what follows of it (exclusion, capacity, the final count or the
  race, the states in which the program stops; \<open>scope_step\<close> likewise, with freedom from data
  races). For \<open>sys_act\<close>: a simulation by coroutines, and that a yield preserves the context of its
  caller. For the event queue: a simulation by one-shot queues, and the account of the tokens.
  For the compile-time checks: soundness, what is accepted does not fault, and for the borrow and
  the drop check also that what is refused can fault. For the operations: their result on every branch. For
  the byte-level code: that a write is inside its buffer exactly under the stated condition
  and reads back. Where the code is wrong, the theorem states what it does: the overreads of
  the assembly programs, the lost \<open>skip\<close> word of \<open>spawn\<close>, the main loop that cannot end and
  the second closure that never runs, the
  unlock without release ordering, the event array that the kernel can overrun, the
  destructors that free twice, the missing NUL.

  Loops. Those with a decreasing quantity are recursive functions with a termination proof.
  Three may run forever and are partial functions that return \<open>None\<close> then: \<open>find_ready\<close> (shown
  to return on every runtime with a thread table), \<open>run\<close> (shown to return exactly when no
  thread was spawned) and \<open>wait_loop\<close> (shown to return on every kernel with one-shot
  registrations, since each round reports at least one of finitely many tokens). The recursion
  of \<open>StackEstimate\<close> ends because its stack does. Fuel is used twice: in \<open>resolve_bty\<close>, where 4
  steps are shown to be enough for every alias, and in \<open>gt_steps\<close>, where 4 steps are shown to
  reach the end of the program. Bounds: 4 threads and 2 MB stacks in the runtime, 2 times 1000 iterations in the spin
  lock, 5 requests and 10 events for each wait in the event loop are the sources' constants.

  Some definitions model no line of the sources but what these rely on: the rules of the
  compiler (layout, method search, drop order, drop check), which the comments of the files
  describe, and the parts of the standard library they use (\<open>Arc\<close>, \<open>Rc\<close>, \<open>Vec\<close>, \<open>Mutex\<close>, the atomic
  operations).

  What is not modelled: timing and the printed measurements; the framework that
  \<^verbatim>\<open>box-a-trait-that-has-associated-types\<close> uses, of which only the two implementations in the file
  count; the crates whose main is empty (\<^verbatim>\<open>concurrency/race\<close>, the chapter on patterns); module
  declarations; and the sources in other languages. Of the default representation nothing is
  assumed but that the compiler places each field once. Nothing else of the Rust sources has
  behaviour of its own.
\<close>

end
